(* ===== verification/HmmOS_Prelude.thy ===== *)
theory HmmOS_Prelude
  imports Main "HOL-Library.Word" "HOL-Library.Monad_Syntax" "HOL-Library.Multiset"
begin

unbundle bit_operations_syntax

text \<open>
  Shared ground of the HmmOS development: the machine integer types of the 32-bit x86 target, the
  memory-size macros of \<^verbatim>\<open>src/src/common/memdefs.h\<close> and the address-space constants of
  \<^verbatim>\<open>src/src/common/boot_protocol.h\<close> and \<^verbatim>\<open>src/src/kernel/mm/virt.h\<close>, the encoding of
  \<^verbatim>\<open>ASSERT\<close> and the generic lemmas on words, lists and options that the component theories share.

  A failing \<^verbatim>\<open>ASSERT\<close> or \<^verbatim>\<open>assert\<close> calls \<^verbatim>\<open>__assert_fail\<close>, which prints and shuts the
  machine down (\<^verbatim>\<open>src/src/kernel/nonstd/libc.cc\<close>). A function that can fail an assertion
  therefore returns an option, \<open>None\<close> meaning that the machine has halted.
  \<^verbatim>\<open>DEBUG_ASSERT\<close> is compiled out of the modelled (non-debug) build.
\<close>

section \<open>Machine types and constants\<close>

type_synonym u8 = "8 word"
type_synonym u16 = "16 word"
type_synonym u32 = "32 word"
type_synonym u64 = "64 word"

text \<open>On the target \<^verbatim>\<open>size_t\<close>, \<^verbatim>\<open>unsigned\<close> and every pointer are 32 bits wide.\<close>

type_synonym size_t = u32
type_synonym ptr = u32

text \<open>The macros have type \<^verbatim>\<open>unsigned\<close>, so \<^verbatim>\<open>4 * GB\<close> is \<open>0\<close>.\<close>

definition KB :: u32 where "KB = 0x400"
definition MB :: u32 where "MB = KB * KB"
definition GB :: u32 where "GB = KB * MB"
definition PG_SZ :: u32 where "PG_SZ = 4 * KB"
definition PG_SZ_BITS :: nat where "PG_SZ_BITS = 12"
definition PG_PER_PT :: u32 where "PG_PER_PT = 1024"
definition HUGE_PG_SZ :: u32 where "HUGE_PG_SZ = PG_SZ * PG_PER_PT"
definition HM_START :: u32 where "HM_START = 3 * GB"

definition PG_ALIGNED :: "'a::len word \<Rightarrow> bool" where
  "PG_ALIGNED addr \<longleftrightarrow> addr AND 0xFFF = 0"

definition HUGEPG_ALIGNED :: "'a::len word \<Rightarrow> bool" where
  "HUGEPG_ALIGNED addr \<longleftrightarrow> addr AND 0x3FFFFF = 0"

definition KERNEL_LOAD_ADDR :: u32 where "KERNEL_LOAD_ADDR = 4 * GB - 32 * MB"
definition KERNEL_MAP_SZ :: u32 where "KERNEL_MAP_SZ = 4 * GB - KERNEL_LOAD_ADDR"
definition IO_MAP_SZ :: u32 where "IO_MAP_SZ = 4 * MB"

definition kernel_map_start :: size_t where "kernel_map_start = 4 * GB - KERNEL_MAP_SZ"
definition io_map_start :: size_t where "io_map_start = kernel_map_start - IO_MAP_SZ"
definition hhdm_len :: size_t where "hhdm_len = 1 * GB - (KERNEL_MAP_SZ + IO_MAP_SZ)"
definition hhdm_start :: size_t where "hhdm_start = HM_START"

named_theorems memdefs \<open>the numeric values of the size macros and address-space constants\<close>

lemma memdefs_values [memdefs]:
  "KB = 0x400" "MB = 0x100000" "GB = 0x40000000" "PG_SZ = 0x1000" "PG_SZ_BITS = 12"
  "PG_PER_PT = 0x400" "HUGE_PG_SZ = 0x400000" "HM_START = 0xC0000000"
  "KERNEL_LOAD_ADDR = 0xFE000000" "KERNEL_MAP_SZ = 0x2000000" "IO_MAP_SZ = 0x400000"
  "kernel_map_start = 0xFE000000" "io_map_start = 0xFDC00000"
  "hhdm_len = 0x3DC00000" "hhdm_start = 0xC0000000"
  by (simp_all add: KB_def MB_def GB_def PG_SZ_def PG_SZ_BITS_def PG_PER_PT_def HUGE_PG_SZ_def
      HM_START_def KERNEL_LOAD_ADDR_def KERNEL_MAP_SZ_def IO_MAP_SZ_def kernel_map_start_def
      io_map_start_def hhdm_len_def hhdm_start_def)

text \<open>The mask in the two alignment macros is the size macro less one.\<close>

lemma PG_ALIGNED_mask: "PG_ALIGNED (x :: u32) \<longleftrightarrow> x AND (PG_SZ - 1) = 0"
  by (simp add: PG_ALIGNED_def memdefs)

lemma HUGEPG_ALIGNED_mask: "HUGEPG_ALIGNED (x :: u32) \<longleftrightarrow> x AND (HUGE_PG_SZ - 1) = 0"
  by (simp add: HUGEPG_ALIGNED_def memdefs)

section \<open>Assertions\<close>

definition ASSERT :: "bool \<Rightarrow> unit option" where
  "ASSERT b = (if b then Some () else None)"

lemma ASSERT_simps [simp]: "ASSERT True = Some ()" "ASSERT False = None"
  by (simp_all add: ASSERT_def)

lemma ASSERT_eq_Some [simp]: "ASSERT b = Some u \<longleftrightarrow> b"
  by (simp add: ASSERT_def)

lemma ASSERT_bind_eq_Some [simp]: "ASSERT b \<bind> f = Some r \<longleftrightarrow> b \<and> f () = Some r"
  by (simp add: ASSERT_def)

lemma ASSERT_bind_eq_None: "ASSERT b \<bind> f = None \<longleftrightarrow> \<not> b \<or> f () = None"
  by (simp add: ASSERT_def)

section \<open>Words\<close>

lemma unat_two_power: "k < LENGTH('a) \<Longrightarrow> unat ((2 :: 'a::len word) ^ k) = 2 ^ k"
proof -
  assume "k < LENGTH('a)"
  moreover have "(2 :: 'a word) ^ k = of_nat (2 ^ k)" by simp
  ultimately show ?thesis by (simp only: unat_of_nat) simp
qed

lemma mask_word_eq: "(2 :: 'a::len word) ^ k - 1 = mask k"
  by (simp add: mask_eq_exp_minus_1)

lemma and_not_mask_push_drop:
  "(n :: 'a::len word) AND NOT (mask k) = push_bit k (drop_bit k n)"
  by (rule bit_word_eqI) (auto simp: bit_simps)

lemma unat_floor_mask:
  "unat ((n :: 'a::len word) AND NOT (mask k)) = unat n div 2 ^ k * 2 ^ k"
proof -
  have "unat (push_bit k (drop_bit k n)) = take_bit LENGTH('a) (unat n div 2 ^ k * 2 ^ k)"
    by (simp only: unsigned_push_bit_eq unat_drop_bit_eq)
      (simp only: push_bit_eq_mult drop_bit_eq_div)
  also have "\<dots> = unat n div 2 ^ k * 2 ^ k"
    by (rule take_bit_nat_eq_self)
      (metis div_times_less_eq_dividend order_le_less_trans unsigned_less)
  finally show ?thesis by (simp add: and_not_mask_push_drop)
qed

lemma unat_and_mask: "unat ((n :: 'a::len word) AND mask k) = unat n mod 2 ^ k"
  by (simp flip: take_bit_eq_mask add: unsigned_take_bit_eq) (simp add: take_bit_eq_mod)

lemma and_mask_eq_0_iff: "(n :: 'a::len word) AND mask k = 0 \<longleftrightarrow> 2 ^ k dvd unat n"
  by (metis unat_and_mask unat_eq_0 mod_eq_0_iff_dvd)

lemma unat_lt_u32: "unat (x :: u32) < 4294967296"
  using unsigned_less[where 'a = nat and 'b = 32, of x] by simp

lemma unat_lt_u64: "unat (x :: u64) < 18446744073709551616"
  using unsigned_less[where 'a = nat and 'b = 64, of x] by simp

lemma unat_ucast_mod: "unat (ucast (x :: 'a::len word) :: 'b::len word) = unat x mod 2 ^ LENGTH('b)"
  by (simp add: unsigned_ucast_eq take_bit_eq_mod)

lemma unat_ucast_64_32 [simp]: "unat (ucast (x :: u64) :: u32) = unat x mod 2 ^ 32"
  by (simp add: unat_ucast_mod)

lemma unat_ucast_32_64 [simp]: "unat (ucast (x :: u32) :: u64) = unat x"
  using unsigned_less[where 'a = nat and 'b = 32, of x] by (simp add: unat_ucast_mod)

lemma ucast_32_64_32 [simp]: "ucast (ucast (x :: u32) :: u64) = x"
  using unsigned_less[where 'a = nat and 'b = 32, of x] by (simp add: word_unat_eq_iff)

lemma unat_of_nat_small: "i < 2 ^ LENGTH('a) \<Longrightarrow> unat (of_nat i :: 'a::len word) = i"
  by (simp add: unsigned_of_nat take_bit_nat_eq_self)

lemma unat_drop_bit_div: "unat (drop_bit n (x :: 'a::len word)) = unat x div 2 ^ n"
  by (simp only: unat_drop_bit_eq) (simp add: drop_bit_eq_div)

lemma unat_add_no_wrap:
  "unat (a :: 'a::len word) + unat b < 2 ^ LENGTH('a) \<Longrightarrow> unat (a + b) = unat a + unat b"
  by (simp add: unat_word_ariths)

lemma unat_add_wrap:
  fixes x y :: "'a::len word"
  assumes "2 ^ LENGTH('a) \<le> unat x + unat y"
  shows "unat (x + y) = unat x + unat y - 2 ^ LENGTH('a)"
proof -
  have "unat x < 2 ^ LENGTH('a)" "unat y < 2 ^ LENGTH('a)" by (rule unsigned_less)+
  then have "unat x + unat y - 2 ^ LENGTH('a) < 2 ^ LENGTH('a)" using assms by linarith
  then have "(unat x + unat y) mod 2 ^ LENGTH('a) = unat x + unat y - 2 ^ LENGTH('a)"
    using le_mod_geq[OF assms] by (simp only: mod_less)
  then show ?thesis by (simp add: unat_word_ariths)
qed

lemma unat_sub_no_wrap:
  "(b :: 'a::len word) \<le> a \<Longrightarrow> unat (a - b) = unat a - unat b"
  by (simp add: unat_sub)

section \<open>Lists\<close>

lemma all_range_Suc:
  "(\<forall>i. a \<le> i \<longrightarrow> i < a + Suc n \<longrightarrow> P i) \<longleftrightarrow> P a \<and> (\<forall>i. Suc a \<le> i \<longrightarrow> i < Suc a + n \<longrightarrow> P i)"
  by (metis Suc_leI add_Suc_right add_Suc_shift le_add1 le_eq_less_or_eq less_Suc_eq_le Suc_le_lessD)

text \<open>The loop \<^verbatim>\<open>for (it = a; it < a + n; ++it) *it = f(*it)\<close> over an array.\<close>

fun upd_range :: "('a \<Rightarrow> 'a) \<Rightarrow> nat \<Rightarrow> nat \<Rightarrow> 'a list \<Rightarrow> 'a list" where
  "upd_range f a 0 xs = xs"
| "upd_range f a (Suc n) xs = upd_range f (Suc a) n (xs[a := f (xs ! a)])"

lemma length_upd_range [simp]: "length (upd_range f a n xs) = length xs"
  by (induction f a n xs rule: upd_range.induct) auto

lemma nth_upd_range:
  "i < length xs \<Longrightarrow> upd_range f a n xs ! i = (if a \<le> i \<and> i < a + n then f (xs ! i) else xs ! i)"
  by (induction f a n xs rule: upd_range.induct)
    (auto simp: nth_list_update le_eq_less_or_eq Suc_le_eq)

text \<open>
  The loop that moves the elements satisfying \<open>p\<close> to the front of an array by swapping, as
  \<^verbatim>\<open>PageFrameTable::normalize_mm\<close> does twice: \<open>i\<close> runs over the array, \<open>cnt\<close> counts the hits.
\<close>

definition swap_nth :: "nat \<Rightarrow> nat \<Rightarrow> 'a list \<Rightarrow> 'a list" where
  "swap_nth i j xs = xs[i := xs ! j, j := xs ! i]"

fun swap_to_front :: "('a \<Rightarrow> bool) \<Rightarrow> nat list \<Rightarrow> nat \<Rightarrow> 'a list \<Rightarrow> 'a list \<times> nat" where
  "swap_to_front p [] cnt xs = (xs, cnt)"
| "swap_to_front p (i # is) cnt xs =
     (if p (xs ! i) then swap_to_front p is (Suc cnt) (swap_nth i cnt xs)
      else swap_to_front p is cnt xs)"

lemma length_swap_nth [simp]: "length (swap_nth i j xs) = length xs"
  by (simp add: swap_nth_def)

lemma nth_swap_nth:
  "i < length xs \<Longrightarrow> j < length xs \<Longrightarrow> k < length xs \<Longrightarrow>
   swap_nth i j xs ! k = (if k = j then xs ! i else if k = i then xs ! j else xs ! k)"
  by (simp add: swap_nth_def nth_list_update)

lemma take_swap_nth: "k \<le> i \<Longrightarrow> k \<le> j \<Longrightarrow> take k (swap_nth i j xs) = take k xs"
  by (simp add: swap_nth_def)

lemma drop_swap_nth: "i < k \<Longrightarrow> j < k \<Longrightarrow> drop k (swap_nth i j xs) = drop k xs"
  by (simp add: swap_nth_def)

lemma swap_to_front_gen:
  assumes "cnt \<le> i" and "i \<le> length xs" and "\<forall>k. cnt \<le> k \<and> k < i \<longrightarrow> \<not> p (xs ! k)"
  shows "case swap_to_front p [i..<length xs] cnt xs of (ys, c) \<Rightarrow>
    length ys = length xs \<and> c \<le> length xs \<and> take c ys = take cnt xs @ filter p (drop i xs)"
  using assms
proof (induction "length xs - i" arbitrary: i cnt xs)
  case 0
  then show ?case by simp
next
  case (Suc n)
  then have i: "i < length xs" by simp
  then have upt: "[i..<length xs] = i # [Suc i..<length xs]" by (rule upt_conv_Cons)
  show ?case
  proof (cases "p (xs ! i)")
    case True
    let ?ys = "swap_nth i cnt xs"
    have "take (Suc cnt) ?ys = take cnt xs @ [xs ! i]"
      using i Suc.prems(1)
      by (simp add: take_Suc_conv_app_nth take_swap_nth nth_swap_nth)
    moreover have "\<forall>k. Suc cnt \<le> k \<and> k < Suc i \<longrightarrow> \<not> p (?ys ! k)"
      using i Suc.prems by (auto simp: nth_swap_nth less_Suc_eq)
    moreover have "drop (Suc i) ?ys = drop (Suc i) xs"
      using Suc.prems(1) by (simp add: drop_swap_nth)
    moreover have "filter p (drop i xs) = xs ! i # filter p (drop (Suc i) xs)"
      using i True by (simp add: Cons_nth_drop_Suc [symmetric])
    ultimately show ?thesis
      using Suc.hyps(1) [of ?ys "Suc i" "Suc cnt"] Suc.hyps(2) Suc.prems i True
      by (auto simp: upt split: prod.splits)
  next
    case False
    moreover have "filter p (drop i xs) = filter p (drop (Suc i) xs)"
      using i False by (simp add: Cons_nth_drop_Suc [symmetric])
    moreover have "\<forall>k. cnt \<le> k \<and> k < Suc i \<longrightarrow> \<not> p (xs ! k)"
      using Suc.prems False by (auto simp: less_Suc_eq)
    moreover have "n = length xs - Suc i" using Suc.hyps(2) by simp
    ultimately show ?thesis
      using Suc.hyps(1) [of xs "Suc i" cnt] Suc.prems i
      by (auto simp: upt split: prod.splits)
  qed
qed

lemma swap_to_front_filter:
  "swap_to_front p [0..<length xs] 0 xs = (ys, c) \<Longrightarrow> take c ys = filter p xs"
  using swap_to_front_gen [of 0 0 xs p] by simp

lemma swap_to_front_length:
  "swap_to_front p [0..<length xs] 0 xs = (ys, c) \<Longrightarrow> length ys = length xs \<and> c \<le> length xs"
  using swap_to_front_gen [of 0 0 xs p] by simp

lemma swap_to_front_mset:
  "set is \<subseteq> {..<length xs} \<Longrightarrow> distinct is \<Longrightarrow> cnt + length is \<le> length xs \<Longrightarrow>
   mset (fst (swap_to_front p is cnt xs)) = mset xs"
proof (induction "is" arbitrary: cnt xs)
  case (Cons i "is")
  have "mset (swap_nth i cnt xs) = mset xs"
    using Cons.prems by (auto simp: swap_nth_def mset_swap)
  with Cons show ?case by auto
qed simp

text \<open>A pairwise property of a list that is symmetric does not depend on the order.\<close>

lemma sorted_wrt_permute:
  assumes "symp R" and "mset xs = mset ys" and "sorted_wrt R xs"
  shows "sorted_wrt R ys"
  using assms(2,3)
proof (induction xs arbitrary: ys)
  case (Cons x xs)
  then have "x \<in> set ys" by (metis list.set_intros(1) mset_eq_setD)
  then obtain as bs where ys: "ys = as @ x # bs" by (auto simp: in_set_conv_decomp)
  with Cons.prems(1) have m: "mset xs = mset (as @ bs)" by simp
  then have "set xs = set as \<union> set bs" by (metis mset_eq_setD set_append)
  with Cons.prems(2) have "\<forall>y \<in> set as \<union> set bs. R x y" by simp
  moreover have "sorted_wrt R (as @ bs)" using Cons.IH [OF m] Cons.prems(2) by simp
  ultimately show ?case
    using assms(1) by (auto simp: ys sorted_wrt_append dest: sympD)
qed simp

end
