(* ===== verification/Algorithm.thy ===== *)
theory Algorithm
  imports HmmOS_Prelude
begin

text \<open>
  The bit-twiddling and range helpers of \<^verbatim>\<open>src/src/kernel/util/algorithm.h\<close>. Everything is on
  \<^verbatim>\<open>uint64_t\<close> (the range predicates are templates, used at 32 and 64 bits), so a sum that
  exceeds the width wraps around; each specification states where that cannot happen.
\<close>

section \<open>Powers of two and alignment\<close>

definition pow2 :: "u64 \<Rightarrow> bool" where
  "pow2 n \<longleftrightarrow> n \<noteq> 0 \<and> n AND (n - 1) = 0"

definition ceil_pow2 :: "u64 \<Rightarrow> u64 \<Rightarrow> u64" where
  "ceil_pow2 divisor n = (n - 1 + divisor) AND NOT (divisor - 1)"

definition floor_pow2 :: "u64 \<Rightarrow> u64 \<Rightarrow> u64" where
  "floor_pow2 divisor n = n AND NOT (divisor - 1)"

definition aligned_pow2 :: "u64 \<Rightarrow> u64 \<Rightarrow> bool" where
  "aligned_pow2 divisor n \<longleftrightarrow> n AND (divisor - 1) = 0"

section \<open>Ranges\<close>

definition range_overlaps :: "'a::len word \<Rightarrow> 'a word \<Rightarrow> 'a word \<Rightarrow> 'a word \<Rightarrow> bool \<Rightarrow> bool" where
  "range_overlaps base1 end1 base2 end2 inclusive \<longleftrightarrow>
     (if inclusive then base1 \<le> end2 \<and> base2 \<le> end1 else base1 < end2 \<and> base2 < end1)"

definition range_overlaps2 :: "'a::len word \<Rightarrow> 'a word \<Rightarrow> 'a word \<Rightarrow> 'a word \<Rightarrow> bool \<Rightarrow> bool" where
  "range_overlaps2 base1 len1 base2 len2 inclusive =
     range_overlaps base1 (base1 + len1) base2 (base2 + len2) inclusive"

definition range_subsumes :: "'a::len word \<Rightarrow> 'a word \<Rightarrow> 'a word \<Rightarrow> 'a word \<Rightarrow> bool \<Rightarrow> bool" where
  "range_subsumes base1 end1 base2 end2 inclusive \<longleftrightarrow>
     (if inclusive then base1 \<le> base2 \<and> end1 \<ge> end2 else base1 < base2 \<and> end1 > end2)"

definition range_subsumes2 :: "'a::len word \<Rightarrow> 'a word \<Rightarrow> 'a word \<Rightarrow> 'a word \<Rightarrow> bool \<Rightarrow> bool" where
  "range_subsumes2 base1 len1 base2 len2 inclusive =
     range_subsumes base1 (base1 + len1) base2 (base2 + len2) inclusive"

section \<open>What the alignment helpers compute\<close>

lemma bit_top_of_range:
  assumes "2 ^ k \<le> m" and "m < 2 ^ Suc k"
  shows "bit (m :: nat) k"
proof -
  have "m div 2 ^ k = 1" using assms by (intro div_nat_eqI) auto
  then show ?thesis by (simp add: bit_iff_odd)
qed

lemma pow2_power: "k < 64 \<Longrightarrow> pow2 (2 ^ k)"
proof -
  assume k: "k < 64"
  have "(2 :: u64) ^ k AND mask k = 0"
    by (rule bit_word_eqI) (auto simp: bit_simps)
  moreover have "(2 :: u64) ^ k \<noteq> 0" using k by simp
  ultimately show ?thesis by (simp add: pow2_def mask_word_eq)
qed

lemma pow2D:
  assumes "pow2 n" obtains k where "k < 64" and "n = 2 ^ k"
proof -
  from assms have n0: "0 < unat n" by (simp add: pow2_def unat_gt_0)
  then obtain k where k: "2 ^ k \<le> unat n" "unat n < 2 ^ Suc k"
    using ex_power_ivl1 [of 2 "unat n"] by auto
  have "unat n < 2 ^ 64" using unsigned_less [of n, where ?'a = nat] by simp
  with k(1) have k64: "k < 64"
    using order_le_less_trans power_less_imp_less_exp by (metis one_less_numeral_iff semiring_norm(76))
  have "unat n = 2 ^ k"
  proof (rule ccontr)
    assume "unat n \<noteq> 2 ^ k"
    with k have "2 ^ k \<le> unat n - 1" and "unat n - 1 < 2 ^ Suc k" by auto
    with k have "bit (unat n) k" and "bit (unat n - 1) k"
      by (auto intro: bit_top_of_range)
    moreover have "unat (n - 1) = unat n - 1"
      using n0 by (simp add: unat_sub_no_wrap word_le_nat_alt)
    ultimately have "bit (n AND (n - 1)) k"
      using k64 by (metis bit_and_iff bit_unsigned_iff)
    with assms show False by (simp add: pow2_def)
  qed
  then have "n = 2 ^ k" using k64 by (simp add: word_unat_eq_iff unat_two_power)
  with k64 that show ?thesis by blast
qed

lemma unat_floor_pow2:
  "pow2 d \<Longrightarrow> unat (floor_pow2 d n) = unat n div unat d * unat d"
  by (elim pow2D) (simp add: floor_pow2_def mask_word_eq unat_floor_mask unat_two_power)

lemma aligned_pow2_iff: "pow2 d \<Longrightarrow> aligned_pow2 d n \<longleftrightarrow> unat d dvd unat n"
  by (elim pow2D) (simp add: aligned_pow2_def mask_word_eq and_mask_eq_0_iff unat_two_power)

lemma unat_ceil_pow2:
  assumes "pow2 d" and "unat n + unat d \<le> 2 ^ 64"
  shows "unat (ceil_pow2 d n) = (unat n + (unat d - 1)) div unat d * unat d"
proof -
  obtain k where k: "k < 64" "d = 2 ^ k" using assms(1) by (rule pow2D)
  then have d: "1 \<le> unat d" "unat (d - 1) = unat d - 1"
    by (auto simp: unat_sub_no_wrap word_le_nat_alt unat_two_power)
  have "unat (n + (d - 1)) = unat n + (unat d - 1)"
    using assms(2) d by (subst unat_add_no_wrap) auto
  moreover have "n - 1 + d = n + (d - 1)" by simp
  ultimately have "unat (n - 1 + d) = unat n + (unat d - 1)" by (simp only:)
  then show ?thesis
    by (simp add: ceil_pow2_def k mask_word_eq unat_floor_mask unat_two_power)
qed

text \<open>The page-size instances, which the memory-management code uses throughout.\<close>

abbreviation ceil_pg :: "u64 \<Rightarrow> u64" where "ceil_pg \<equiv> ceil_pow2 0x1000"
abbreviation floor_pg :: "u64 \<Rightarrow> u64" where "floor_pg \<equiv> floor_pow2 0x1000"
abbreviation aligned_pg :: "u64 \<Rightarrow> bool" where "aligned_pg \<equiv> aligned_pow2 0x1000"

lemma pow2_PG_SZ [simp]: "pow2 0x1000"
  using pow2_power [of 12] by simp

lemma unat_floor_pg: "unat (floor_pg n) = unat n div 4096 * 4096"
  by (simp add: unat_floor_pow2)

lemma unat_ceil_pg:
  "unat n + 4096 \<le> 2 ^ 64 \<Longrightarrow> unat (ceil_pg n) = (unat n + 4095) div 4096 * 4096"
  by (simp add: unat_ceil_pow2)

lemma aligned_pg_iff: "aligned_pg n \<longleftrightarrow> 4096 dvd unat n"
  by (simp add: aligned_pow2_iff)

lemma PG_ALIGNED_iff: "PG_ALIGNED (n :: 'a::len word) \<longleftrightarrow> 4096 dvd unat n" if "12 < LENGTH('a)"
proof -
  have "(0xFFF :: 'a word) = mask 12" by (simp add: mask_eq_exp_minus_1)
  then show ?thesis by (simp only: PG_ALIGNED_def and_mask_eq_0_iff) simp
qed

lemma aligned_pg_PG_ALIGNED: "aligned_pg n \<longleftrightarrow> PG_ALIGNED n"
  by (simp add: aligned_pg_iff PG_ALIGNED_iff)

section \<open>What the range predicates decide\<close>

text \<open>The addresses of the range of length \<open>l\<close> at \<open>b\<close>, as natural numbers.\<close>

definition span :: "'a::len word \<Rightarrow> 'a word \<Rightarrow> nat set" where
  "span b l = {unat b ..< unat b + unat l}"

text \<open>The range ends at the latest at the last address of the address space.\<close>

definition no_wrap :: "'a::len word \<Rightarrow> 'a word \<Rightarrow> bool" where
  "no_wrap b l \<longleftrightarrow> unat b + unat l < 2 ^ LENGTH('a)"

lemma span_empty [simp]: "span b 0 = {}"
  by (simp add: span_def)

lemma span_eq_empty: "span b l = {} \<longleftrightarrow> l = 0"
  by (simp add: span_def unat_eq_0)

lemma no_wrap_unat: "no_wrap b l \<Longrightarrow> unat (b + l) = unat b + unat l"
  by (simp add: no_wrap_def unat_add_no_wrap)

lemma range_overlaps2_nat:
  assumes "no_wrap b1 l1" and "no_wrap b2 l2"
  shows "range_overlaps2 b1 l1 b2 l2 False \<longleftrightarrow>
    unat b1 < unat b2 + unat l2 \<and> unat b2 < unat b1 + unat l1"
  using assms
  by (simp add: range_overlaps2_def range_overlaps_def word_less_nat_alt no_wrap_unat)

lemma range_overlaps2_span:
  assumes "no_wrap b1 l1" and "no_wrap b2 l2" and "l1 \<noteq> 0" and "l2 \<noteq> 0"
  shows "range_overlaps2 b1 l1 b2 l2 False \<longleftrightarrow> span b1 l1 \<inter> span b2 l2 \<noteq> {}"
proof -
  have "0 < unat l1" and "0 < unat l2" using assms(3,4) by (simp_all add: unat_gt_0)
  moreover have "unat b1 < unat b2 + unat l2 \<and> unat b2 < unat b1 + unat l1 \<longleftrightarrow>
      max (unat b1) (unat b2) \<in> span b1 l1 \<inter> span b2 l2"
    using calculation by (auto simp: span_def)
  ultimately show ?thesis
    using assms(1,2) by (auto simp: range_overlaps2_nat span_def)
qed

lemma range_subsumes2_span:
  assumes "no_wrap b1 l1" and "no_wrap b2 l2" and "l2 \<noteq> 0"
  shows "range_subsumes2 b1 l1 b2 l2 True \<longleftrightarrow> span b2 l2 \<subseteq> span b1 l1"
proof -
  have "0 < unat l2" using assms(3) by (simp add: unat_gt_0)
  then show ?thesis
    using assms(1,2)
    by (auto simp: range_subsumes2_def range_subsumes_def word_le_nat_alt no_wrap_unat span_def)
qed

end
