(* ===== verification/Page_Frame_Table.thy ===== *)
theory Page_Frame_Table
  imports Algorithm
begin

text \<open>
  The E820 memory map of \<^verbatim>\<open>src/src/common/boot_protocol.h\<close> and the page frame table of
  \<^verbatim>\<open>src/src/kernel/mm/page_frame_table.h\<close> and \<^verbatim>\<open>page_frame_table.cc\<close>: normalisation of the memory
  map, placement of the table, registration of allocators. Offsets are \<^verbatim>\<open>uint64_t\<close>; a pointer to
  a page frame descriptor is its index in the table. \<^verbatim>\<open>std::sort\<close> promises some sorted
  permutation, so the sorting function is an argument, with that promise as the locale
  \<open>std_sort\<close>.
\<close>

section \<open>The memory map\<close>

record e820_mm_entry =
  base :: u64
  len :: u64
  mm_type :: u32
  acpi_extended_attrs :: u32

definition E820_MM_TYPE_USABLE :: u32 where "E820_MM_TYPE_USABLE = 1"
definition E820_MM_TYPE_BOOTLOADER :: u32 where "E820_MM_TYPE_BOOTLOADER = 6"
definition E820_MM_TYPE_BOOTLOADER_RECLAIMABLE :: u32 where
  "E820_MM_TYPE_BOOTLOADER_RECLAIMABLE = 7"

lemmas e820_types =
  E820_MM_TYPE_USABLE_def E820_MM_TYPE_BOOTLOADER_def E820_MM_TYPE_BOOTLOADER_RECLAIMABLE_def

definition e820_entry_present :: "e820_mm_entry \<Rightarrow> bool" where
  "e820_entry_present ent \<longleftrightarrow>
     base ent \<noteq> 0 \<or> len ent \<noteq> 0 \<or> mm_type ent \<noteq> 0 \<or> acpi_extended_attrs ent \<noteq> 0"

type_synonym memory_map = "e820_mm_entry list"

fun compute_total_mem :: "memory_map \<Rightarrow> u64" where
  "compute_total_mem [] = 0"
| "compute_total_mem (e # mm) =
     (if mm_type e \<noteq> E820_MM_TYPE_BOOTLOADER then len e + compute_total_mem mm
      else compute_total_mem mm)"

fun compute_usable_mem :: "memory_map \<Rightarrow> u64" where
  "compute_usable_mem [] = 0"
| "compute_usable_mem (e # rs) = len e + compute_usable_mem rs"

section \<open>normalize\_mm\<close>

text \<open>The body of the splitting loop for bootloader entry \<open>i\<close> inside entry \<open>j\<close>.\<close>

definition split_entry :: "memory_map \<Rightarrow> nat \<Rightarrow> nat \<Rightarrow> memory_map option" where
  "split_entry mm i j = do {
     let bootloader_entry = mm ! i;
     let non_bootloader_entry = mm ! j;
     ASSERT (mm_type non_bootloader_entry = E820_MM_TYPE_USABLE);
     ASSERT (range_subsumes2 (base non_bootloader_entry) (len non_bootloader_entry)
               (base bootloader_entry) (len bootloader_entry) True);
     let base1 = base non_bootloader_entry;
     let len1 = base bootloader_entry - base non_bootloader_entry;
     let base2 = base bootloader_entry + len bootloader_entry;
     let len2 = base non_bootloader_entry + len non_bootloader_entry - base2;
     ASSERT (len1 + len2 + len bootloader_entry = len non_bootloader_entry);
     Some (mm[j := non_bootloader_entry\<lparr>base := base1, len := len1\<rparr>,
              i := bootloader_entry\<lparr>base := base2, len := len2,
                                     mm_type := E820_MM_TYPE_USABLE\<rparr>])
   }"

text \<open>The inner loop over \<open>j\<close>: the first overlapping entry is split and the loop left.\<close>

fun split_scan :: "nat list \<Rightarrow> nat \<Rightarrow> memory_map \<Rightarrow> memory_map option" where
  "split_scan [] i mm = Some mm"
| "split_scan (j # js) i mm =
     (if i = j then split_scan js i mm
      else if \<not> range_overlaps2 (base (mm ! i)) (len (mm ! i)) (base (mm ! j)) (len (mm ! j)) False
      then split_scan js i mm
      else split_entry mm i j)"

fun split_bootloader :: "nat list \<Rightarrow> memory_map \<Rightarrow> memory_map option" where
  "split_bootloader [] mm = Some mm"
| "split_bootloader (i # is) mm =
     (if mm_type (mm ! i) \<noteq> E820_MM_TYPE_BOOTLOADER then split_bootloader is mm
      else do { mm' \<leftarrow> split_scan [0..<length mm] i mm; split_bootloader is mm' })"

text \<open>The check of neighbouring entries after sorting.\<close>

fun check_overlap :: "memory_map \<Rightarrow> unit option" where
  "check_overlap (e1 # e2 # mm) = do {
     ASSERT (\<not> range_overlaps2 (base e1) (len e1) (base e2) (len e2) False \<or>
       (mm_type e1 = E820_MM_TYPE_BOOTLOADER_RECLAIMABLE \<and> mm_type e2 = E820_MM_TYPE_USABLE) \<or>
       (mm_type e1 = E820_MM_TYPE_USABLE \<and> mm_type e2 = E820_MM_TYPE_BOOTLOADER_RECLAIMABLE));
     check_overlap (e2 # mm)
   }"
| "check_overlap mm = Some ()"

definition align_region :: "e820_mm_entry \<Rightarrow> e820_mm_entry" where
  "align_region region =
     (let end = floor_pg (base region + len region);
          b = ceil_pg (base region)
      in region\<lparr>base := b, len := (if end > b then end - b else 0)\<rparr>)"

text \<open>The result is the array as it is left, with the number of its leading usable regions.\<close>

definition normalize_mm ::
  "(memory_map \<Rightarrow> memory_map) \<Rightarrow> memory_map \<Rightarrow> (memory_map \<times> nat) option" where
  "normalize_mm srt mm = do {
     mm1 \<leftarrow> split_bootloader [0..<length mm] mm;
     let mm2 = srt mm1;
     check_overlap mm2;
     let (mm3, usable_region_count) =
       swap_to_front (\<lambda>e. mm_type e = E820_MM_TYPE_USABLE) [0..<length mm2] 0 mm2;
     let usable_region_map = map align_region (take usable_region_count mm3);
     let (rs, usable_region_nonempty_count) =
       swap_to_front (\<lambda>e. len e \<noteq> 0) [0..<length usable_region_map] 0 usable_region_map;
     Some (rs @ drop usable_region_count mm3, usable_region_nonempty_count)
   }"

definition usable_of :: "memory_map \<times> nat \<Rightarrow> memory_map" where
  "usable_of r = take (snd r) (fst r)"

section \<open>The table\<close>

text \<open>The 63 bytes of padding of a page frame descriptor are not used.\<close>

record pfd =
  allocated :: bool
  unusable :: bool

definition zero_pfd :: pfd where "zero_pfd = \<lparr>allocated = False, unusable = False\<rparr>"

definition usable :: "pfd \<Rightarrow> bool" where
  "usable p \<longleftrightarrow> \<not> allocated p \<and> \<not> unusable p"

text \<open>
  \<open>mm\<close> is the (normalised) copy of the map and \<open>usable_region_count\<close> the length of its leading
  part that \<^verbatim>\<open>usable_regions\<close> views; the span \<^verbatim>\<open>pft\<close> of descriptors is its address \<open>pft_base\<close> and its
  elements \<open>pft\<close>; \<open>allocators\<close> lists the ranges of the registered allocators;
  \<open>zeroed\<close> records the physical ranges the constructor clears.
\<close>

record page_frame_table =
  pft_mm :: memory_map
  usable_region_count :: nat
  pft_base :: ptr
  pft :: "pfd list"
  allocators :: "(u64 \<times> u64) list"
  zeroed :: "(u64 \<times> size_t) list"
  total_mem_bytes :: u64
  usable_mem_bytes :: u64

definition usable_regions :: "page_frame_table \<Rightarrow> memory_map" where
  "usable_regions t = take (usable_region_count t) (pft_mm t)"

text \<open>\<^verbatim>\<open>size_t pfd_idx = pf_offset >> PG_SZ_BITS\<close>: the index is truncated to 32 bits.\<close>

definition pfd_idx :: "u64 \<Rightarrow> nat" where
  "pfd_idx pf_offset = unat (ucast (drop_bit PG_SZ_BITS pf_offset) :: size_t)"

definition region_end :: "e820_mm_entry \<Rightarrow> u64" where
  "region_end r = base r + len r"

text \<open>\<open>mem_limit\<close> reads \<^verbatim>\<open>usable_regions.back()\<close>, which is undefined when there is no region.\<close>

definition mem_limit :: "memory_map \<Rightarrow> u64 option" where
  "mem_limit rs = (if rs = [] then None else Some (region_end (last rs)))"

definition direct_to_hhdm :: "u64 \<Rightarrow> ptr option" where
  "direct_to_hhdm phys_addr = do {
     ASSERT (phys_addr < ucast hhdm_len);
     Some (ucast (phys_addr + ucast hhdm_start))
   }"

definition hhdm_to_direct :: "ptr \<Rightarrow> u64 option" where
  "hhdm_to_direct virt_addr = do {
     ASSERT (virt_addr \<ge> hhdm_start \<and> virt_addr < hhdm_start + hhdm_len);
     Some (ucast (virt_addr - hhdm_start))
   }"

fun trim_first_fit :: "u64 \<Rightarrow> memory_map \<Rightarrow> (ptr \<times> memory_map) option" where
  "trim_first_fit pft_len_padded [] = None"
| "trim_first_fit pft_len_padded (region # rs) =
     (if len region \<ge> pft_len_padded then do {
        pb \<leftarrow> direct_to_hhdm (base region);
        let region' = region\<lparr>base := base region + pft_len_padded,
                             len := len region - pft_len_padded\<rparr>;
        ASSERT (base region' \<le> ucast hhdm_len);
        Some (pb, region' # rs)
      }
      else do {
        (pb, rs') \<leftarrow> trim_first_fit pft_len_padded rs;
        Some (pb, region # rs')
      })"

text \<open>\<^verbatim>\<open>sizeof(PageFrameDescriptor)\<close> is 64; \<^verbatim>\<open>page_limit\<close> and \<^verbatim>\<open>pft_len\<close> are \<^verbatim>\<open>size_t\<close>.\<close>

definition alloc_pft :: "memory_map \<Rightarrow> (ptr \<times> nat \<times> memory_map) option" where
  "alloc_pft rs = do {
     limit \<leftarrow> mem_limit rs;
     ASSERT (aligned_pg limit);
     let page_limit = (ucast (drop_bit PG_SZ_BITS limit) :: size_t);
     let pft_len = page_limit * 64;
     let pft_len_padded = (ucast (ceil_pg (ucast pft_len)) :: size_t);
     (pb, rs') \<leftarrow> trim_first_fit (ucast pft_len_padded) rs;
     ASSERT (pb \<noteq> 0);
     Some (pb, unat page_limit, rs')
   }"

text \<open>The length handed to \<^verbatim>\<open>memset\<close> is a \<^verbatim>\<open>size_t\<close>: it is truncated to 32 bits.\<close>

definition reclaimable_ranges :: "memory_map \<Rightarrow> (u64 \<times> size_t) list" where
  "reclaimable_ranges mm =
     map (\<lambda>e. (base e, ucast (len e)))
       (filter (\<lambda>e. mm_type e = E820_MM_TYPE_BOOTLOADER_RECLAIMABLE) mm)"

text \<open>
  The constructor. The kernel passes no table (\<open>_pft = None\<close>) and one is placed in usable memory;
  that memory is not initialised, so the descriptor found at an address is an argument \<open>ram\<close>. The unit
  tests pass one, a span.
\<close>

definition PageFrameTable ::
  "(memory_map \<Rightarrow> memory_map) \<Rightarrow> (ptr \<Rightarrow> pfd) \<Rightarrow> memory_map \<Rightarrow> (ptr \<times> pfd list) option
     \<Rightarrow> page_frame_table option" where
  "PageFrameTable srt ram mm pft_arg = do {
     ASSERT (length mm \<le> 32);
     (mm', cnt) \<leftarrow> normalize_mm srt mm;
     (rs, pb, p) \<leftarrow> (case pft_arg of
         Some (pb, p) \<Rightarrow> Some (take cnt mm', pb, p)
       | None \<Rightarrow> do {
           (pb, page_limit, rs) \<leftarrow> alloc_pft (take cnt mm');
           Some (rs, pb, map (\<lambda>i. ram (pb + 64 * of_nat i)) [0..<page_limit])
         });
     let mm'' = rs @ drop cnt mm';
     ASSERT (\<forall>(b, l) \<in> set (reclaimable_ranges mm''). b < ucast hhdm_len);
     (case pft_arg of
         None \<Rightarrow> Some ()
       | Some (_, p) \<Rightarrow> do {
           limit \<leftarrow> mem_limit rs;
           ASSERT (length p \<ge> pfd_idx limit)
         });
     Some \<lparr>pft_mm = mm'', usable_region_count = cnt, pft_base = pb, pft = p,
           allocators = [], zeroed = reclaimable_ranges mm'',
           total_mem_bytes = compute_total_mem mm, usable_mem_bytes = compute_usable_mem rs\<rparr>
   }"

text \<open>
  \<open>get_pfd\<close> with the bound of its debug assertion (an end pointer is allowed). In a release build an
  index beyond it addresses memory outside the table; that undefined case is \<open>None\<close> as well.
\<close>

definition get_pfd :: "page_frame_table \<Rightarrow> u64 \<Rightarrow> nat option" where
  "get_pfd t pf_offset = do {
     ASSERT (pfd_idx pf_offset \<le> length (pft t));
     Some (pfd_idx pf_offset)
   }"

text \<open>\<open>get_pf_offset\<close> is the difference of two descriptor pointers, that is, the index.\<close>

definition get_pf_offset :: "nat \<Rightarrow> u64" where
  "get_pf_offset i = of_nat i"

text \<open>
  \<open>register_allocator\<close> clears the descriptors of the allocator's range. (Its third assertion, that
  the new allocator is not yet linked into a list, holds for an object under construction; a negative \<^verbatim>\<open>memset\<close> length is undefined.)
\<close>

definition register_allocator ::
  "page_frame_table \<Rightarrow> u64 \<Rightarrow> u64 \<Rightarrow> (bool \<times> page_frame_table) option" where
  "register_allocator t start end = do {
     ASSERT (aligned_pg start);
     ASSERT (aligned_pg end);
     if \<exists>(s, e) \<in> set (allocators t). range_overlaps start end s e False
     then Some (False, t)
     else do {
       start_pfd \<leftarrow> get_pfd t start;
       end_pfd \<leftarrow> get_pfd t end;
       ASSERT (start_pfd \<le> end_pfd);
       Some (True, t\<lparr>allocators := allocators t @ [(start, end)],
                     pft := upd_range (\<lambda>_. zero_pfd) start_pfd (end_pfd - start_pfd) (pft t)\<rparr>)
     }
   }"

definition unregister_allocator :: "page_frame_table \<Rightarrow> u64 \<Rightarrow> u64 \<Rightarrow> page_frame_table" where
  "unregister_allocator t start end = t\<lparr>allocators := remove1 (start, end) (allocators t)\<rparr>"

section \<open>Specification vocabulary\<close>

abbreviation espan :: "e820_mm_entry \<Rightarrow> nat set" where
  "espan e \<equiv> span (base e) (len e)"

abbreviation is_usable :: "e820_mm_entry \<Rightarrow> bool" where
  "is_usable e \<equiv> mm_type e = E820_MM_TYPE_USABLE"

abbreviation is_bootloader :: "e820_mm_entry \<Rightarrow> bool" where
  "is_bootloader e \<equiv> mm_type e = E820_MM_TYPE_BOOTLOADER"

text \<open>An entry leaves room for rounding its end up to a page.\<close>

definition wf_entry :: "e820_mm_entry \<Rightarrow> bool" where
  "wf_entry e \<longleftrightarrow> unat (base e) + unat (len e) + 4096 \<le> 2 ^ 64"

definition usable_disjoint :: "memory_map \<Rightarrow> bool" where
  "usable_disjoint mm \<longleftrightarrow>
     sorted_wrt (\<lambda>a b. is_usable a \<longrightarrow> is_usable b \<longrightarrow> espan a \<inter> espan b = {}) mm"

definition usable_bytes :: "memory_map \<Rightarrow> nat set" where
  "usable_bytes mm = (\<Union>e \<in> {e \<in> set mm. is_usable e}. espan e)"

definition bootloader_bytes :: "memory_map \<Rightarrow> nat set" where
  "bootloader_bytes mm = (\<Union>e \<in> {e \<in> set mm. is_bootloader e}. espan e)"

lemma wf_entry_no_wrap: "wf_entry e \<Longrightarrow> no_wrap (base e) (len e)"
  by (simp add: wf_entry_def no_wrap_def)

lemma usable_disjoint_nth:
  "usable_disjoint mm \<longleftrightarrow> (\<forall>i < length mm. \<forall>j < length mm. i \<noteq> j \<longrightarrow>
     is_usable (mm ! i) \<longrightarrow> is_usable (mm ! j) \<longrightarrow> espan (mm ! i) \<inter> espan (mm ! j) = {})"
  (is "_ \<longleftrightarrow> ?R")
proof
  assume d: "usable_disjoint mm"
  show ?R
  proof (intro allI impI)
    fix i j assume "i < length mm" "j < length mm" "i \<noteq> j" "is_usable (mm ! i)" "is_usable (mm ! j)"
    then show "espan (mm ! i) \<inter> espan (mm ! j) = {}"
      using d unfolding usable_disjoint_def sorted_wrt_iff_nth_less
      by (cases "i < j") (auto simp: Int_commute not_less le_eq_less_or_eq)
  qed
next
  assume ?R
  then show "usable_disjoint mm" by (simp add: usable_disjoint_def sorted_wrt_iff_nth_less)
qed

lemma usable_bytes_nth:
  "x \<in> usable_bytes mm \<longleftrightarrow> (\<exists>k < length mm. is_usable (mm ! k) \<and> x \<in> espan (mm ! k))"
  by (auto simp: usable_bytes_def in_set_conv_nth)

section \<open>Splitting\<close>

text \<open>
  \<open>split_into mm i j u b mm'\<close>: entry \<open>j\<close> becomes \<open>u\<close> and the bootloader entry \<open>i\<close> becomes \<open>b\<close>, the two
  halves of what is left of \<open>j\<close>.
\<close>

definition split_into ::
  "memory_map \<Rightarrow> nat \<Rightarrow> nat \<Rightarrow> e820_mm_entry \<Rightarrow> e820_mm_entry \<Rightarrow> memory_map \<Rightarrow> bool" where
  "split_into mm i j u b mm' \<longleftrightarrow>
     i \<noteq> j \<and> i < length mm \<and> j < length mm \<and> is_usable (mm ! j) \<and> is_usable u \<and> is_usable b \<and>
     wf_entry u \<and> wf_entry b \<and> mm' = mm[j := u, i := b] \<and>
     espan u \<union> espan b = espan (mm ! j) - espan (mm ! i) \<and> espan u \<inter> espan b = {} \<and>
     espan (mm ! i) \<subseteq> espan (mm ! j) \<and>
     (\<forall>lo hi. len (mm ! i) \<noteq> 0 \<longrightarrow> {lo..<hi} \<subseteq> espan (mm ! j) \<longrightarrow>
        {lo..<hi} \<inter> espan (mm ! i) = {} \<longrightarrow> {lo..<hi} \<subseteq> espan u \<or> {lo..<hi} \<subseteq> espan b)"

lemma interval_avoids:
  fixes a c d e lo hi :: nat
  assumes "{lo..<hi} \<subseteq> {a..<e}" and "{lo..<hi} \<inter> {c..<d} = {}" and "c < d"
  shows "{lo..<hi} \<subseteq> {a..<c} \<or> {lo..<hi} \<subseteq> {d..<e}"
proof (cases "lo < c")
  case True
  have "c \<notin> {lo..<hi}" using assms(2,3) by auto
  then show ?thesis using True assms(1) by auto
next
  case False
  have "lo \<notin> {lo..<hi} \<or> d \<le> lo" using False assms(2) by fastforce
  then show ?thesis using assms(1) by auto
qed

lemma split_entryE:
  assumes sp: "split_entry mm i j = Some mm'" and ij: "i \<noteq> j" "i < length mm" "j < length mm"
    and wf: "wf_entry (mm ! i)" "wf_entry (mm ! j)"
  obtains u b where "split_into mm i j u b mm'"
proof -
  let ?B = "mm ! i" and ?U = "mm ! j"
  define u where "u = ?U\<lparr>base := base ?U, len := base ?B - base ?U\<rparr>"
  define b where "b = ?B\<lparr>base := base ?B + len ?B, len := base ?U + len ?U - (base ?B + len ?B),
               mm_type := E820_MM_TYPE_USABLE\<rparr>"
  have nw: "no_wrap (base ?B) (len ?B)" "no_wrap (base ?U) (len ?U)"
    using wf wf_entry_no_wrap by auto
  have mm': "mm' = mm[j := u, i := b]" and us: "is_usable ?U"
    and sub: "range_subsumes2 (base ?U) (len ?U) (base ?B) (len ?B) True"
    using sp by (simp_all add: split_entry_def Let_def u_def b_def)
  have le: "unat (base ?U) \<le> unat (base ?B)"
    "unat (base ?B) + unat (len ?B) \<le> unat (base ?U) + unat (len ?U)"
    using sub nw
    by (auto simp: range_subsumes2_def range_subsumes_def word_le_nat_alt no_wrap_unat)
  have u1: "unat (base ?B - base ?U) = unat (base ?B) - unat (base ?U)"
    and u2: "unat (base ?B + len ?B) = unat (base ?B) + unat (len ?B)"
    and u3: "unat (base ?U + len ?U - (base ?B + len ?B)) =
      unat (base ?U) + unat (len ?U) - (unat (base ?B) + unat (len ?B))"
    using le nw by (simp_all add: unat_sub_no_wrap word_le_nat_alt no_wrap_unat)
  have su: "espan u = {unat (base ?U) ..< unat (base ?B)}"
    and sb: "espan b = {unat (base ?B) + unat (len ?B) ..< unat (base ?U) + unat (len ?U)}"
    using le by (simp_all add: u_def b_def span_def u1 u2 u3)
  have wfub: "wf_entry u" "wf_entry b"
    using wf le by (simp_all add: u_def b_def wf_entry_def u1 u2 u3)
  have "{lo..<hi} \<subseteq> espan u \<or> {lo..<hi} \<subseteq> espan b"
    if "len ?B \<noteq> 0" "{lo..<hi} \<subseteq> espan ?U" "{lo..<hi} \<inter> espan ?B = {}" for lo hi
    unfolding su sb
    by (rule interval_avoids) (use that in \<open>simp_all add: span_def unat_gt_0\<close>)
  moreover have "is_usable u" "is_usable b" using us by (simp_all add: u_def b_def)
  moreover have "espan u \<union> espan b = espan ?U - espan ?B" "espan u \<inter> espan b = {}"
    "espan ?B \<subseteq> espan ?U"
    using le unfolding su sb by (auto simp: span_def)
  ultimately show thesis
    using that mm' us ij wfub unfolding split_into_def by blast
qed

lemma split_intoD:
  assumes "split_into mm i j u b mm'"
  shows "i < length mm" "j < length mm" "i \<noteq> j" "is_usable (mm ! j)" "is_usable u" "is_usable b"
    "wf_entry u" "wf_entry b"
  using assms by (simp_all add: split_into_def)

lemma split_into_nth:
  "split_into mm i j u b mm' \<Longrightarrow> k < length mm \<Longrightarrow>
     mm' ! k = (if k = i then b else if k = j then u else mm ! k)"
  by (auto simp: split_into_def)

lemma split_into_length: "split_into mm i j u b mm' \<Longrightarrow> length mm' = length mm"
  by (simp add: split_into_def)

lemma split_into_wf:
  assumes "split_into mm i j u b mm'" and "\<forall>e \<in> set mm. wf_entry e"
  shows "\<forall>e \<in> set mm'. wf_entry e"
  using assms(2) split_intoD[OF assms(1)]
  by (simp add: all_set_conv_all_nth split_into_nth[OF assms(1)] split_into_length[OF assms(1)])

lemma split_into_disjoint:
  assumes sp: "split_into mm i j u b mm'" and dj: "usable_disjoint mm"
  shows "usable_disjoint mm'"
  unfolding usable_disjoint_nth split_into_length[OF sp]
proof (intro allI impI)
  fix k l assume kl: "k < length mm" "l < length mm" "k \<noteq> l" "is_usable (mm' ! k)" "is_usable (mm' ! l)"
  note nth = split_into_nth[OF sp]
  note ij = split_intoD[OF sp]
  have halves: "espan u \<subseteq> espan (mm ! j)" "espan b \<subseteq> espan (mm ! j)" "espan u \<inter> espan b = {}"
    using sp unfolding split_into_def by blast+
  have sub: "espan (mm' ! m) \<subseteq> espan (mm ! j)" if "m \<in> {i, j}" for m
    using that halves ij nth[of m] by auto
  have other: "espan (mm' ! m) \<inter> espan (mm ! j) = {} \<and> mm' ! m = mm ! m"
    if m: "m < length mm" "m \<notin> {i, j}" "is_usable (mm' ! m)" for m
  proof -
    have "mm' ! m = mm ! m" using m nth[of m] by simp
    then show ?thesis using dj m ij(2,4) unfolding usable_disjoint_nth by (metis insertI1 insertI2)
  qed
  consider "k \<in> {i, j}" "l \<in> {i, j}" | "k \<in> {i, j}" "l \<notin> {i, j}" | "k \<notin> {i, j}" "l \<in> {i, j}"
    | "k \<notin> {i, j}" "l \<notin> {i, j}" by blast
  then show "espan (mm' ! k) \<inter> espan (mm' ! l) = {}"
  proof cases
    case 1
    then show ?thesis using kl ij(3) halves(3) nth[of k] nth[of l] by (auto simp: Int_commute)
  next
    case 2 then show ?thesis using sub[of k] other[of l] kl by blast
  next
    case 3 then show ?thesis using sub[of l] other[of k] kl by blast
  next
    case 4
    then have "mm' ! k = mm ! k" "mm' ! l = mm ! l" using other kl by blast+
    with kl have "is_usable (mm ! k)" "is_usable (mm ! l)" by simp_all
    then show ?thesis
      using dj kl(1-3) \<open>mm' ! k = mm ! k\<close> \<open>mm' ! l = mm ! l\<close> unfolding usable_disjoint_nth by simp
  qed
qed

lemma split_into_usable_bytes:
  assumes sp: "split_into mm i j u b mm'" and dj: "usable_disjoint mm" and bi: "is_bootloader (mm ! i)"
  shows "usable_bytes mm' = usable_bytes mm - espan (mm ! i)" (is "?L = ?R")
proof (rule set_eqI)
  fix x
  have nb: "\<not> is_usable (mm ! i)" using bi by (simp add: e820_types)
  have ij: "i < length mm" "j < length mm" "i \<noteq> j" "is_usable (mm ! j)" "is_usable u" "is_usable b"
    and parts: "espan u \<union> espan b = espan (mm ! j) - espan (mm ! i)"
    and bsub: "espan (mm ! i) \<subseteq> espan (mm ! j)"
    using sp unfolding split_into_def by blast+
  have D: "espan (mm ! k) \<inter> espan (mm ! j) = {}"
    if "k < length mm" "k \<noteq> j" "is_usable (mm ! k)" for k
    using dj that ij unfolding usable_disjoint_nth by blast
  let ?rest = "\<exists>k < length mm. k \<noteq> i \<and> k \<noteq> j \<and> is_usable (mm ! k) \<and> x \<in> espan (mm ! k)"
  have "x \<in> ?L \<longleftrightarrow> x \<in> espan u \<union> espan b \<or> ?rest"
  proof
    assume "x \<in> ?L"
    then obtain k where "k < length mm" "is_usable (mm' ! k)" "x \<in> espan (mm' ! k)"
      unfolding usable_bytes_nth split_into_length[OF sp] by blast
    then show "x \<in> espan u \<union> espan b \<or> ?rest"
      using split_into_nth[OF sp, of k] by (auto split: if_splits)
  next
    assume "x \<in> espan u \<union> espan b \<or> ?rest"
    then show "x \<in> ?L"
      unfolding usable_bytes_nth split_into_length[OF sp]
      using ij split_into_nth[OF sp, of i] split_into_nth[OF sp, of j] split_into_nth[OF sp]
      by (elim disjE UnE exE conjE) (auto intro: exI[of _ i] exI[of _ j])
  qed
  also have "\<dots> \<longleftrightarrow> x \<in> ?R"
    unfolding parts Diff_iff usable_bytes_nth using ij nb bsub D by blast
  finally show "x \<in> ?L \<longleftrightarrow> x \<in> ?R" .
qed

lemma split_into_bootloader:
  assumes "split_into mm i j u b mm'" and "k < length mm" "k \<noteq> i"
  shows "is_bootloader (mm' ! k) \<longleftrightarrow> is_bootloader (mm ! k)"
    and "is_bootloader (mm ! k) \<Longrightarrow> mm' ! k = mm ! k"
  using assms(3) split_intoD[OF assms(1)]
  by (auto simp: split_into_nth[OF assms(1,2)] e820_types split: if_splits)

lemma split_into_interval:
  assumes sp: "split_into mm i j u b mm'" and bi: "is_bootloader (mm ! i)" and "len (mm ! i) \<noteq> 0"
    and e: "e \<in> set mm" "is_usable e" "{lo..<hi} \<subseteq> espan e" "{lo..<hi} \<inter> espan (mm ! i) = {}"
  shows "\<exists>e' \<in> set mm'. is_usable e' \<and> {lo..<hi} \<subseteq> espan e'"
proof -
  note nth = split_into_nth[OF sp] and len = split_into_length[OF sp]
  have ij: "i < length mm" "j < length mm" "i \<noteq> j" "is_usable u" "is_usable b"
    using split_intoD[OF sp] by blast+
  obtain k where k: "k < length mm" "e = mm ! k" using e(1) by (auto simp: in_set_conv_nth)
  have mem: "mm' ! m \<in> set mm'" if "m < length mm" for m using that len by simp
  have "u \<in> set mm'" "b \<in> set mm'" using mem[of i] mem[of j] ij nth by auto
  moreover have "{lo..<hi} \<subseteq> espan u \<or> {lo..<hi} \<subseteq> espan b" if "k = j"
    using sp that k e(3,4) assms(3) unfolding split_into_def by blast
  moreover have "mm' ! k = e" if "k \<noteq> j"
    using that nth[of k] k e(2) bi by (auto simp: e820_types)
  ultimately show ?thesis using ij e(2,3) mem[OF k(1)] by (cases "k = j") auto
qed

text \<open>The invariant of the splitting loops.\<close>

definition mm_inv :: "memory_map \<Rightarrow> bool" where
  "mm_inv mm \<longleftrightarrow> (\<forall>e \<in> set mm. wf_entry e) \<and> usable_disjoint mm"

lemma split_scanD:
  assumes "split_scan js i mm = Some mm'"
  shows "(mm' = mm \<and> (\<forall>j \<in> set js. j \<noteq> i \<longrightarrow>
            \<not> range_overlaps2 (base (mm ! i)) (len (mm ! i)) (base (mm ! j)) (len (mm ! j)) False)) \<or>
         (\<exists>j \<in> set js. j \<noteq> i \<and> split_entry mm i j = Some mm')"
  using assms by (induction js) (auto split: if_splits)

lemma no_overlap_disjoint:
  assumes "wf_entry a" "wf_entry b"
    and "\<not> range_overlaps2 (base a) (len a) (base b) (len b) False"
  shows "espan a \<inter> espan b = {}"
  using assms range_overlaps2_span[of "base a" "len a" "base b" "len b"]
  by (cases "len a = 0 \<or> len b = 0") (auto dest: wf_entry_no_wrap)

text \<open>One round of the outer loop, for a bootloader entry.\<close>

lemma split_scan_step:
  assumes sc: "split_scan [0..<length mm] i mm = Some mm'" and i: "i < length mm"
    and inv: "mm_inv mm" and bi: "is_bootloader (mm ! i)"
  shows "length mm' = length mm" "mm_inv mm'" "usable_bytes mm' = usable_bytes mm - espan (mm ! i)"
    "\<And>k. k < length mm \<Longrightarrow> k \<noteq> i \<Longrightarrow> is_bootloader (mm' ! k) \<longleftrightarrow> is_bootloader (mm ! k)"
    "\<And>k. k < length mm \<Longrightarrow> k \<noteq> i \<Longrightarrow> is_bootloader (mm ! k) \<Longrightarrow> mm' ! k = mm ! k"
    "\<And>e lo hi. \<lbrakk>len (mm ! i) \<noteq> 0; e \<in> set mm; is_usable e; {lo..<hi} \<subseteq> espan e;
        {lo..<hi} \<inter> espan (mm ! i) = {}\<rbrakk> \<Longrightarrow> \<exists>e' \<in> set mm'. is_usable e' \<and> {lo..<hi} \<subseteq> espan e'"
proof -
  have wf: "wf_entry (mm ! k)" if "k < length mm" for k using inv that by (simp add: mm_inv_def)
  consider (none) "mm' = mm" "\<forall>j < length mm. j \<noteq> i \<longrightarrow>
      \<not> range_overlaps2 (base (mm ! i)) (len (mm ! i)) (base (mm ! j)) (len (mm ! j)) False"
    | (split) j where "j < length mm" "j \<noteq> i" "split_entry mm i j = Some mm'"
    using split_scanD[OF sc] by fastforce
  then have "length mm' = length mm \<and> mm_inv mm' \<and>
    usable_bytes mm' = usable_bytes mm - espan (mm ! i) \<and>
    (\<forall>k < length mm. k \<noteq> i \<longrightarrow> is_bootloader (mm' ! k) = is_bootloader (mm ! k)) \<and>
    (\<forall>k < length mm. k \<noteq> i \<longrightarrow> is_bootloader (mm ! k) \<longrightarrow> mm' ! k = mm ! k) \<and>
    (\<forall>e lo hi. len (mm ! i) \<noteq> 0 \<longrightarrow> e \<in> set mm \<longrightarrow> is_usable e \<longrightarrow> {lo..<hi} \<subseteq> espan e \<longrightarrow>
      {lo..<hi} \<inter> espan (mm ! i) = {} \<longrightarrow> (\<exists>e' \<in> set mm'. is_usable e' \<and> {lo..<hi} \<subseteq> espan e'))"
  proof cases
    case none
    have "x \<notin> espan (mm ! i)" if x: "x \<in> usable_bytes mm" for x
    proof -
      obtain k where k: "k < length mm" "is_usable (mm ! k)" "x \<in> espan (mm ! k)"
        using x usable_bytes_nth by blast
      then have "k \<noteq> i" using bi by (auto simp: e820_types)
      then have "espan (mm ! i) \<inter> espan (mm ! k) = {}"
        using no_overlap_disjoint[OF wf wf] none(2) k(1) i by blast
      then show ?thesis using k(3) by blast
    qed
    then show ?thesis using none(1) inv by blast
  next
    case split
    obtain u b where sp: "split_into mm i j u b mm'"
      using split_entryE[OF split(3) split(2)[symmetric] i split(1) wf[OF i] wf[OF split(1)]] by blast
    then show ?thesis
      using inv bi split_into_length[OF sp] split_into_wf[OF sp] split_into_disjoint[OF sp]
        split_into_usable_bytes[OF sp] split_into_bootloader[OF sp] split_into_interval[OF sp]
      by (simp add: mm_inv_def)
  qed
  then show "length mm' = length mm" "mm_inv mm'"
    "usable_bytes mm' = usable_bytes mm - espan (mm ! i)"
    "\<And>k. k < length mm \<Longrightarrow> k \<noteq> i \<Longrightarrow> is_bootloader (mm' ! k) \<longleftrightarrow> is_bootloader (mm ! k)"
    "\<And>k. k < length mm \<Longrightarrow> k \<noteq> i \<Longrightarrow> is_bootloader (mm ! k) \<Longrightarrow> mm' ! k = mm ! k"
    "\<And>e lo hi. \<lbrakk>len (mm ! i) \<noteq> 0; e \<in> set mm; is_usable e; {lo..<hi} \<subseteq> espan e;
        {lo..<hi} \<inter> espan (mm ! i) = {}\<rbrakk> \<Longrightarrow> \<exists>e' \<in> set mm'. is_usable e' \<and> {lo..<hi} \<subseteq> espan e'"
    by blast+
qed

text \<open>The whole splitting phase removes exactly the bootloader bytes.\<close>

lemma split_bootloader_ConsE:
  assumes "split_bootloader (i # is) mm = Some mm'" and "set (i # is) \<subseteq> {..<length mm}"
    and "mm_inv mm"
  obtains (skip) "\<not> is_bootloader (mm ! i)" "split_bootloader is mm = Some mm'"
  | (split) m where "is_bootloader (mm ! i)" "i < length mm" "split_scan [0..<length mm] i mm = Some m"
      "split_bootloader is m = Some mm'" "set is \<subseteq> {..<length m}" "length m = length mm" "mm_inv m"
proof (cases "is_bootloader (mm ! i)")
  case True
  then obtain m where m: "split_scan [0..<length mm] i mm = Some m" "split_bootloader is m = Some mm'"
    using assms(1) by (auto split: bind_splits)
  have "i < length mm" using assms(2) by simp
  from split(1)[OF True this m] split_scan_step(1,2)[OF m(1) this assms(3) True] assms(2)
  show thesis by simp
qed (use assms(1) skip in simp)

lemma split_bootloader_inv:
  assumes "split_bootloader is mm = Some mm'" and "set is \<subseteq> {..<length mm}" and "mm_inv mm"
  shows "length mm' = length mm \<and> mm_inv mm'"
  using assms
proof (induction "is" arbitrary: mm)
  case (Cons i "is")
  from Cons.prems show ?case
  proof (cases rule: split_bootloader_ConsE)
    case skip
    then show ?thesis using Cons.IH[OF skip(2)] Cons.prems by simp
  next
    case (split m)
    then show ?thesis using Cons.IH[OF split(4,5,7)] by simp
  qed
qed simp

definition bootloader_at :: "nat list \<Rightarrow> memory_map \<Rightarrow> nat set" where
  "bootloader_at is mm = (\<Union>i \<in> set is. if is_bootloader (mm ! i) then espan (mm ! i) else {})"

lemma bootloader_at_upt: "bootloader_at [0..<length mm] mm = bootloader_bytes mm"
  by (force simp: bootloader_at_def bootloader_bytes_def in_set_conv_nth split: if_splits)

lemma bootloader_at_frame:
  assumes "split_scan [0..<length mm] i mm = Some m" "i < length mm" "mm_inv mm"
    "is_bootloader (mm ! i)" and "set is \<subseteq> {..<length mm}" "i \<notin> set is"
  shows "bootloader_at is m = bootloader_at is mm"
  unfolding bootloader_at_def
proof (rule SUP_cong)
  fix k assume "k \<in> set is"
  then have "k < length mm" "k \<noteq> i" using assms(5,6) by auto
  then show "(if is_bootloader (m ! k) then espan (m ! k) else {}) =
    (if is_bootloader (mm ! k) then espan (mm ! k) else {})"
    using split_scan_step(4,5)[OF assms(1-4), of k] by simp
qed simp

lemma split_bootloader_bytes:
  assumes "split_bootloader is mm = Some mm'" and "set is \<subseteq> {..<length mm}" and "mm_inv mm"
    and "distinct is"
  shows "usable_bytes mm' = usable_bytes mm - bootloader_at is mm"
  using assms
proof (induction "is" arbitrary: mm)
  case (Cons i "is")
  have i: "i \<notin> set is" "set is \<subseteq> {..<length mm}" "distinct is" using Cons.prems by auto
  from Cons.prems(1-3) show ?case
  proof (cases rule: split_bootloader_ConsE)
    case skip
    then show ?thesis using Cons.IH[OF skip(2)] Cons.prems i by (simp add: bootloader_at_def)
  next
    case (split m)
    have "bootloader_at (i # is) mm = espan (mm ! i) \<union> bootloader_at is mm"
      using split(1) by (simp add: bootloader_at_def)
    moreover have "usable_bytes mm' = usable_bytes mm - espan (mm ! i) - bootloader_at is mm"
      using Cons.IH[OF split(4,5,7) i(3)] split_scan_step(3)[OF split(3,2) Cons.prems(3) split(1)]
        bootloader_at_frame[OF split(3,2) Cons.prems(3) split(1) i(2,1)] by simp
    ultimately show ?thesis by auto
  qed
qed (simp add: bootloader_at_def)

lemma split_bootloader_interval:
  assumes "split_bootloader is mm = Some mm'" and "set is \<subseteq> {..<length mm}" and "mm_inv mm"
    and "distinct is"
    and "\<And>i. i \<in> set is \<Longrightarrow> is_bootloader (mm ! i) \<Longrightarrow> len (mm ! i) \<noteq> 0"
    and "{lo..<hi} \<inter> bootloader_at is mm = {}"
    and "\<exists>e \<in> set mm. is_usable e \<and> {lo..<hi} \<subseteq> espan e"
  shows "\<exists>e \<in> set mm'. is_usable e \<and> {lo..<hi} \<subseteq> espan e"
  using assms
proof (induction "is" arbitrary: mm)
  case (Cons i "is")
  have i: "i \<notin> set is" "set is \<subseteq> {..<length mm}" "distinct is" using Cons.prems by auto
  from Cons.prems(1-3) show ?case
  proof (cases rule: split_bootloader_ConsE)
    case skip
    show ?thesis
      by (rule Cons.IH[OF skip(2) i(2) Cons.prems(3) i(3)])
        (use Cons.prems(5-7) skip(1) in \<open>auto simp: bootloader_at_def\<close>)
  next
    case (split m)
    have "{lo..<hi} \<inter> espan (mm ! i) = {}" and B: "{lo..<hi} \<inter> bootloader_at is mm = {}"
      using Cons.prems(6) split(1) by (auto simp: bootloader_at_def)
    then have "\<exists>e \<in> set m. is_usable e \<and> {lo..<hi} \<subseteq> espan e"
      using split_scan_step(6)[OF split(3,2) Cons.prems(3) split(1)] Cons.prems(5)[of i] Cons.prems(7)
        split(1) by auto
    moreover have "len (m ! k) \<noteq> 0" if "k \<in> set is" "is_bootloader (m ! k)" for k
    proof -
      have "k < length mm" "k \<noteq> i" using that i by auto
      then show ?thesis
        using split_scan_step(4,5)[OF split(3,2) Cons.prems(3) split(1), of k] that Cons.prems(5)[of k]
        by simp
    qed
    moreover have "{lo..<hi} \<inter> bootloader_at is m = {}"
      using B bootloader_at_frame[OF split(3,2) Cons.prems(3) split(1) i(2,1)] by simp
    ultimately show ?thesis using Cons.IH[OF split(4,5,7) i(3)] by blast
  qed
qed simp

section \<open>Alignment and the result of normalize\_mm\<close>

locale std_sort =
  fixes srt :: "memory_map \<Rightarrow> memory_map"
  assumes mset_srt: "mset (srt mm) = mset mm"
    and sorted_srt: "sorted (map base (srt mm))"

interpretation stable_sort: std_sort "sort_key base"
  by unfold_locales simp_all

definition page_bytes :: "nat \<Rightarrow> nat set" where
  "page_bytes p = {p * 4096 ..< Suc p * 4096}"

lemma align_region_unat:
  assumes "wf_entry e"
  shows "unat (base (align_region e)) = (unat (base e) + 4095) div 4096 * 4096"
    "unat (len (align_region e)) =
       (unat (base e) + unat (len e)) div 4096 * 4096 - (unat (base e) + 4095) div 4096 * 4096"
proof -
  have b: "unat (ceil_pg (base e)) = (unat (base e) + 4095) div 4096 * 4096"
    using assms by (simp add: unat_ceil_pg wf_entry_def)
  have e: "unat (floor_pg (base e + len e)) = (unat (base e) + unat (len e)) div 4096 * 4096"
    using no_wrap_unat[OF wf_entry_no_wrap[OF assms]] by (simp add: unat_floor_pg)
  show "unat (base (align_region e)) = (unat (base e) + 4095) div 4096 * 4096"
    using b by (simp add: align_region_def Let_def)
  show "unat (len (align_region e)) =
       (unat (base e) + unat (len e)) div 4096 * 4096 - (unat (base e) + 4095) div 4096 * 4096"
    using b e by (auto simp: align_region_def Let_def word_less_nat_alt unat_sub_no_wrap word_le_nat_alt)
qed

text \<open>Aligning keeps exactly the pages that lie inside the region.\<close>

lemma align_region_props:
  assumes "wf_entry e"
  shows "4096 dvd unat (base (align_region e))" "4096 dvd unat (len (align_region e))"
    "espan (align_region e) \<subseteq> espan e" "wf_entry (align_region e) \<or> len (align_region e) = 0"
    "page_bytes p \<subseteq> espan e \<Longrightarrow> page_bytes p \<subseteq> espan (align_region e)"
    "mm_type (align_region e) = mm_type e"
proof -
  note u = align_region_unat[OF assms]
  show "4096 dvd unat (base (align_region e))" unfolding u by simp
  show "4096 dvd unat (len (align_region e))" unfolding u by (rule dvd_diff_nat) simp_all
  show "espan (align_region e) \<subseteq> espan e"
    unfolding span_def u by (auto simp: not_less)
  show "wf_entry (align_region e) \<or> len (align_region e) = 0"
    using assms u by (simp add: wf_entry_def unat_eq_0[symmetric]) linarith
  show "page_bytes p \<subseteq> espan (align_region e)" if "page_bytes p \<subseteq> espan e"
  proof -
    have "p * 4096 \<in> espan e" "p * 4096 + 4095 \<in> espan e"
      using that by (auto simp: page_bytes_def)
    then have "unat (base e) \<le> p * 4096" "p * 4096 + 4096 \<le> unat (base e) + unat (len e)"
      by (auto simp: span_def)
    then have "(unat (base e) + 4095) div 4096 \<le> p" "p + 1 \<le> (unat (base e) + unat (len e)) div 4096"
      by linarith+
    then show ?thesis unfolding page_bytes_def span_def u by auto
  qed
  show "mm_type (align_region e) = mm_type e" by (simp add: align_region_def Let_def)
qed

text \<open>What the two compaction passes leave at the front.\<close>

lemma normalize_mm_usable_of:
  assumes "normalize_mm srt mm = Some r"
  shows "\<exists>mm1. split_bootloader [0..<length mm] mm = Some mm1 \<and>
    usable_of r = filter (\<lambda>e. len e \<noteq> 0) (map align_region (filter is_usable (srt mm1)))"
proof -
  obtain mm1 where mm1: "split_bootloader [0..<length mm] mm = Some mm1"
    using assms by (auto simp: normalize_mm_def split: bind_splits)
  let ?mm2 = "srt mm1"
  obtain mm3 c where s1: "swap_to_front is_usable [0..<length ?mm2] 0 ?mm2 = (mm3, c)"
    by (cases "swap_to_front is_usable [0..<length ?mm2] 0 ?mm2") blast
  let ?um = "map align_region (take c mm3)"
  obtain rs d where s2: "swap_to_front (\<lambda>e. len e \<noteq> 0) [0..<length ?um] 0 ?um = (rs, d)"
    by (cases "swap_to_front (\<lambda>e. len e \<noteq> 0) [0..<length ?um] 0 ?um") blast
  have r: "r = (rs @ drop c mm3, d)"
    using assms mm1 s1 s2 by (auto simp: normalize_mm_def Let_def split: bind_splits)
  have "take c mm3 = filter is_usable ?mm2" by (rule swap_to_front_filter[OF s1])
  moreover have "take d rs = filter (\<lambda>e. len e \<noteq> 0) ?um" "d \<le> length rs"
    using swap_to_front_filter[OF s2] swap_to_front_length[OF s2] by simp_all
  ultimately show ?thesis using mm1 r by (auto simp: usable_of_def)
qed

context std_sort
begin

lemma set_srt [simp]: "set (srt mm) = set mm"
  using mset_srt mset_eq_setD by blast

lemma usable_disjoint_srt: "usable_disjoint mm \<Longrightarrow> usable_disjoint (srt mm)"
  unfolding usable_disjoint_def
  by (rule sorted_wrt_permute[OF _ mset_srt[symmetric]]) (auto simp: symp_def)

text \<open>The regions come out in ascending order, without overlap.\<close>

lemma aligned_regions_sorted:
  assumes "mm_inv mm"
  shows "sorted_wrt (\<lambda>a b. unat (base a) + unat (len a) \<le> unat (base b))
    (filter (\<lambda>e. len e \<noteq> 0) (map align_region (filter is_usable (srt mm))))"
proof -
  let ?L = "filter is_usable (srt mm)"
  let ?Q = "\<lambda>a b. base a \<le> base b \<and> (is_usable a \<longrightarrow> is_usable b \<longrightarrow> espan a \<inter> espan b = {})"
  have wf: "wf_entry e" if "e \<in> set mm" for e using assms that by (simp add: mm_inv_def)
  have "sorted_wrt (\<lambda>a b. base a \<le> base b) (srt mm)"
    using sorted_srt[of mm] by (simp add: sorted_wrt_map)
  moreover have "usable_disjoint (srt mm)"
    using assms usable_disjoint_srt by (simp add: mm_inv_def)
  ultimately have "sorted_wrt ?Q (srt mm)"
    by (simp add: usable_disjoint_def sorted_wrt_iff_nth_less)
  then have "sorted_wrt ?Q ?L" by (rule sorted_wrt_filter)
  then have "sorted_wrt (\<lambda>a b. len (align_region a) \<noteq> 0 \<longrightarrow> len (align_region b) \<noteq> 0 \<longrightarrow>
    unat (base (align_region a)) + unat (len (align_region a)) \<le> unat (base (align_region b))) ?L"
  proof (rule sorted_wrt_mono_rel[rotated])
    fix a b assume ab: "a \<in> set ?L" "b \<in> set ?L" "?Q a b"
    then have w: "wf_entry a" "wf_entry b" and us: "is_usable a" "is_usable b" using wf by auto
    have d: "espan a \<inter> espan b = {}" "unat (base a) \<le> unat (base b)"
      using ab(3) us by (auto simp: word_le_nat_alt)
    note ua = align_region_unat[OF w(1)] and ub = align_region_unat[OF w(2)]
    show "len (align_region a) \<noteq> 0 \<longrightarrow> len (align_region b) \<noteq> 0 \<longrightarrow>
      unat (base (align_region a)) + unat (len (align_region a)) \<le> unat (base (align_region b))"
    proof (intro impI)
      assume "len (align_region a) \<noteq> 0" "len (align_region b) \<noteq> 0"
      then have "0 < unat (len (align_region a))" "0 < unat (len (align_region b))"
        by (simp_all add: unat_gt_0)
      then have ne: "0 < unat (len b)"
        using align_region_props(3)[OF w(2)] by (cases "unat (len b)") (auto simp: span_def)
      have "unat (base a) + unat (len a) \<le> unat (base b)"
      proof (rule ccontr)
        assume "\<not> ?thesis"
        then have "unat (base b) \<in> espan a \<inter> espan b" using d(2) ne by (simp add: span_def)
        then show False using d(1) by simp
      qed
      then show "unat (base (align_region a)) + unat (len (align_region a)) \<le> unat (base (align_region b))"
        using \<open>0 < unat (len (align_region a))\<close> unfolding ua ub by linarith
    qed
  qed
  then have "sorted_wrt (\<lambda>a b. len a \<noteq> 0 \<longrightarrow> len b \<noteq> 0 \<longrightarrow>
    unat (base a) + unat (len a) \<le> unat (base b)) (map align_region ?L)"
    by (simp add: sorted_wrt_map)
  then have "sorted_wrt (\<lambda>a b. len a \<noteq> 0 \<longrightarrow> len b \<noteq> 0 \<longrightarrow> unat (base a) + unat (len a) \<le> unat (base b))
    (filter (\<lambda>e. len e \<noteq> 0) (map align_region ?L))" by (rule sorted_wrt_filter)
  then show ?thesis by (rule sorted_wrt_mono_rel[rotated]) auto
qed

lemma normalize_mm_regions:
  assumes n: "normalize_mm srt mm = Some r" and inv: "mm_inv mm"
  shows "sorted_wrt (\<lambda>a b. unat (base a) + unat (len a) \<le> unat (base b)) (usable_of r)"
    and "\<forall>e \<in> set (usable_of r). 4096 dvd unat (base e) \<and> 4096 dvd unat (len e) \<and> len e \<noteq> 0 \<and>
      wf_entry e \<and> espan e \<subseteq> usable_bytes mm - bootloader_bytes mm"
    and "\<lbrakk>\<forall>e \<in> set mm. is_bootloader e \<longrightarrow> len e \<noteq> 0; e \<in> set mm; is_usable e;
      page_bytes p \<subseteq> espan e; page_bytes p \<inter> bootloader_bytes mm = {}\<rbrakk> \<Longrightarrow>
      \<exists>e' \<in> set (usable_of r). page_bytes p \<subseteq> espan e'"
proof -
  obtain mm1 where sp: "split_bootloader [0..<length mm] mm = Some mm1"
    and u: "usable_of r = filter (\<lambda>e. len e \<noteq> 0) (map align_region (filter is_usable (srt mm1)))"
    using normalize_mm_usable_of[OF n] by blast
  have s: "set [0..<length mm] \<subseteq> {..<length mm}" by auto
  have inv1: "mm_inv mm1" using split_bootloader_inv[OF sp s inv] by blast
  have ub: "usable_bytes mm1 = usable_bytes mm - bootloader_bytes mm"
    using split_bootloader_bytes[OF sp s inv] by (simp add: bootloader_at_upt)
  have wf: "wf_entry e" if "e \<in> set mm1" for e using inv1 that by (simp add: mm_inv_def)
  show "sorted_wrt (\<lambda>a b. unat (base a) + unat (len a) \<le> unat (base b)) (usable_of r)"
    unfolding u by (rule aligned_regions_sorted[OF inv1])
  show "\<forall>e \<in> set (usable_of r). 4096 dvd unat (base e) \<and> 4096 dvd unat (len e) \<and> len e \<noteq> 0 \<and>
      wf_entry e \<and> espan e \<subseteq> usable_bytes mm - bootloader_bytes mm"
  proof
    fix e assume "e \<in> set (usable_of r)"
    then obtain f where f: "e = align_region f" "f \<in> set mm1" "is_usable f" "len e \<noteq> 0"
      unfolding u by auto
    have "espan f \<subseteq> usable_bytes mm1" using f by (auto simp: usable_bytes_def)
    then show "4096 dvd unat (base e) \<and> 4096 dvd unat (len e) \<and> len e \<noteq> 0 \<and>
      wf_entry e \<and> espan e \<subseteq> usable_bytes mm - bootloader_bytes mm"
      using align_region_props(1-4)[OF wf[OF f(2)]] f(1,4) ub by auto
  qed
  show "\<exists>e' \<in> set (usable_of r). page_bytes p \<subseteq> espan e'"
    if nz: "\<forall>e \<in> set mm. is_bootloader e \<longrightarrow> len e \<noteq> 0" and e: "e \<in> set mm" "is_usable e"
      "page_bytes p \<subseteq> espan e" "page_bytes p \<inter> bootloader_bytes mm = {}"
  proof -
    obtain f where f: "f \<in> set mm1" "is_usable f" "page_bytes p \<subseteq> espan f"
      using split_bootloader_interval[OF sp s inv _ _ _, of "p * 4096" "Suc p * 4096"] nz e
      unfolding page_bytes_def bootloader_at_upt by (auto simp: Bex_def)
    have "page_bytes p \<subseteq> espan (align_region f)"
      by (rule align_region_props(5)[OF wf[OF f(1)] f(3)])
    moreover have "page_bytes p \<noteq> {}" by (simp add: page_bytes_def)
    ultimately have "len (align_region f) \<noteq> 0" by auto
    then show ?thesis
      using f \<open>page_bytes p \<subseteq> espan (align_region f)\<close> unfolding u by auto
  qed
qed

end

section \<open>Placing the table\<close>

definition regions_ok :: "memory_map \<Rightarrow> bool" where
  "regions_ok rs \<longleftrightarrow> sorted_wrt (\<lambda>a b. unat (base a) + unat (len a) \<le> unat (base b)) rs \<and>
     (\<forall>e \<in> set rs. 4096 dvd unat (base e) \<and> 4096 dvd unat (len e) \<and> wf_entry e)"

definition region_bytes :: "memory_map \<Rightarrow> nat set" where
  "region_bytes rs = (\<Union>e \<in> set rs. espan e)"

lemma trim_first_fitE:
  assumes "trim_first_fit n rs = Some (pb, rs')"
  obtains as r bs where "rs = as @ r # bs" "n \<le> len r" "direct_to_hhdm (base r) = Some pb"
    "rs' = as @ r\<lparr>base := base r + n, len := len r - n\<rparr> # bs" "base r + n \<le> ucast hhdm_len"
  using assms
proof (induction rs arbitrary: rs' thesis)
  case (Cons x xs)
  show ?case
  proof (cases "len x \<ge> n")
    case True
    then show ?thesis using Cons.prems(2) by (intro Cons.prems(1)[of "[]" x xs]) (auto split: bind_splits)
  next
    case False
    then obtain ys where ys: "trim_first_fit n xs = Some (pb, ys)" "rs' = x # ys"
      using Cons.prems(2) by (auto split: bind_splits)
    show ?thesis
      by (rule Cons.IH[OF _ ys(1)], rule Cons.prems(1)[of "x # _"]) (use ys(2) in auto)
  qed
qed simp

text \<open>The trimmed range is usable memory and is not handed out as such any more.\<close>

lemma trim_first_fit_spec:
  assumes tr: "trim_first_fit n rs = Some (pb, rs')" and ok: "regions_ok rs" and n: "4096 dvd unat n"
  shows "regions_ok rs'" "length rs' = length rs"
    "\<exists>a. direct_to_hhdm a = Some pb \<and> span a n \<subseteq> region_bytes rs \<and>
         region_bytes rs' = region_bytes rs - span a n"
proof -
  obtain as r bs where d: "rs = as @ r # bs" "n \<le> len r" "direct_to_hhdm (base r) = Some pb"
    "rs' = as @ r\<lparr>base := base r + n, len := len r - n\<rparr> # bs"
    using trim_first_fitE[OF tr] by metis
  let ?r = "r\<lparr>base := base r + n, len := len r - n\<rparr>"
  have wr: "wf_entry r" "4096 dvd unat (base r)" "4096 dvd unat (len r)"
    using ok d(1) by (simp_all add: regions_ok_def)
  have le: "unat n \<le> unat (len r)" using d(2) by (simp add: word_le_nat_alt)
  have u: "unat (base r + n) = unat (base r) + unat n" "unat (len r - n) = unat (len r) - unat n"
    using wr(1) le d(2) by (simp_all add: unat_add_no_wrap unat_sub_no_wrap wf_entry_def)
  have r': "wf_entry ?r" "4096 dvd unat (base ?r)" "4096 dvd unat (len ?r)"
    using wr n le by (simp_all add: u wf_entry_def dvd_diff_nat)
  have srt: "sorted_wrt (\<lambda>a b. unat (base a) + unat (len a) \<le> unat (base b)) (as @ r # bs)"
    using ok d(1) by (simp add: regions_ok_def)
  then show "regions_ok rs'"
    using ok r' le unfolding regions_ok_def d(1,4)
    by (auto simp: sorted_wrt_append u intro: order_trans)
  show "length rs' = length rs" by (simp add: d(1,4))
  have parts: "espan ?r = espan r - span (base r) n" "span (base r) n \<subseteq> espan r"
    using le by (auto simp: span_def u)
  have "espan e \<inter> espan r = {}" if "e \<in> set as \<or> e \<in> set bs" for e
    using that srt unfolding sorted_wrt_append by (force simp: span_def)
  then have "region_bytes rs' = region_bytes rs - span (base r) n"
    using parts unfolding region_bytes_def d(1,4) by auto
  moreover have "span (base r) n \<subseteq> region_bytes rs"
    using parts(2) by (auto simp: region_bytes_def d(1))
  ultimately show "\<exists>a. direct_to_hhdm a = Some pb \<and> span a n \<subseteq> region_bytes rs \<and>
         region_bytes rs' = region_bytes rs - span a n"
    using d(3) by blast
qed

lemma mem_limit_bound:
  assumes "regions_ok rs" and "mem_limit rs = Some lim" and "x \<in> region_bytes rs"
  shows "x < unat lim"
proof -
  obtain e where e: "e \<in> set rs" "x \<in> espan e" using assms(3) by (auto simp: region_bytes_def)
  have ne: "rs \<noteq> []" and lim: "lim = region_end (last rs)"
    using assms(2) by (auto simp: mem_limit_def split: if_splits)
  have ul: "unat lim = unat (base (last rs)) + unat (len (last rs))"
    using assms(1) ne lim no_wrap_unat[OF wf_entry_no_wrap, of "last rs"]
    by (simp add: regions_ok_def region_end_def)
  have "rs = butlast rs @ [last rs]" using ne by simp
  moreover have "e \<in> set (butlast rs) \<or> e = last rs" using e(1) ne
    by (metis append_butlast_last_id in_set_conv_decomp set_ConsD rotate1.simps(2) set_rotate1)
  moreover have "sorted_wrt (\<lambda>a b. unat (base a) + unat (len a) \<le> unat (base b)) (butlast rs @ [last rs])"
    using assms(1) ne by (simp add: regions_ok_def)
  ultimately show ?thesis
    using e(2) unfolding ul sorted_wrt_append by (fastforce simp: span_def)
qed

lemma pfd_idx_div: "unat x < 2 ^ 44 \<Longrightarrow> pfd_idx x = unat x div 4096"
  by (simp add: pfd_idx_def unat_drop_bit_div memdefs less_mult_imp_div_less)

lemma alloc_pft_spec:
  assumes al: "alloc_pft rs = Some (pb, n, rs')" and ok: "regions_ok rs"
    and lim: "mem_limit rs = Some lim" "unat lim \<le> 2 ^ 37"
  shows "n = unat lim div 4096" "regions_ok rs'" "length rs' = length rs"
    "\<exists>a. direct_to_hhdm a = Some pb \<and> {unat a ..< unat a + 64 * n} \<subseteq> region_bytes rs - region_bytes rs'"
    "region_bytes rs' \<subseteq> region_bytes rs" "\<forall>x \<in> region_bytes rs'. x div 4096 < n"
proof -
  let ?pl = "ucast (drop_bit PG_SZ_BITS lim) :: size_t"
  let ?pad = "ucast (ceil_pg (ucast (?pl * 64))) :: size_t"
  have tr: "trim_first_fit (ucast ?pad) rs = Some (pb, rs')" and n: "n = unat ?pl"
    and alg: "aligned_pg lim"
    using al lim(1) by (auto simp: alloc_pft_def Let_def split: bind_splits)
  have pl: "unat ?pl = unat lim div 4096"
    using pfd_idx_div[of lim] lim(2) by (simp add: pfd_idx_def)
  have "unat lim div 4096 \<le> 2 ^ 25" using lim(2) by (simp add: div_le_mono[of _ "2 ^ 37" 4096, simplified])
  then have l: "unat (?pl * 64) = 64 * (unat lim div 4096)"
    by (subst unat_mult_lem[THEN iffD1]) (simp_all add: pl del: unat_ucast_64_32)
  have pad: "unat (ucast ?pad :: u64) = (64 * (unat lim div 4096) + 4095) div 4096 * 4096"
    using \<open>unat lim div 4096 \<le> 2 ^ 25\<close> by (simp add: unat_ceil_pg l)
  show nn: "n = unat lim div 4096" using n pl by simp
  have dvd: "4096 dvd unat (ucast ?pad :: u64)" unfolding pad by simp
  note sp = trim_first_fit_spec[OF tr ok dvd]
  show "regions_ok rs'" "length rs' = length rs" by (rule sp)+
  obtain a where a: "direct_to_hhdm a = Some pb" "span a (ucast ?pad :: u64) \<subseteq> region_bytes rs"
    "region_bytes rs' = region_bytes rs - span a (ucast ?pad)" using sp(3) by blast
  have "{unat a ..< unat a + 64 * n} \<subseteq> span a (ucast ?pad :: u64)"
    unfolding span_def pad nn by (auto intro: less_le_trans)
  then show "\<exists>a. direct_to_hhdm a = Some pb \<and>
      {unat a ..< unat a + 64 * n} \<subseteq> region_bytes rs - region_bytes rs'"
    using a by blast
  show sub: "region_bytes rs' \<subseteq> region_bytes rs" using a(3) by blast
  have "4096 dvd unat lim" using alg by (simp add: aligned_pg_iff)
  then show "\<forall>x \<in> region_bytes rs'. x div 4096 < n"
    using mem_limit_bound[OF ok lim(1)] sub nn by (auto simp: less_mult_imp_div_less)
qed

lemma regions_ok_normalize:
  assumes "std_sort srt" and "normalize_mm srt mm = Some r" and "mm_inv mm"
  shows "regions_ok (usable_of r)" "region_bytes (usable_of r) \<subseteq> usable_bytes mm - bootloader_bytes mm"
  using std_sort.normalize_mm_regions(1,2)[OF assms]
  by (auto simp: regions_ok_def region_bytes_def)

lemma swap_region_take:
  assumes "normalize_mm srt mm = Some (mm', cnt)"
  shows "cnt \<le> length mm'"
proof -
  obtain mm3 c rs where s: "swap_to_front (\<lambda>e. len e \<noteq> 0) [0..<length (map align_region (take c mm3))] 0
      (map align_region (take c mm3)) = (rs, cnt)"
    and mm': "mm' = rs @ drop c mm3"
    using assms by (auto simp: normalize_mm_def Let_def split: bind_splits prod.splits)
  show ?thesis using swap_to_front_length[OF s] by (auto simp: mm')
qed

section \<open>Registering allocators\<close>

definition allocators_disjoint :: "page_frame_table \<Rightarrow> bool" where
  "allocators_disjoint t \<longleftrightarrow>
     sorted_wrt (\<lambda>(s, e) (s', e'). \<not> range_overlaps s e s' e' False) (allocators t)"

lemma range_overlaps_commute: "range_overlaps a b c d i \<longleftrightarrow> range_overlaps c d a b i"
  by (auto simp: range_overlaps_def)

section \<open>A concrete memory map\<close>

definition demo_mm :: memory_map where
  "demo_mm =
    [\<lparr>base = 0, len = 0x1F800, mm_type = 1, acpi_extended_attrs = 0\<rparr>,
     \<lparr>base = 0x24000, len = 0x4000, mm_type = 1, acpi_extended_attrs = 0\<rparr>,
     \<lparr>base = 0x6000, len = 0x2000, mm_type = 6, acpi_extended_attrs = 0\<rparr>,
     \<lparr>base = 0x20000, len = 0x4000, mm_type = 2, acpi_extended_attrs = 0\<rparr>]"

definition demo_normal :: memory_map where
  "demo_normal =
    [\<lparr>base = 0, len = 0x6000, mm_type = 1, acpi_extended_attrs = 0\<rparr>,
     \<lparr>base = 0x8000, len = 0x17000, mm_type = 1, acpi_extended_attrs = 0\<rparr>,
     \<lparr>base = 0x24000, len = 0x4000, mm_type = 1, acpi_extended_attrs = 0\<rparr>]"

definition demo_regions :: memory_map where
  "demo_regions =
    [\<lparr>base = 0x1000, len = 0x5000, mm_type = 1, acpi_extended_attrs = 0\<rparr>,
     \<lparr>base = 0x8000, len = 0x17000, mm_type = 1, acpi_extended_attrs = 0\<rparr>,
     \<lparr>base = 0x24000, len = 0x4000, mm_type = 1, acpi_extended_attrs = 0\<rparr>]"

definition demo_pft :: page_frame_table where
  "demo_pft = the (PageFrameTable (sort_key base) (\<lambda>_. zero_pfd) demo_mm None)"

lemma demo_normalize_usable:
  "map_option usable_of (normalize_mm (sort_key base) demo_mm) = Some demo_normal"
  by code_simp

lemma demo_normalize:
  obtains r where "normalize_mm (sort_key base) demo_mm = Some r" "usable_of r = demo_normal"
  using demo_normalize_usable by auto

lemma demo_wf: "\<forall>e \<in> set demo_mm. wf_entry e"
  by (simp add: demo_mm_def wf_entry_def)

lemma demo_disjoint: "usable_disjoint demo_mm"
  by (simp add: demo_mm_def usable_disjoint_def e820_types span_def)

lemma demo_table_values:
  "PageFrameTable (sort_key base) (\<lambda>_. zero_pfd) demo_mm None \<noteq> None \<and>
   usable_regions demo_pft = demo_regions \<and> pft demo_pft = replicate 40 zero_pfd \<and>
   pft_base demo_pft = 0xC0000000 \<and> allocators demo_pft = []"
  by code_simp

lemma demo_table: "PageFrameTable (sort_key base) (\<lambda>_. zero_pfd) demo_mm None = Some demo_pft"
  using demo_table_values by (auto simp: demo_pft_def)

section \<open>Properties\<close>

text \<open>
  C13. The usable regions that \<open>normalize_mm\<close> returns are in ascending order without overlap, page
  aligned and nonempty, and hold only bytes of usable entries outside every bootloader entry: the
  kernel never hands out the boot stack, the page tables or its own text. This holds for any sorting
  function that returns a sorted permutation, on a map whose usable entries are pairwise disjoint.
\<close>

theorem normalize_mm_sound:
  assumes "std_sort srt" and "normalize_mm srt mm = Some r"
    and "\<forall>e \<in> set mm. wf_entry e" and "usable_disjoint mm"
  shows "sorted_wrt (\<lambda>a b. unat (base a) + unat (len a) \<le> unat (base b)) (usable_of r) \<and>
    (\<forall>e \<in> set (usable_of r). 4096 dvd unat (base e) \<and> 4096 dvd unat (len e) \<and> len e \<noteq> 0 \<and>
       espan e \<subseteq> usable_bytes mm - bootloader_bytes mm)"
  using std_sort.normalize_mm_regions(1,2)[OF assms(1,2)] assms(3,4) by (simp add: mm_inv_def)

theorem normalize_mm_sound_witness:
  "\<exists>r. normalize_mm (sort_key base) demo_mm = Some r \<and> usable_of r = demo_normal \<and>
     list_all (\<lambda>e. espan e \<subseteq> usable_bytes demo_mm - bootloader_bytes demo_mm) demo_normal"
proof -
  obtain r where r: "normalize_mm (sort_key base) demo_mm = Some r" "usable_of r = demo_normal"
    by (rule demo_normalize)
  show ?thesis
    using normalize_mm_sound[OF stable_sort.std_sort_axioms r(1) demo_wf demo_disjoint] r
    by (auto simp: list_all_iff)
qed

text \<open>
  C17. \<open>normalize_mm\<close> loses no page: a page inside one usable entry that meets no bootloader entry
  lies in one of the returned regions.
\<close>

theorem normalize_mm_complete:
  assumes "std_sort srt" and "normalize_mm srt mm = Some r"
    and "\<forall>e \<in> set mm. wf_entry e" and "usable_disjoint mm"
    and "\<forall>e \<in> set mm. is_bootloader e \<longrightarrow> len e \<noteq> 0"
    and "e \<in> set mm" "is_usable e" "page_bytes p \<subseteq> espan e" "page_bytes p \<inter> bootloader_bytes mm = {}"
  shows "\<exists>region \<in> set (usable_of r). page_bytes p \<subseteq> espan region"
  using std_sort.normalize_mm_regions(3)[OF assms(1,2) _ assms(5-9)] assms(3,4) by (simp add: mm_inv_def)

theorem normalize_mm_complete_witness:
  "\<exists>r region. normalize_mm (sort_key base) demo_mm = Some r \<and> region \<in> set (usable_of r) \<and>
     page_bytes 8 \<subseteq> espan region"
proof -
  obtain r where r: "normalize_mm (sort_key base) demo_mm = Some r" "usable_of r = demo_normal"
    by (rule demo_normalize)
  have "\<exists>region \<in> set (usable_of r). page_bytes 8 \<subseteq> espan region"
    by (rule normalize_mm_complete[OF stable_sort.std_sort_axioms r(1) demo_wf demo_disjoint,
          of "demo_mm ! 0"])
      (auto simp: demo_mm_def e820_types page_bytes_def span_def bootloader_bytes_def)
  then show ?thesis using r(1) by blast
qed

text \<open>
  C18. The constructor places the table inside usable memory: the bytes of the descriptors at
  \<open>pft_base\<close>, 64 for each, were usable, belong to no bootloader entry and are in no usable region
  any more. The usable regions stay sorted, aligned and free of bootloader bytes; every byte of a usable
  region has a descriptor in the table. Physical memory ends at most at 128 GiB.
\<close>

theorem PageFrameTable_placed:
  assumes "std_sort srt" and "normalize_mm srt mm = Some r" "mem_limit (usable_of r) = Some lim"
    and "PageFrameTable srt ram mm None = Some t"
    and "\<forall>e \<in> set mm. wf_entry e" and "usable_disjoint mm" and "unat lim \<le> 2 ^ 37"
  shows "regions_ok (usable_regions t) \<and>
    (\<exists>a. direct_to_hhdm a = Some (pft_base t) \<and>
       {unat a ..< unat a + 64 * length (pft t)} \<subseteq>
         (usable_bytes mm - bootloader_bytes mm) - region_bytes (usable_regions t)) \<and>
    region_bytes (usable_regions t) \<subseteq> usable_bytes mm - bootloader_bytes mm \<and>
    (\<forall>x \<in> region_bytes (usable_regions t). x div 4096 < length (pft t))"
proof -
  obtain mm' cnt where r: "r = (mm', cnt)" by (cases r)
  have u: "usable_of r = take cnt mm'" by (simp add: usable_of_def r)
  have cnt: "cnt \<le> length mm'" using swap_region_take assms(2) r by blast
  obtain pb n rs where al: "alloc_pft (take cnt mm') = Some (pb, n, rs)"
    and t: "pft_mm t = rs @ drop cnt mm'" "usable_region_count t = cnt" "pft_base t = pb" "length (pft t) = n"
    using assms(2,4) r by (auto simp: PageFrameTable_def Let_def split: bind_splits)
  have inv: "mm_inv mm" using assms(5,6) by (simp add: mm_inv_def)
  note ok = regions_ok_normalize[OF assms(1,2) inv, unfolded u]
  note sp = alloc_pft_spec[OF al ok(1) assms(3)[unfolded u] assms(7)]
  have "usable_regions t = rs" using sp(3) cnt by (simp add: usable_regions_def t)
  then show ?thesis using sp(2,4-6) ok(2) t(3,4) by blast
qed

theorem PageFrameTable_placed_witness:
  "pft_base demo_pft = 0xC0000000 \<and> usable_regions demo_pft = demo_regions \<and>
   (\<exists>a. direct_to_hhdm a = Some (pft_base demo_pft) \<and>
      {unat a ..< unat a + 64 * 40} \<subseteq> usable_bytes demo_mm - region_bytes demo_regions) \<and>
   region_bytes demo_regions \<subseteq> usable_bytes demo_mm - bootloader_bytes demo_mm"
proof -
  obtain r where r: "normalize_mm (sort_key base) demo_mm = Some r" "usable_of r = demo_normal"
    by (rule demo_normalize)
  have lim: "mem_limit (usable_of r) = Some 0x28000"
    by (simp add: r(2) demo_normal_def mem_limit_def region_end_def)
  have v: "pft_base demo_pft = 0xC0000000" "usable_regions demo_pft = demo_regions"
    "length (pft demo_pft) = 40"
    using demo_table_values by simp_all
  show ?thesis
    using PageFrameTable_placed[OF stable_sort.std_sort_axioms r(1) lim demo_table demo_wf demo_disjoint]
    by (auto simp: v)
qed

text \<open>
  C19. Registering an allocator succeeds only if its range meets no registered one, so the ranges of
  the registered allocators stay disjoint; it clears exactly the descriptors of its range.
\<close>

theorem register_allocator_spec:
  assumes "register_allocator t start end = Some (ok, t')" and "allocators_disjoint t"
  shows "allocators_disjoint t' \<and>
    (ok \<longleftrightarrow> (\<forall>(s, e) \<in> set (allocators t). \<not> range_overlaps start end s e False)) \<and>
    (\<not> ok \<longrightarrow> t' = t) \<and>
    (ok \<longrightarrow> allocators t' = allocators t @ [(start, end)] \<and> length (pft t') = length (pft t) \<and>
       (\<forall>i < length (pft t). pft t' ! i =
          (if pfd_idx start \<le> i \<and> i < pfd_idx end then zero_pfd else pft t ! i)))"
proof (cases "\<exists>(s, e) \<in> set (allocators t). range_overlaps start end s e False")
  case True
  then show ?thesis using assms by (auto simp: register_allocator_def)
next
  case False
  have le: "pfd_idx start \<le> pfd_idx end" and ok: "ok"
    and t': "t' = t\<lparr>allocators := allocators t @ [(start, end)],
      pft := upd_range (\<lambda>_. zero_pfd) (pfd_idx start) (pfd_idx end - pfd_idx start) (pft t)\<rparr>"
    using assms(1) False by (auto simp: register_allocator_def get_pfd_def split: if_splits)
  have "allocators_disjoint t'"
    using assms(2) False
    by (auto simp: t' allocators_disjoint_def sorted_wrt_append range_overlaps_commute[of start])
  then show ?thesis using False ok le by (auto simp: t' nth_upd_range)
qed

theorem register_allocator_spec_witness:
  "\<exists>t'. register_allocator demo_pft 0 0x28000 = Some (True, t') \<and> allocators_disjoint t' \<and>
     pft t' ! 3 = zero_pfd"
proof -
  have d: "allocators_disjoint demo_pft" using demo_table_values by (simp add: allocators_disjoint_def)
  have idx: "pfd_idx 0 = 0" "pfd_idx 0x28000 = 40" by (simp_all add: pfd_idx_div)
  have "\<exists>t'. register_allocator demo_pft 0 0x28000 = Some (True, t')"
    using demo_table_values idx by (simp add: register_allocator_def get_pfd_def aligned_pg_iff)
  then obtain t' where t': "register_allocator demo_pft 0 0x28000 = Some (True, t')" by blast
  then show ?thesis
    using register_allocator_spec[OF t' d] demo_table_values idx by auto
qed

end
