(* ===== verification/Page_Frame_Allocator.thy ===== *)
theory Page_Frame_Allocator
  imports Page_Frame_Table
begin

text \<open>
  The page frame allocators of \<^verbatim>\<open>src/src/kernel/mm/page_frame_allocator.h\<close> and \<^verbatim>\<open>.cc\<close>: the base
  class constructor, and \<open>SimplePFA\<close>, the round-robin first-fit allocator that keeps its state in the
  page frame table.

  Descriptor pointers are indices into the table. A descriptor is 64 bytes and the table lies in the
  one-gigabyte direct map, so the pointer sums and the 32-bit counter \<^verbatim>\<open>steps\<close> of the code do not
  wrap around; they are natural numbers here. Reading or writing outside the table is undefined in
  the code and \<open>None\<close> in the model.
\<close>

section \<open>State\<close>

record simple_pfa =
  pfa_start :: u64
  pfa_end :: u64
  startp :: nat
  endp :: nat
  total_pgs :: u32
  needle :: nat
  alloced_pgs :: u32

definition get_total_pages :: "simple_pfa \<Rightarrow> u32" where "get_total_pages a = total_pgs a"

definition get_alloced_pages :: "simple_pfa \<Rightarrow> u32" where "get_alloced_pages a = alloced_pgs a"

definition get_free_pages :: "simple_pfa \<Rightarrow> u32" where
  "get_free_pages a = get_total_pages a - get_alloced_pages a"

definition get_paddr :: "nat \<Rightarrow> u64" where
  "get_paddr i = get_pf_offset i * ucast PG_SZ"

section \<open>Construction\<close>

text \<open>The loop that computes \<^verbatim>\<open>total_pgs\<close>, an \<^verbatim>\<open>unsigned\<close> that holds bytes until it is shifted.\<close>

fun sum_overlaps :: "u64 \<Rightarrow> u64 \<Rightarrow> memory_map \<Rightarrow> u32 \<Rightarrow> u32" where
  "sum_overlaps start end [] tot = tot"
| "sum_overlaps start end (region # rs) tot =
     (let overlap_start = max (base region) start;
          overlap_end = min (base region + len region) end
      in sum_overlaps start end rs
           (if overlap_end > overlap_start then ucast (ucast tot + (overlap_end - overlap_start))
            else tot))"

definition PageFrameAllocator ::
  "page_frame_table \<Rightarrow> u64 \<Rightarrow> u64 \<Rightarrow> (simple_pfa \<times> page_frame_table) option" where
  "PageFrameAllocator t start end = do {
     ASSERT (start < end);
     (ok, t') \<leftarrow> register_allocator t start end;
     ASSERT ok;
     sp \<leftarrow> get_pfd t' start;
     ep \<leftarrow> get_pfd t' end;
     let tot = drop_bit PG_SZ_BITS (sum_overlaps start end (usable_regions t') 0);
     Some (\<lparr>pfa_start = start, pfa_end = end, startp = sp, endp = ep, total_pgs = tot,
            needle = sp, alloced_pgs = 0\<rparr>, t')
   }"

definition PageFrameAllocator_destroy :: "page_frame_table \<Rightarrow> simple_pfa \<Rightarrow> page_frame_table" where
  "PageFrameAllocator_destroy t a = unregister_allocator t (pfa_start a) (pfa_end a)"

definition set_unusable :: "nat \<Rightarrow> pfd list \<Rightarrow> pfd list option" where
  "set_unusable i p = do {
     ASSERT (i < length p);
     Some (p[i := (p ! i)\<lparr>unusable := True\<rparr>])
   }"

text \<open>The inner \<^verbatim>\<open>while\<close> loop of the \<open>SimplePFA\<close> constructor.\<close>

partial_function (option) mark_until ::
  "u64 \<Rightarrow> u64 \<Rightarrow> u64 \<Rightarrow> pfd list \<Rightarrow> (u64 \<times> pfd list) option" where
  "mark_until region_base end unusable_pg_it p =
     (if unusable_pg_it < region_base \<and> unusable_pg_it < end then do {
        p' \<leftarrow> set_unusable (pfd_idx unusable_pg_it) p;
        mark_until region_base end (unusable_pg_it + ucast PG_SZ) p'
      }
      else Some (unusable_pg_it, p))"

fun mark_regions :: "memory_map \<Rightarrow> u64 \<Rightarrow> u64 \<Rightarrow> u64 \<Rightarrow> pfd list \<Rightarrow> pfd list option" where
  "mark_regions [] start end unusable_pg_it p = Some p"
| "mark_regions (region # rs) start end unusable_pg_it p =
     (if base region < start then mark_regions rs start end unusable_pg_it p
      else do {
        (it, p') \<leftarrow> mark_until (base region) end unusable_pg_it p;
        if it \<ge> end then Some p' else mark_regions rs start end (it + len region) p'
      })"

definition SimplePFA ::
  "page_frame_table \<Rightarrow> u64 \<Rightarrow> u64 \<Rightarrow> (simple_pfa \<times> page_frame_table) option" where
  "SimplePFA t start end = do {
     (a, t') \<leftarrow> PageFrameAllocator t start end;
     p \<leftarrow> mark_regions (usable_regions t') start end start (pft t');
     Some (a, t'\<lparr>pft := p\<rparr>)
   }"

section \<open>Allocation\<close>

fun first_unusable :: "pfd list \<Rightarrow> nat \<Rightarrow> nat \<Rightarrow> nat option" where
  "first_unusable p it 0 = None"
| "first_unusable p it (Suc n) = (if \<not> usable (p ! it) then Some it else first_unusable p (Suc it) n)"

text \<open>The lambda \<^verbatim>\<open>try_alloc\<close>: whether it succeeded, and the new \<open>needle\<close> and \<open>steps\<close>.\<close>

definition try_alloc :: "pfd list \<Rightarrow> nat \<Rightarrow> nat \<Rightarrow> nat \<Rightarrow> nat \<Rightarrow> nat \<Rightarrow> bool \<times> nat \<times> nat" where
  "try_alloc p sp ep num_pg nd steps =
     (if nd + num_pg > ep then (False, sp, steps + (ep - nd))
      else case first_unusable p nd num_pg of
             Some it \<Rightarrow> (False, it, steps + (it - nd))
           | None \<Rightarrow> (True, nd, steps))"

function skip_unusable :: "pfd list \<Rightarrow> nat \<Rightarrow> nat \<Rightarrow> nat \<Rightarrow> nat \<Rightarrow> nat \<Rightarrow> nat \<times> nat" where
  "skip_unusable p sp ep ln nd steps =
     (if \<not> usable (p ! nd) then
        if Suc steps < ln then
          skip_unusable p sp ep ln (if Suc nd \<ge> ep then sp else Suc nd) (Suc steps)
        else (nd, Suc steps)
      else (nd, steps))"
  by pat_completeness auto
termination by (relation "measure (\<lambda>(p, sp, ep, ln, nd, steps). ln - steps)") auto

partial_function (option) alloc_loop ::
  "pfd list \<Rightarrow> nat \<Rightarrow> nat \<Rightarrow> nat \<Rightarrow> nat \<Rightarrow> nat \<Rightarrow> nat \<Rightarrow> (nat \<times> nat) option" where
  "alloc_loop p sp ep num_pg ln nd steps =
     (case try_alloc p sp ep num_pg nd steps of
        (ok, nd', steps') \<Rightarrow>
          if \<not> ok \<and> steps' < ln then
            (case skip_unusable p sp ep ln nd' steps' of
               (nd'', steps'') \<Rightarrow> alloc_loop p sp ep num_pg ln nd'' steps'')
          else Some (nd', steps'))"

text \<open>\<open>None\<close> as the first component of the result is the empty \<^verbatim>\<open>std::optional\<close> (out of memory).\<close>

definition alloc :: "simple_pfa \<Rightarrow> pfd list \<Rightarrow> u32 \<Rightarrow> (u64 option \<times> simple_pfa \<times> pfd list) option" where
  "alloc a p num_pg =
     (let ln = unat ((pfa_end a - pfa_start a) div ucast PG_SZ)
      in if unat num_pg > ln then Some (None, a, p)
         else do {
           (nd, steps) \<leftarrow> alloc_loop p (startp a) (endp a) (unat num_pg) ln (needle a) 0;
           if steps \<ge> ln then Some (None, a\<lparr>needle := nd\<rparr>, p)
           else Some (Some (push_bit PG_SZ_BITS (get_pf_offset nd)),
                      a\<lparr>needle := nd, alloced_pgs := alloced_pgs a + num_pg\<rparr>,
                      upd_range (\<lambda>d. d\<lparr>allocated := True\<rparr>) nd (unat num_pg) p)
         })"

fun free_loop :: "pfd list \<Rightarrow> nat \<Rightarrow> nat \<Rightarrow> pfd list option" where
  "free_loop p it 0 = Some p"
| "free_loop p it (Suc n) = do {
     ASSERT (it < length p);
     ASSERT (allocated (p ! it));
     free_loop (p[it := (p ! it)\<lparr>allocated := False\<rparr>]) (Suc it) n
   }"

definition free_pgs :: "simple_pfa \<Rightarrow> pfd list \<Rightarrow> u64 \<Rightarrow> u64 \<Rightarrow> (simple_pfa \<times> pfd list) option" where
  "free_pgs a p base_off num_pg = do {
     ASSERT (aligned_pg base_off);
     ASSERT (base_off \<ge> pfa_start a \<and> base_off + num_pg \<le> pfa_end a);
     p' \<leftarrow> free_loop p (pfd_idx base_off) (unat num_pg);
     Some (a\<lparr>alloced_pgs := alloced_pgs a - ucast num_pg\<rparr>, p')
   }"

section \<open>The search\<close>

definition run_free :: "pfd list \<Rightarrow> nat \<Rightarrow> nat \<Rightarrow> bool" where
  "run_free p s n \<longleftrightarrow> (\<forall>i. s \<le> i \<longrightarrow> i < s + n \<longrightarrow> usable (p ! i))"

definition fits :: "pfd list \<Rightarrow> nat \<Rightarrow> nat \<Rightarrow> nat \<Rightarrow> bool" where
  "fits p ep n s \<longleftrightarrow> s + n \<le> ep \<and> run_free p s n"

text \<open>The needle's position after \<open>k\<close> steps of the round-robin walk from \<open>s0\<close>.\<close>

definition walk :: "nat \<Rightarrow> nat \<Rightarrow> nat \<Rightarrow> nat \<Rightarrow> nat" where
  "walk sp ep s0 k = sp + (s0 - sp + k) mod (ep - sp)"

definition search_inv :: "pfd list \<Rightarrow> nat \<Rightarrow> nat \<Rightarrow> nat \<Rightarrow> nat \<Rightarrow> nat \<Rightarrow> nat \<Rightarrow> bool" where
  "search_inv p sp ep n s0 nd steps \<longleftrightarrow> sp \<le> nd \<and> nd < ep \<and>
     (steps < ep - sp \<longrightarrow> nd = walk sp ep s0 steps) \<and>
     (\<forall>k < steps. k < ep - sp \<longrightarrow> \<not> fits p ep n (walk sp ep s0 k))"

lemma first_unusable_Some:
  "first_unusable p it n = Some j \<Longrightarrow> it \<le> j \<and> j < it + n \<and> \<not> usable (p ! j)"
  by (induction p it n rule: first_unusable.induct) (auto split: if_splits)

lemma first_unusable_None: "first_unusable p it n = None \<longleftrightarrow> run_free p it n"
proof (induction p it n rule: first_unusable.induct)
  case (2 p it n)
  have "run_free p it (Suc n) \<longleftrightarrow> usable (p ! it) \<and> run_free p (Suc it) n"
    unfolding run_free_def by (rule all_range_Suc)
  then show ?case using 2 by simp
qed (simp add: run_free_def)

lemma walk_range: "sp < ep \<Longrightarrow> sp \<le> walk sp ep s0 k \<and> walk sp ep s0 k < ep"
  unfolding walk_def using mod_less_divisor[of "ep - sp" "s0 - sp + k"] by linarith

lemma walk_0: "sp \<le> s0 \<Longrightarrow> s0 < ep \<Longrightarrow> walk sp ep s0 0 = s0"
  by (simp add: walk_def)

lemma walk_add:
  assumes "sp < ep" and "walk sp ep s0 k + d < ep"
  shows "walk sp ep s0 (k + d) = walk sp ep s0 k + d"
proof -
  have "(s0 - sp + k) mod (ep - sp) + d < ep - sp" using assms by (simp add: walk_def)
  then have "(s0 - sp + k + d) mod (ep - sp) = (s0 - sp + k) mod (ep - sp) + d"
    by (metis mod_add_left_eq mod_less)
  then show ?thesis by (simp add: walk_def add.assoc)
qed

lemma walk_wrap:
  assumes "sp < ep"
  shows "walk sp ep s0 (k + (ep - walk sp ep s0 k)) = sp"
proof -
  let ?L = "ep - sp" and ?x = "s0 - sp + k"
  have "?x mod ?L < ?L" using assms by simp
  then have "(?x + (?L - ?x mod ?L)) mod ?L = 0"
    by (metis add_diff_inverse_nat less_imp_not_less mod_add_left_eq mod_self)
  moreover have "ep - walk sp ep s0 k = ?L - ?x mod ?L" by (simp add: walk_def)
  ultimately show ?thesis by (simp add: walk_def add.assoc)
qed

text \<open>The walk visits every position of the range once in a round.\<close>

lemma walk_onto:
  assumes "sp \<le> s0" "s0 < ep" "sp \<le> s" "s < ep"
  obtains k where "k < ep - sp" "walk sp ep s0 k = s"
proof (cases "s0 \<le> s")
  case True
  then show ?thesis using assms that[of "s - s0"] by (simp add: walk_def)
next
  case False
  let ?k = "ep - s0 + (s - sp)"
  have "s0 - sp + ?k = (s - sp) + (ep - sp)" using assms by simp
  then have "(s0 - sp + ?k) mod (ep - sp) = s - sp"
    using assms by (simp only: mod_add_self2) (simp add: diff_less_mono)
  then have "walk sp ep s0 ?k = s" unfolding walk_def using assms(3) by linarith
  then show ?thesis using assms False that[of ?k] by simp
qed

lemma try_alloc_cases:
  assumes "try_alloc p sp ep n nd steps = (ok, nd', steps')"
  obtains (wrap) "\<not> ok" "nd + n > ep" "nd' = sp" "steps' = steps + (ep - nd)"
  | (blocked) "\<not> ok" "nd + n \<le> ep" "nd \<le> nd'" "nd' < nd + n" "\<not> usable (p ! nd')"
      "steps' = steps + (nd' - nd)"
  | (found) "ok" "nd' = nd" "steps' = steps" "fits p ep n nd"
  using assms first_unusable_Some[of p nd n] first_unusable_None[of p nd n]
  by (auto simp: try_alloc_def fits_def split: if_splits option.splits)

lemma try_alloc_inv:
  assumes inv: "search_inv p sp ep n s0 nd steps" and lt: "steps < ep - sp"
    and tr: "try_alloc p sp ep n nd steps = (False, nd', steps')"
  shows "search_inv p sp ep n s0 nd' steps'" "steps < steps' \<or> steps' = steps \<and> \<not> usable (p ! nd')" "0 < n"
proof -
  have nd: "nd = walk sp ep s0 steps" and r: "sp \<le> nd" "nd < ep" and sp: "sp < ep"
    and old: "\<forall>k < steps. k < ep - sp \<longrightarrow> \<not> fits p ep n (walk sp ep s0 k)"
    using inv lt by (auto simp: search_inv_def)
  have new: "search_inv p sp ep n s0 nd' steps'"
    if "sp \<le> nd'" "nd' < ep" "nd' = walk sp ep s0 steps'" "steps' = steps + d" "nd + d \<le> ep"
      "\<forall>e < d. \<not> fits p ep n (nd + e)" for d
  proof -
    have "\<not> fits p ep n (walk sp ep s0 k)" if k: "k < steps'" "k < ep - sp" for k
    proof (cases "k < steps")
      case True then show ?thesis using old k(2) by blast
    next
      case False
      then obtain e where e: "k = steps + e" "e < d"
        using k(1) \<open>steps' = steps + d\<close> by (metis add_less_cancel_left le_Suc_ex not_less)
      then have "walk sp ep s0 k = nd + e" using walk_add[OF sp, of s0 steps e] nd \<open>nd + d \<le> ep\<close> by simp
      then show ?thesis using e(2) \<open>\<forall>e < d. \<not> fits p ep n (nd + e)\<close> by simp
    qed
    then show ?thesis using that unfolding search_inv_def by blast
  qed
  from tr have "search_inv p sp ep n s0 nd' steps' \<and>
    (steps < steps' \<or> steps' = steps \<and> \<not> usable (p ! nd')) \<and> 0 < n"
  proof (cases rule: try_alloc_cases)
    case wrap
    have "nd' = walk sp ep s0 steps'" using walk_wrap[OF sp, of s0 steps] wrap(3,4) nd by simp
    then have "search_inv p sp ep n s0 nd' steps'"
      by (intro new[of "ep - nd"]) (use wrap r sp in \<open>auto simp: fits_def\<close>)
    then show ?thesis using wrap r by linarith
  next
    case blocked
    have "nd' = walk sp ep s0 steps'"
      using walk_add[OF sp, of s0 steps "nd' - nd"] blocked nd by simp
    moreover have "\<forall>e < nd' - nd. \<not> fits p ep n (nd + e)"
      using blocked(4,5) by (auto simp: fits_def run_free_def intro!: exI[of _ nd'])
    ultimately have "search_inv p sp ep n s0 nd' steps'"
      by (intro new[of "nd' - nd"]) (use blocked r in auto)
    then show ?thesis using blocked by auto
  qed simp
  then show "search_inv p sp ep n s0 nd' steps'" "steps < steps' \<or> steps' = steps \<and> \<not> usable (p ! nd')" "0 < n"
    by blast+
qed

declare skip_unusable.simps [simp del]

lemma skip_unusable_inv:
  assumes "search_inv p sp ep n s0 nd steps" and "steps < ep - sp" and "0 < n"
    and "skip_unusable p sp ep (ep - sp) nd steps = (nd', steps')"
  shows "search_inv p sp ep n s0 nd' steps' \<and> steps \<le> steps' \<and> (\<not> usable (p ! nd) \<longrightarrow> steps < steps')"
  using assms
proof (induction "ep - sp - steps" arbitrary: nd steps rule: less_induct)
  case less
  show ?case
  proof (cases "usable (p ! nd)")
    case True
    then show ?thesis using less.prems by (simp add: skip_unusable.simps[of p sp ep _ nd steps])
  next
    case False
    have r: "sp \<le> nd" "nd < ep" "nd = walk sp ep s0 steps" using less.prems(1,2) by (auto simp: search_inv_def)
    have "\<not> fits p ep n nd" using False less.prems(3) by (auto simp: fits_def run_free_def)
    then have bl: "\<forall>k < Suc steps. k < ep - sp \<longrightarrow> \<not> fits p ep n (walk sp ep s0 k)"
      using less.prems(1) r(3) by (auto simp: search_inv_def less_Suc_eq)
    show ?thesis
    proof (cases "Suc steps < ep - sp")
      case True
      let ?nd = "if Suc nd \<ge> ep then sp else Suc nd"
      have "?nd = walk sp ep s0 (Suc steps)"
      proof (cases "Suc nd \<ge> ep")
        case True
        then have "ep - walk sp ep s0 steps = 1" using r by simp
        then show ?thesis using True walk_wrap[of sp ep s0 steps] r by simp
      next
        case False
        then show ?thesis using walk_add[of sp ep s0 steps 1] r by simp
      qed
      then have "search_inv p sp ep n s0 ?nd (Suc steps)"
        using bl r walk_range[of sp ep s0 "Suc steps"] unfolding search_inv_def by simp
      moreover have "skip_unusable p sp ep (ep - sp) ?nd (Suc steps) = (nd', steps')"
        using less.prems(4) False True by (subst (asm) skip_unusable.simps) simp
      moreover have "ep - sp - Suc steps < ep - sp - steps" using True by linarith
      ultimately show ?thesis
        using less.hyps[of "Suc steps" ?nd] True less.prems(3) by linarith
    next
      case nlt: False
      then have "nd' = nd" "steps' = Suc steps" using less.prems(4) False
        by (simp_all add: skip_unusable.simps[of p sp ep _ nd steps])
      then show ?thesis using nlt bl r by (simp add: search_inv_def)
    qed
  qed
qed

text \<open>
  The search returns; it returns a run that fits within one round, or has tried every position.
\<close>

lemma alloc_loop_spec:
  assumes "search_inv p sp ep n s0 nd steps"
  shows "\<exists>nd' steps'. alloc_loop p sp ep n (ep - sp) nd steps = Some (nd', steps') \<and>
    sp \<le> nd' \<and> nd' < ep \<and> (steps' < ep - sp \<longrightarrow> fits p ep n nd') \<and>
    (ep - sp \<le> steps' \<longrightarrow> (\<forall>k < ep - sp. \<not> fits p ep n (walk sp ep s0 k)))"
  using assms
proof (induction "ep - sp - steps" arbitrary: nd steps rule: less_induct)
  case less
  obtain ok nd1 st1 where tr: "try_alloc p sp ep n nd steps = (ok, nd1, st1)" by (metis prod_cases3)
  have r: "sp \<le> nd" "nd < ep" using less.prems by (auto simp: search_inv_def)
  have r1: "sp \<le> nd1 \<and> nd1 < ep \<and> steps \<le> st1 \<and> (ok \<longrightarrow> fits p ep n nd1 \<and> st1 = steps)"
    using tr by (cases rule: try_alloc_cases) (use r in auto)
  show ?case
  proof (cases "\<not> ok \<and> st1 < ep - sp")
    case False
    then have res: "alloc_loop p sp ep n (ep - sp) nd steps = Some (nd1, st1)"
      by (subst alloc_loop.simps) (auto simp: tr)
    have "\<forall>k < ep - sp. \<not> fits p ep n (walk sp ep s0 k)" if "ep - sp \<le> st1"
    proof (cases "steps < ep - sp")
      case True
      with that r1 have "\<not> ok" by auto
      with tr have "search_inv p sp ep n s0 nd1 st1" using try_alloc_inv(1)[OF less.prems True] by simp
      then show ?thesis using that by (simp add: search_inv_def)
    next
      case False
      then show ?thesis using less.prems by (simp add: search_inv_def)
    qed
    then show ?thesis using res r1 False by auto
  next
    case True
    obtain nd2 st2 where sk: "skip_unusable p sp ep (ep - sp) nd1 st1 = (nd2, st2)" by fastforce
    have lt: "steps < ep - sp" using True r1 by simp
    have tr': "try_alloc p sp ep n nd steps = (False, nd1, st1)" using tr True by simp
    note t1 = try_alloc_inv[OF less.prems lt tr']
    have s2: "search_inv p sp ep n s0 nd2 st2" "steps < st2"
      using skip_unusable_inv[OF t1(1) _ t1(3) sk] True t1(2) by auto
    have "alloc_loop p sp ep n (ep - sp) nd steps = alloc_loop p sp ep n (ep - sp) nd2 st2"
      using True by (subst alloc_loop.simps) (simp add: tr sk)
    then show ?thesis using less.hyps[OF _ s2(1)] s2(2) lt by auto
  qed
qed

section \<open>The allocator invariant\<close>

definition allocated_in :: "simple_pfa \<Rightarrow> pfd list \<Rightarrow> nat set" where
  "allocated_in a p = {i \<in> {startp a..<endp a}. allocated (p ! i)}"

definition pfa_inv :: "simple_pfa \<Rightarrow> pfd list \<Rightarrow> bool" where
  "pfa_inv a p \<longleftrightarrow> startp a < endp a \<and> endp a \<le> length p \<and> endp a < 2 ^ 32 \<and>
     startp a \<le> needle a \<and> needle a < endp a \<and>
     unat (pfa_start a) = 4096 * startp a \<and> unat (pfa_end a) = 4096 * endp a \<and>
     unat (alloced_pgs a) = card (allocated_in a p)"

lemma pfa_len:
  assumes "pfa_inv a p"
  shows "unat ((pfa_end a - pfa_start a) div ucast PG_SZ) = endp a - startp a"
proof -
  have "unat (pfa_end a - pfa_start a) = 4096 * (endp a - startp a)"
    using assms by (subst unat_sub_no_wrap) (auto simp: pfa_inv_def word_le_nat_alt right_diff_distrib')
  then show ?thesis by (simp add: unat_div_distrib memdefs)
qed

lemma pfa_inv_search: "pfa_inv a p \<Longrightarrow> search_inv p (startp a) (endp a) n (needle a) (needle a) 0"
  by (simp add: pfa_inv_def search_inv_def walk_0)

text \<open>The three outcomes of \<open>alloc\<close>.\<close>

definition mark_allocated :: "nat \<Rightarrow> nat \<Rightarrow> pfd list \<Rightarrow> pfd list" where
  "mark_allocated nd n p = upd_range (\<lambda>d. d\<lparr>allocated := True\<rparr>) nd n p"

lemma alloc_cases:
  assumes inv: "pfa_inv a p"
  obtains (oom) nd where "alloc a p n = Some (None, a\<lparr>needle := nd\<rparr>, p)"
      "startp a \<le> nd" "nd < endp a" "\<forall>s \<ge> startp a. \<not> (s < endp a \<and> fits p (endp a) (unat n) s)"
  | (ok) nd where "alloc a p n = Some (Some (push_bit PG_SZ_BITS (get_pf_offset nd)),
        a\<lparr>needle := nd, alloced_pgs := alloced_pgs a + n\<rparr>, mark_allocated nd (unat n) p)"
      "startp a \<le> nd" "nd < endp a" "fits p (endp a) (unat n) nd"
proof -
  let ?L = "endp a - startp a"
  have r: "startp a \<le> needle a" "needle a < endp a" using inv by (auto simp: pfa_inv_def)
  note ln = pfa_len[OF inv]
  show thesis
  proof (cases "unat n > ?L")
    case True
    have "alloc a p n = Some (None, a\<lparr>needle := needle a\<rparr>, p)"
      using True by (simp add: alloc_def ln)
    then show ?thesis using True r by (intro oom[of "needle a"]) (auto simp: fits_def)
  next
    case False
    obtain nd st where l: "alloc_loop p (startp a) (endp a) (unat n) ?L (needle a) 0 = Some (nd, st)"
      "startp a \<le> nd" "nd < endp a" "st < ?L \<longrightarrow> fits p (endp a) (unat n) nd"
      "?L \<le> st \<longrightarrow> (\<forall>k < ?L. \<not> fits p (endp a) (unat n) (walk (startp a) (endp a) (needle a) k))"
      using alloc_loop_spec[OF pfa_inv_search[OF inv, of "unat n"]] by blast
    show ?thesis
    proof (cases "st < ?L")
      case True
      then show ?thesis using False l by (intro ok[of nd]) (auto simp: alloc_def ln mark_allocated_def)
    next
      case nlt: False
      have "\<not> fits p (endp a) (unat n) s" if "startp a \<le> s" "s < endp a" for s
        using walk_onto[OF r that] l(5) nlt by (metis not_less)
      then show ?thesis using False nlt l(1-3) by (intro oom[of nd]) (auto simp: alloc_def ln)
    qed
  qed
qed

lemma nth_mark_allocated:
  "i < length p \<Longrightarrow> mark_allocated nd n p ! i =
     (if nd \<le> i \<and> i < nd + n then (p ! i)\<lparr>allocated := True\<rparr> else p ! i)"
  by (simp add: mark_allocated_def nth_upd_range)

lemma length_mark_allocated [simp]: "length (mark_allocated nd n p) = length p"
  by (simp add: mark_allocated_def)

lemma allocated_in_mark:
  assumes "fits p (endp a) n nd" "startp a \<le> nd" "endp a \<le> length p"
  shows "allocated_in (a\<lparr>needle := x, alloced_pgs := y\<rparr>) (mark_allocated nd n p) =
      allocated_in a p \<union> {nd..<nd + n}"
    and "allocated_in a p \<inter> {nd..<nd + n} = {}"
  using assms by (auto simp: allocated_in_def nth_mark_allocated fits_def run_free_def usable_def)

lemma alloc_inv_ok:
  assumes inv: "pfa_inv a p" and f: "fits p (endp a) (unat n) nd" "startp a \<le> nd" "nd < endp a"
  shows "pfa_inv (a\<lparr>needle := nd, alloced_pgs := alloced_pgs a + n\<rparr>) (mark_allocated nd (unat n) p)"
proof -
  have len: "endp a \<le> length p" "endp a < 2 ^ 32" "unat (alloced_pgs a) = card (allocated_in a p)"
    using inv by (auto simp: pfa_inv_def)
  note A = allocated_in_mark[OF f(1,2) len(1)]
  have fin: "finite (allocated_in a p)" by (simp add: allocated_in_def)
  have "card (allocated_in a p \<union> {nd..<nd + unat n}) = card (allocated_in a p) + unat n"
    by (subst card_Un_disjoint[OF fin _ A(2)]) simp_all
  moreover have "allocated_in a p \<union> {nd..<nd + unat n} \<subseteq> {startp a..<endp a}"
    using f by (auto simp: allocated_in_def fits_def)
  then have "card (allocated_in a p \<union> {nd..<nd + unat n}) \<le> endp a - startp a"
    using card_mono[of "{startp a..<endp a}"] by fastforce
  ultimately have "unat (alloced_pgs a + n) = card (allocated_in a p \<union> {nd..<nd + unat n})"
    using len by (subst unat_add_no_wrap) auto
  then show ?thesis using inv f by (simp add: pfa_inv_def A(1))
qed

section \<open>Freeing\<close>

lemma free_loop_spec:
  "free_loop p it n = (if \<forall>i. it \<le> i \<longrightarrow> i < it + n \<longrightarrow> i < length p \<and> allocated (p ! i)
     then Some (upd_range (\<lambda>d. d\<lparr>allocated := False\<rparr>) it n p) else None)"
proof (induction p it n rule: free_loop.induct)
  case (2 p it n)
  let ?A = "\<lambda>p it n. \<forall>i. it \<le> i \<longrightarrow> i < it + n \<longrightarrow> i < length p \<and> allocated (p ! i)"
  let ?p = "p[it := (p ! it)\<lparr>allocated := False\<rparr>]"
  have A: "?A p it (Suc n) \<longleftrightarrow> (it < length p \<and> allocated (p ! it)) \<and> ?A ?p (Suc it) n"
    unfolding all_range_Suc by simp
  show ?case
  proof (cases "it < length p \<and> allocated (p ! it)")
    case True
    then have "free_loop p it (Suc n) = free_loop ?p (Suc it) n" by simp
    then show ?thesis using 2 True unfolding A by simp
  next
    case False
    then have "free_loop p it (Suc n) = None" by (auto simp: ASSERT_def)
    then show ?thesis using False unfolding A by auto
  qed
qed (auto intro: nth_equalityI simp: nth_upd_range)

lemma pfd_idx_page: "i < 2 ^ 32 \<Longrightarrow> unat x = 4096 * i \<Longrightarrow> pfd_idx x = i"
  by (subst pfd_idx_div) simp_all

lemma unat_page_addr: "i < 2 ^ 32 \<Longrightarrow> unat (push_bit PG_SZ_BITS (get_pf_offset i)) = 4096 * i"
proof -
  assume i: "i < 2 ^ 32"
  have "unat (of_nat i :: u64) = i" using i by (simp add: unat_of_nat_small)
  then show ?thesis
    using i by (simp only: get_pf_offset_def memdefs unsigned_push_bit_eq)
      (simp add: push_bit_eq_mult take_bit_eq_mod)
qed

lemma free_pgs_inv:
  assumes inv: "pfa_inv a p" and fr: "free_pgs a p b n = Some (a', p')"
    and rng: "pfd_idx b + unat n \<le> endp a" and al: "unat b = 4096 * pfd_idx b"
  shows "pfa_inv a' p'" and "p' = upd_range (\<lambda>d. d\<lparr>allocated := False\<rparr>) (pfd_idx b) (unat n) p"
    and "\<forall>i. pfd_idx b \<le> i \<longrightarrow> i < pfd_idx b + unat n \<longrightarrow> allocated (p ! i)"
    and "startp a \<le> pfd_idx b"
proof -
  let ?R = "{pfd_idx b..<pfd_idx b + unat n}"
  have st: "pfa_start a \<le> b" and al': "\<forall>i. pfd_idx b \<le> i \<longrightarrow> i < pfd_idx b + unat n \<longrightarrow> allocated (p ! i)"
    and p': "p' = upd_range (\<lambda>d. d\<lparr>allocated := False\<rparr>) (pfd_idx b) (unat n) p"
    and a': "a' = a\<lparr>alloced_pgs := alloced_pgs a - ucast n\<rparr>"
    using fr by (auto simp: free_pgs_def free_loop_spec split: if_splits)
  show "p' = upd_range (\<lambda>d. d\<lparr>allocated := False\<rparr>) (pfd_idx b) (unat n) p" by (rule p')
  show "\<forall>i. pfd_idx b \<le> i \<longrightarrow> i < pfd_idx b + unat n \<longrightarrow> allocated (p ! i)" by (rule al')
  show sb: "startp a \<le> pfd_idx b"
    using st inv al by (simp add: word_le_nat_alt pfa_inv_def)
  have len: "endp a \<le> length p" "endp a < 2 ^ 32" "unat (alloced_pgs a) = card (allocated_in a p)"
    using inv by (auto simp: pfa_inv_def)
  have A: "allocated_in a' p' = allocated_in a p - ?R"
    using len(1) by (auto simp: allocated_in_def p' a' nth_upd_range split: if_splits)
  have sub: "?R \<subseteq> allocated_in a p" using al' sb rng by (auto simp: allocated_in_def)
  have "finite (allocated_in a p)" by (simp add: allocated_in_def)
  then have "card (allocated_in a p - ?R) = card (allocated_in a p) - unat n" "unat n \<le> card (allocated_in a p)"
    using card_Diff_subset[OF _ sub] card_mono[OF _ sub] by simp_all
  moreover have "unat (ucast n :: u32) = unat n" using rng len(2) by simp
  ultimately have "unat (alloced_pgs a - ucast n) = card (allocated_in a' p')"
    using len(3) A by (subst unat_sub_no_wrap) (simp_all add: word_le_nat_alt)
  then show "pfa_inv a' p'" using inv by (simp add: pfa_inv_def a' p')
qed

lemma free_after_mark:
  assumes inv: "pfa_inv a p" and f: "fits p (endp a) (unat n) nd" "startp a \<le> nd" "nd < endp a"
  shows "free_pgs (a\<lparr>needle := nd, alloced_pgs := alloced_pgs a + n\<rparr>) (mark_allocated nd (unat n) p)
      (push_bit PG_SZ_BITS (get_pf_offset nd)) (ucast n) = Some (a\<lparr>needle := nd\<rparr>, p)"
proof -
  let ?b = "push_bit PG_SZ_BITS (get_pf_offset nd)"
  have len: "endp a \<le> length p" "endp a < 2 ^ 32" "unat (pfa_start a) = 4096 * startp a"
    "unat (pfa_end a) = 4096 * endp a" using inv by (auto simp: pfa_inv_def)
  have b: "unat ?b = 4096 * nd" using len f by (intro unat_page_addr) simp
  have idx: "pfd_idx ?b = nd" using len f b by (intro pfd_idx_page) simp_all
  have s: "unat (?b + ucast n) = 4096 * nd + unat n"
    using len f(1) by (subst unat_add_no_wrap) (simp_all add: b fits_def)
  have chk: "aligned_pg ?b" "pfa_start a \<le> ?b" "?b + ucast n \<le> pfa_end a"
    using b s len f by (auto simp: aligned_pg_iff word_le_nat_alt fits_def)
  have A: "\<forall>i. nd \<le> i \<longrightarrow> i < nd + unat n \<longrightarrow> i < length p \<and> allocated (mark_allocated nd (unat n) p ! i)"
    using f(1) len(1) by (auto simp: nth_mark_allocated fits_def)
  have "upd_range (\<lambda>d. d\<lparr>allocated := False\<rparr>) nd (unat n) (mark_allocated nd (unat n) p) = p"
    using f(1) by (intro nth_equalityI)
      (auto simp: nth_upd_range nth_mark_allocated fits_def run_free_def usable_def)
  then show ?thesis
    using chk A by (simp add: free_pgs_def free_loop_spec idx)
qed

section \<open>Marking unusable pages\<close>

definition mark_set :: "(nat \<Rightarrow> bool) \<Rightarrow> pfd list \<Rightarrow> pfd list" where
  "mark_set M p = map (\<lambda>i. if M i then (p ! i)\<lparr>unusable := True\<rparr> else p ! i) [0..<length p]"

lemma length_mark_set [simp]: "length (mark_set M p) = length p"
  by (simp add: mark_set_def)

lemma nth_mark_set: "i < length p \<Longrightarrow> mark_set M p ! i = (if M i then (p ! i)\<lparr>unusable := True\<rparr> else p ! i)"
  by (simp add: mark_set_def)

lemma mark_set_mark_set: "mark_set M (mark_set N p) = mark_set (\<lambda>i. M i \<or> N i) p"
  by (rule nth_equalityI) (auto simp: nth_mark_set)

lemma mark_set_cong: "(\<And>i. i < length p \<Longrightarrow> M i = N i) \<Longrightarrow> mark_set M p = mark_set N p"
  by (rule nth_equalityI) (auto simp: nth_mark_set)

lemma mark_set_False: "(\<And>i. i < length p \<Longrightarrow> \<not> M i) \<Longrightarrow> mark_set M p = p"
  by (rule nth_equalityI) (auto simp: nth_mark_set)

lemma mark_until_spec:
  assumes "unat it = 4096 * k" "unat rb = 4096 * b" "unat end = 4096 * e" "e < 2 ^ 32" "e \<le> length p"
  shows "\<exists>it'. mark_until rb end it p = Some (it', mark_set (\<lambda>i. k \<le> i \<and> i < b \<and> i < e) p) \<and>
    unat it' = 4096 * max k (min b e)"
  using assms
proof (induction "min b e - k" arbitrary: k it p)
  case 0
  then have "\<not> (it < rb \<and> it < end)" by (auto simp: word_less_nat_alt)
  then have "mark_until rb end it p = Some (it, p)" by (subst mark_until.simps) auto
  moreover have "mark_set (\<lambda>i. k \<le> i \<and> i < b \<and> i < e) p = p"
    using 0(1) by (intro mark_set_False) auto
  ultimately show ?case using 0 by (auto simp: max_def)
next
  case (Suc n)
  then have lt: "k < b" "k < e" "it < rb" "it < end" by (auto simp: word_less_nat_alt)
  have n: "n = min b e - Suc k" using Suc.hyps(2) by simp
  have idx: "pfd_idx it = k" using Suc.prems lt by (intro pfd_idx_page) auto
  let ?p = "p[k := (p ! k)\<lparr>unusable := True\<rparr>]"
  have it': "unat (it + ucast PG_SZ) = 4096 * Suc k"
    using Suc.prems lt by (subst unat_add_no_wrap) (auto simp: memdefs)
  have "mark_until rb end it p = mark_until rb end (it + ucast PG_SZ) ?p"
    using lt Suc.prems(5) by (subst mark_until.simps) (auto simp: set_unusable_def idx)
  moreover obtain j where "mark_until rb end (it + ucast PG_SZ) ?p =
      Some (j, mark_set (\<lambda>i. Suc k \<le> i \<and> i < b \<and> i < e) ?p)" "unat j = 4096 * max (Suc k) (min b e)"
    using Suc.hyps(1)[OF n it' Suc.prems(2-4), of ?p] Suc.prems(5) by auto
  moreover have "mark_set (\<lambda>i. Suc k \<le> i \<and> i < b \<and> i < e) ?p = mark_set (\<lambda>i. k \<le> i \<and> i < b \<and> i < e) p"
    by (rule nth_equalityI) (use lt in \<open>auto simp: nth_mark_set nth_list_update not_less_eq_eq\<close>)
  moreover have "max (Suc k) (min b e) = max k (min b e)" using lt by auto
  ultimately show ?case by auto
qed

definition active_regions :: "u64 \<Rightarrow> memory_map \<Rightarrow> memory_map" where
  "active_regions start rs = filter (\<lambda>r. start \<le> base r) rs"

text \<open>
  The pages the constructor marks: those from \<open>it\<close> to \<open>end\<close> that precede some region starting at or
  after \<open>start\<close> and lie in none.
\<close>

definition marked :: "memory_map \<Rightarrow> u64 \<Rightarrow> nat \<Rightarrow> nat \<Rightarrow> nat \<Rightarrow> bool" where
  "marked rs start k e i \<longleftrightarrow> k \<le> i \<and> i < e \<and>
     (\<exists>r \<in> set (active_regions start rs). i * 4096 < unat (base r)) \<and>
     i * 4096 \<notin> region_bytes (active_regions start rs)"

lemma mark_regions_spec:
  assumes "regions_ok rs" "unat it = 4096 * k" "unat end = 4096 * e" "e < 2 ^ 32" "e \<le> length p"
    "\<forall>r \<in> set (active_regions start rs). 4096 * k \<le> unat (base r)"
  shows "mark_regions rs start end it p = Some (mark_set (marked rs start k e) p)"
  using assms
proof (induction rs arbitrary: k it p)
  case Nil
  then show ?case by (simp add: marked_def active_regions_def mark_set_False)
next
  case (Cons r rs)
  have ok: "regions_ok rs" using Cons.prems(1) by (simp add: regions_ok_def)
  show ?case
  proof (cases "base r < start")
    case True
    then have "active_regions start (r # rs) = active_regions start rs"
      by (simp add: active_regions_def)
    then show ?thesis using Cons.IH[OF ok Cons.prems(2-5)] Cons.prems(6) True by (simp add: marked_def)
  next
    case False
    have ac: "active_regions start (r # rs) = r # active_regions start rs"
      using False by (simp add: active_regions_def)
    obtain b l where bl: "unat (base r) = 4096 * b" "unat (len r) = 4096 * l"
      using Cons.prems(1) by (auto simp: regions_ok_def elim!: dvdE)
    have later: "4096 * (b + l) \<le> unat (base r')" if "r' \<in> set (active_regions start rs)" for r'
      using Cons.prems(1) that bl by (auto simp: regions_ok_def active_regions_def)
    have kb: "k \<le> b" using Cons.prems(6) bl ac by simp
    have inr: "i * 4096 \<in> espan r \<longleftrightarrow> b \<le> i \<and> i < b + l" for i unfolding span_def bl by auto
    have notin: "i * 4096 \<notin> region_bytes (active_regions start rs)" if "i < b + l" for i
      using later that by (fastforce simp: region_bytes_def span_def)
    have M: "marked (r # rs) start k e i \<longleftrightarrow>
        k \<le> i \<and> i < b \<and> i < e \<or> b < e \<and> marked rs start (b + l) e i" for i
    proof (cases "i < b + l")
      case True
      then show ?thesis using notin[OF True] inr[of i] kb bl(1) later
        by (auto simp: marked_def ac region_bytes_def) 
    next
      case False
      then show ?thesis using inr[of i] kb bl(1)
        by (auto simp: marked_def ac region_bytes_def)
    qed
    let ?p = "mark_set (\<lambda>i. k \<le> i \<and> i < b \<and> i < e) p"
    obtain j where j: "mark_until (base r) end it p = Some (j, ?p)" "unat j = 4096 * max k (min b e)"
      using mark_until_spec[OF Cons.prems(2) bl(1) Cons.prems(3-5)] by blast
    show ?thesis
    proof (cases "b < e")
      case True
      then have j': "unat j = 4096 * b" "j < end" using j(2) kb Cons.prems(3) by (auto simp: word_less_nat_alt)
      have "wf_entry r" using Cons.prems(1) by (simp add: regions_ok_def)
      then have "unat (j + len r) = 4096 * (b + l)"
        using j' bl by (subst unat_add_no_wrap) (auto simp: wf_entry_def)
      from Cons.IH[OF ok this Cons.prems(3,4), of ?p] Cons.prems(5) later
      have "mark_regions rs start end (j + len r) ?p = Some (mark_set (marked rs start (b + l) e) ?p)"
        by simp
      then show ?thesis
        using j False j' True by (auto simp: mark_set_mark_set M disj_commute)
    next
      case nlt: False
      then have "end \<le> j" using j(2) Cons.prems(3) by (auto simp: word_le_nat_alt)
      then show ?thesis using j False nlt by (auto simp: M)
    qed
  qed
qed

section \<open>What the constructor establishes\<close>

lemma page_in_regions:
  assumes "regions_ok rs"
  shows "page_bytes i \<subseteq> region_bytes rs \<longleftrightarrow> i * 4096 \<in> region_bytes rs"
proof
  assume "i * 4096 \<in> region_bytes rs"
  then obtain r where r: "r \<in> set rs" "i * 4096 \<in> espan r" by (auto simp: region_bytes_def)
  obtain b l where bl: "unat (base r) = 4096 * b" "unat (len r) = 4096 * l"
    using assms r(1) by (auto simp: regions_ok_def elim!: dvdE)
  have "b \<le> i \<and> i < b + l" using r(2) unfolding span_def bl by auto
  then have "page_bytes i \<subseteq> espan r" unfolding span_def bl page_bytes_def by auto
  then show "page_bytes i \<subseteq> region_bytes rs" using r(1) by (auto simp: region_bytes_def)
qed (auto simp: page_bytes_def)

text \<open>No region starts before \<open>start\<close> and reaches beyond it.\<close>

definition no_straddle :: "u64 \<Rightarrow> memory_map \<Rightarrow> bool" where
  "no_straddle start rs \<longleftrightarrow>
     (\<forall>r \<in> set rs. start \<le> base r \<or> unat (base r) + unat (len r) \<le> unat start)"

lemma marked_iff:
  assumes ok: "regions_ok rs" and lim: "mem_limit rs = Some lim" "unat end \<le> unat lim"
    and ns: "no_straddle start rs" and i: "unat start = 4096 * k" "unat end = 4096 * e" "k \<le> i" "i < e"
  shows "marked rs start k e i \<longleftrightarrow> \<not> page_bytes i \<subseteq> region_bytes rs"
proof -
  have eq: "i * 4096 \<in> region_bytes (active_regions start rs) \<longleftrightarrow> i * 4096 \<in> region_bytes rs"
    using ns i(1,3) by (fastforce simp: region_bytes_def active_regions_def no_straddle_def span_def)
  have "\<exists>r \<in> set (active_regions start rs). i * 4096 < unat (base r)" if out: "i * 4096 \<notin> region_bytes rs"
  proof -
    let ?r = "last rs"
    have r: "?r \<in> set rs" "lim = region_end ?r" using lim(1) by (auto simp: mem_limit_def split: if_splits)
    then have "unat lim = unat (base ?r) + unat (len ?r)"
      using ok no_wrap_unat[OF wf_entry_no_wrap] by (simp add: region_end_def regions_ok_def)
    then have "i * 4096 < unat (base ?r) + unat (len ?r)" using lim(2) i by simp
    moreover have "i * 4096 \<notin> espan ?r" using out r(1) by (auto simp: region_bytes_def)
    ultimately have lt: "i * 4096 < unat (base ?r)" by (simp add: span_def)
    then have "start \<le> base ?r" using i(1,3) by (simp add: word_le_nat_alt)
    then show ?thesis using lt r(1) by (auto simp: active_regions_def)
  qed
  then show ?thesis using i(3,4) eq by (auto simp: marked_def page_in_regions[OF ok])
qed

lemma SimplePFA_E:
  assumes "SimplePFA t start end = Some (a, t')" and "unat end < 2 ^ 44" and "regions_ok (usable_regions t)"
  obtains k e where "unat start = 4096 * k" "unat end = 4096 * e" "k < e" "e < 2 ^ 32" "e \<le> length (pft t)"
    "a = \<lparr>pfa_start = start, pfa_end = end, startp = k, endp = e,
          total_pgs = drop_bit PG_SZ_BITS (sum_overlaps start end (usable_regions t) 0),
          needle = k, alloced_pgs = 0\<rparr>"
    "pft t' = mark_set (marked (usable_regions t) start k e)
       (upd_range (\<lambda>_. zero_pfd) k (e - k) (pft t))"
proof -
  obtain t1 where pa: "PageFrameAllocator t start end = Some (a, t1)"
    and mr: "mark_regions (usable_regions t1) start end start (pft t1) = Some (pft t')"
    using assms(1) by (auto simp: SimplePFA_def split: bind_splits)
  have lt: "start < end" and al: "aligned_pg start" "aligned_pg end" and idx: "pfd_idx end \<le> length (pft t)"
    and t1: "usable_regions t1 = usable_regions t"
      "pft t1 = upd_range (\<lambda>_. zero_pfd) (pfd_idx start) (pfd_idx end - pfd_idx start) (pft t)"
    and a: "a = \<lparr>pfa_start = start, pfa_end = end, startp = pfd_idx start, endp = pfd_idx end,
          total_pgs = drop_bit PG_SZ_BITS (sum_overlaps start end (usable_regions t) 0),
          needle = pfd_idx start, alloced_pgs = 0\<rparr>"
    using pa by (auto simp: PageFrameAllocator_def register_allocator_def get_pfd_def usable_regions_def
        split: bind_splits if_splits)
  obtain k e where ke: "unat start = 4096 * k" "unat end = 4096 * e"
    using al by (auto simp: aligned_pg_iff elim!: dvdE)
  have b: "k < e" "e < 2 ^ 32" using lt assms(2) ke by (auto simp: word_less_nat_alt)
  have ids: "pfd_idx start = k" "pfd_idx end = e" using ke b by (auto intro!: pfd_idx_page)
  have "\<forall>r \<in> set (active_regions start (usable_regions t)). 4096 * k \<le> unat (base r)"
    using ke by (auto simp: active_regions_def word_le_nat_alt)
  from mark_regions_spec[OF assms(3) ke b(2) _ this, of "pft t1"] mr idx t1
  have "pft t' = mark_set (marked (usable_regions t) start k e) (pft t1)" by (simp add: ids)
  then show thesis using that[OF ke b] idx a t1 by (simp add: ids)
qed

lemma card_overlap:
  "card ({b..<b + l} \<inter> {s..<e}) = (if max b s < min (b + l) e then min (b + l) e - max b s else (0::nat))"
proof -
  have "{b..<b + l} \<inter> {s..<e} = {max b s..<min (b + l) e}" by auto
  then show ?thesis by (simp only: card_atLeastLessThan) auto
qed

lemma sum_overlaps_card:
  assumes "regions_ok rs"
  shows "unat (sum_overlaps start end rs tot) =
    (unat tot + card (region_bytes rs \<inter> {unat start..<unat end})) mod 2 ^ 32"
  using assms
proof (induction rs arbitrary: tot)
  case Nil
  show ?case using unsigned_less[where 'a = nat and 'b = 32, of tot] by (simp add: region_bytes_def)
next
  case (Cons r rs)
  let ?I = "{unat start..<unat end}"
  have ok: "regions_ok rs" and wf: "wf_entry r" using Cons.prems by (auto simp: regions_ok_def)
  have ue: "unat (base r + len r) = unat (base r) + unat (len r)"
    using no_wrap_unat[OF wf_entry_no_wrap[OF wf]] .
  let ?x = "if max (base r) start < min (base r + len r) end
            then min (base r + len r) end - max (base r) start else 0"
  have x: "unat ?x = card (espan r \<inter> ?I)"
    unfolding span_def card_overlap
    by (auto simp: unat_sub_no_wrap word_le_nat_alt word_less_nat_alt ue min_def max_def)
  have "espan r \<inter> region_bytes rs = {}"
    using Cons.prems by (fastforce simp: regions_ok_def region_bytes_def span_def)
  then have card: "card (region_bytes (r # rs) \<inter> ?I) = card (espan r \<inter> ?I) + card (region_bytes rs \<inter> ?I)"
    by (subst card_Un_disjoint[symmetric]) (auto simp: region_bytes_def intro!: arg_cong[where f = card])
  have "unat (ucast (ucast tot + ?x) :: u32) = (unat tot + unat ?x) mod 2 ^ 32"
    by (simp only: unat_ucast_64_32 unat_word_ariths unat_ucast_32_64) (simp add: mod_mod_cancel)
  moreover have "sum_overlaps start end (r # rs) tot = sum_overlaps start end rs (ucast (ucast tot + ?x))"
    by (simp add: Let_def)
  ultimately show ?case
    using Cons.IH[OF ok] x card by (simp add: mod_add_left_eq add.assoc)
qed

lemma mark_zeroed:
  assumes "e \<le> length p" "k \<le> i" "i < e"
  shows "mark_set M (upd_range (\<lambda>_. zero_pfd) k (e - k) p) ! i = \<lparr>allocated = False, unusable = M i\<rparr>"
  using assms by (simp add: nth_mark_set nth_upd_range zero_pfd_def)

lemma SimplePFA_inv:
  assumes "SimplePFA t start end = Some (a, t')" and "unat end < 2 ^ 44" and "regions_ok (usable_regions t)"
  shows "pfa_inv a (pft t')"
  using assms
proof (rule SimplePFA_E)
  fix k e assume ke: "unat start = 4096 * k" "unat end = 4096 * e" "k < e" "e < 2 ^ 32" "e \<le> length (pft t)"
    and a: "a = \<lparr>pfa_start = start, pfa_end = end, startp = k, endp = e,
          total_pgs = drop_bit PG_SZ_BITS (sum_overlaps start end (usable_regions t) 0),
          needle = k, alloced_pgs = 0\<rparr>"
    and p: "pft t' = mark_set (marked (usable_regions t) start k e)
       (upd_range (\<lambda>_. zero_pfd) k (e - k) (pft t))"
  have "allocated_in a (pft t') = {}"
    using ke(5) by (auto simp: allocated_in_def a p mark_zeroed)
  then show ?thesis using ke a by (simp add: pfa_inv_def p)
qed

section \<open>A concrete allocator\<close>

declare alloc_loop.simps [code] mark_until.simps [code]

definition demo_pfa :: simple_pfa where
  "demo_pfa = \<lparr>pfa_start = 0, pfa_end = 0x28000, startp = 0, endp = 40, total_pgs = 32,
               needle = 0, alloced_pgs = 0\<rparr>"

definition demo_page :: "nat \<Rightarrow> pfd" where
  "demo_page i = \<lparr>allocated = False, unusable = i = 0 \<or> i = 6 \<or> i = 7 \<or> 31 \<le> i \<and> i < 36\<rparr>"

definition demo_pages :: "pfd list" where
  "demo_pages = map demo_page [0..<40]"

lemma demo_pfa_inv: "pfa_inv demo_pfa demo_pages"
  by (simp add: pfa_inv_def demo_pfa_def demo_pages_def allocated_in_def demo_page_def)

lemma demo_regions_ok: "regions_ok demo_regions"
  by (simp add: regions_ok_def demo_regions_def wf_entry_def)

lemma demo_SimplePFA:
  "\<exists>t'. SimplePFA demo_pft 0 0x28000 = Some (demo_pfa, t') \<and> pft t' = demo_pages"
proof -
  have ur: "usable_regions demo_pft = demo_regions" "pft demo_pft = replicate 40 zero_pfd"
    "allocators demo_pft = []" using demo_table_values by auto
  have idx: "pfd_idx 0 = 0" "pfd_idx 0x28000 = 40" by (simp_all add: pfd_idx_div)
  have so: "drop_bit PG_SZ_BITS (sum_overlaps 0 0x28000 demo_regions 0) = 32" by code_simp
  let ?p = "upd_range (\<lambda>_. zero_pfd) 0 40 (replicate 40 zero_pfd)"
  have "mark_regions demo_regions 0 0x28000 0 ?p = Some (mark_set (marked demo_regions 0 0 40) ?p)"
    by (rule mark_regions_spec[OF demo_regions_ok]) simp_all
  moreover have "mark_set (marked demo_regions 0 0 40) ?p = demo_pages"
    by (rule nth_equalityI)
      (auto simp: demo_pages_def demo_page_def nth_mark_set nth_upd_range zero_pfd_def marked_def
        active_regions_def demo_regions_def region_bytes_def span_def)
  ultimately show ?thesis
    using ur so
    by (simp add: SimplePFA_def PageFrameAllocator_def register_allocator_def get_pfd_def idx
        aligned_pg_iff usable_regions_def demo_pfa_def)
qed

lemma demo_alloc_5: "alloc demo_pfa demo_pages 5 =
  Some (Some 0x1000, demo_pfa\<lparr>needle := 1, alloced_pgs := 5\<rparr>, mark_allocated 1 5 demo_pages)"
  by code_simp

section \<open>Properties\<close>

text \<open>
  C2. An allocation that succeeds returns the physical address of a run of \<open>num_pg\<close> pages inside the
  allocator's range, all of which were usable before (so two live allocations never share a page, and
  an unusable page is never handed out); exactly those pages become allocated, and the allocator's
  invariant, including the count of allocated pages, is kept.
\<close>

theorem alloc_sound:
  assumes "pfa_inv a p" and "alloc a p num_pg = Some (Some addr, a', p')"
  shows "pfa_inv a' p' \<and> (\<exists>nd. unat addr = 4096 * nd \<and> startp a \<le> nd \<and> nd + unat num_pg \<le> endp a \<and>
    length p' = length p \<and>
    (\<forall>i < length p. if nd \<le> i \<and> i < nd + unat num_pg
       then usable (p ! i) \<and> p' ! i = (p ! i)\<lparr>allocated := True\<rparr> else p' ! i = p ! i))"
  using assms(1)
proof (cases rule: alloc_cases[where n = num_pg])
  case (oom nd)
  then show ?thesis using assms(2) by simp
next
  case (ok nd)
  have "pfa_inv a' p'" using alloc_inv_ok[OF assms(1) ok(4,2,3)] ok(1) assms(2) by simp
  moreover have "unat addr = 4096 * nd"
    using ok(1,3) assms unat_page_addr[of nd] by (simp add: pfa_inv_def)
  moreover have "p' = mark_allocated nd (unat num_pg) p" using ok(1) assms(2) by simp
  ultimately show ?thesis
    using ok(2,4) by (auto simp: nth_mark_allocated fits_def run_free_def intro!: exI[of _ nd])
qed

theorem alloc_sound_witness:
  "\<exists>a' p'. alloc demo_pfa demo_pages 5 = Some (Some 0x1000, a', p') \<and> pfa_inv a' p' \<and> allocated (p' ! 3)"
proof -
  have "allocated (mark_allocated 1 5 demo_pages ! 3)"
    by (simp add: nth_mark_allocated demo_pages_def)
  then show ?thesis using alloc_sound[OF demo_pfa_inv demo_alloc_5] demo_alloc_5 by blast
qed

text \<open>
  C14. The round-robin search always returns. It reports that memory is exhausted exactly when no run
  of \<open>num_pg\<close> consecutive usable pages exists in the range, and then changes no descriptor.
\<close>

theorem alloc_complete:
  assumes "pfa_inv a p"
  shows "\<exists>r a' p'. alloc a p num_pg = Some (r, a', p') \<and>
    (r = None \<longleftrightarrow> \<not> (\<exists>s. startp a \<le> s \<and> s < endp a \<and> s + unat num_pg \<le> endp a \<and>
        (\<forall>i. s \<le> i \<longrightarrow> i < s + unat num_pg \<longrightarrow> usable (p ! i)))) \<and>
    (r = None \<longrightarrow> p' = p \<and> pfa_inv a' p')"
  using assms
proof (cases rule: alloc_cases[where n = num_pg])
  case (oom nd)
  have "pfa_inv (a\<lparr>needle := nd\<rparr>) p"
    using assms oom(2,3) by (simp add: pfa_inv_def allocated_in_def)
  then show ?thesis using oom(1,4) by (auto simp: fits_def run_free_def)
next
  case (ok nd)
  then show ?thesis by (auto simp: fits_def run_free_def)
qed

theorem alloc_complete_witness:
  "\<exists>a' p'. alloc demo_pfa demo_pages 24 = Some (None, a', p') \<and> p' = demo_pages"
proof -
  have "\<not> (\<exists>s. startp demo_pfa \<le> s \<and> s < endp demo_pfa \<and> s + unat (24 :: u32) \<le> endp demo_pfa \<and>
        (\<forall>i. s \<le> i \<longrightarrow> i < s + unat (24 :: u32) \<longrightarrow> usable (demo_pages ! i)))"
  proof (clarify)
    fix s assume s: "startp demo_pfa \<le> s" "s < endp demo_pfa" "s + unat (24 :: u32) \<le> endp demo_pfa"
      and u: "\<forall>i. s \<le> i \<longrightarrow> i < s + unat (24 :: u32) \<longrightarrow> usable (demo_pages ! i)"
    have "s \<le> 7 \<and> 7 < s + 24 \<or> s \<le> 31 \<and> 31 < s + 24" using s by (auto simp: demo_pfa_def)
    then have "usable (demo_pages ! 7) \<or> usable (demo_pages ! 31)" using u by auto
    then show False by (simp add: demo_pages_def demo_page_def usable_def)
  qed
  then show ?thesis using alloc_complete[OF demo_pfa_inv, of 24] by auto
qed

text \<open>
  C20. Freeing what was allocated restores the page frame table and the count of allocated pages, and
  an allocation of no greater size that follows returns the same address again, as the class comment
  promises: the needle is not moved past an allocation.
\<close>

theorem alloc_free_alloc:
  assumes "pfa_inv a p" and "alloc a p n = Some (Some addr, a', p')" and "m \<le> n"
  shows "\<exists>a''. free_pgs a' p' addr (ucast n) = Some (a'', p) \<and> alloced_pgs a'' = alloced_pgs a \<and>
    (\<exists>b q. alloc a'' p m = Some (Some addr, b, q))"
  using assms(1)
proof (cases rule: alloc_cases[where n = n])
  case (oom nd)
  then show ?thesis using assms(2) by simp
next
  case (ok nd)
  let ?a = "a\<lparr>needle := nd\<rparr>"
  have fr: "free_pgs a' p' addr (ucast n) = Some (?a, p)"
    using free_after_mark[OF assms(1) ok(4,2,3)] ok(1) assms(2) by simp
  have inv: "pfa_inv ?a p" using assms(1) ok(2,3) by (simp add: pfa_inv_def allocated_in_def)
  have mn: "unat m \<le> unat n" using assms(3) by (simp add: word_le_nat_alt)
  then have "first_unusable p nd (unat m) = None" "nd + unat m \<le> endp a"
    using ok(4) by (auto simp: first_unusable_None fits_def run_free_def)
  then have "alloc_loop p (startp a) (endp a) (unat m) (endp a - startp a) nd 0 = Some (nd, 0)"
    by (subst alloc_loop.simps) (simp add: try_alloc_def)
  moreover have "unat m \<le> endp a - startp a" using mn ok(2,4) unfolding fits_def by linarith
  moreover have "addr = push_bit PG_SZ_BITS (get_pf_offset nd)" using ok(1) assms(2) by simp
  ultimately have "\<exists>b q. alloc ?a p m = Some (Some addr, b, q)"
    using pfa_len[OF inv] ok(2,3) by (simp add: alloc_def)
  then show ?thesis using fr by auto
qed

theorem alloc_free_alloc_witness:
  "\<exists>a' p' a'' b q. alloc demo_pfa demo_pages 5 = Some (Some 0x1000, a', p') \<and>
     free_pgs a' p' 0x1000 (ucast (5 :: u32)) = Some (a'', demo_pages) \<and>
     alloc a'' demo_pages 2 = Some (Some 0x1000, b, q)"
  using alloc_free_alloc[OF demo_pfa_inv demo_alloc_5, of 2] demo_alloc_5
  by (simp add: word_le_nat_alt) blast

text \<open>
  C21. Freeing pages of the allocator's range succeeds only when all of them are allocated, clears
  exactly their allocated flags and keeps the invariant. (The bound that the code asserts adds a page
  count to a byte offset, so that the pages lie in the range is a premise here.)
\<close>

theorem free_pgs_spec:
  assumes "pfa_inv a p" and "free_pgs a p b n = Some (a', p')"
    and "unat b = 4096 * k" and "k + unat n \<le> endp a"
  shows "pfa_inv a' p' \<and> startp a \<le> k \<and> unat (alloced_pgs a') = unat (alloced_pgs a) - unat n \<and>
    (\<forall>i < length p. if k \<le> i \<and> i < k + unat n
       then allocated (p ! i) \<and> p' ! i = (p ! i)\<lparr>allocated := False\<rparr> else p' ! i = p ! i)"
proof -
  have lt: "endp a < 2 ^ 32" using assms(1) by (simp add: pfa_inv_def)
  have n: "unat (ucast n :: u32) = unat n" using lt assms(4) by simp
  have k: "pfd_idx b = k"
  proof (cases "k < 2 ^ 32")
    case True then show ?thesis using assms(3) by (intro pfd_idx_page)
  next
    case False then show ?thesis using lt assms(4) by simp
  qed
  note F = free_pgs_inv[OF assms(1,2), unfolded k, OF assms(4,3)]
  have sub: "{k..<k + unat n} \<subseteq> allocated_in a p"
    using F(3,4) assms(4) by (auto simp: allocated_in_def)
  have "unat n \<le> unat (alloced_pgs a)"
    using card_mono[OF _ sub] assms(1) by (simp add: pfa_inv_def allocated_in_def)
  moreover have "alloced_pgs a' = alloced_pgs a - ucast n"
    using assms(2) by (auto simp: free_pgs_def split: bind_splits)
  ultimately have "unat (alloced_pgs a') = unat (alloced_pgs a) - unat n"
    using n by (simp add: unat_sub_no_wrap word_le_nat_alt)
  then show ?thesis using F by (auto simp: nth_upd_range)
qed

theorem free_pgs_spec_witness:
  "\<exists>a' p'. free_pgs (demo_pfa\<lparr>needle := 1, alloced_pgs := 5\<rparr>) (mark_allocated 1 5 demo_pages) 0x2000 3 =
     Some (a', p') \<and> pfa_inv a' p' \<and> alloced_pgs a' = 2"
proof -
  let ?a = "demo_pfa\<lparr>needle := 1, alloced_pgs := 5\<rparr>" and ?p = "mark_allocated 1 5 demo_pages"
  have inv: "pfa_inv ?a ?p"
    using alloc_inv_ok[OF demo_pfa_inv, of 5 1]
    by (auto simp: demo_pfa_def fits_def run_free_def usable_def demo_pages_def demo_page_def)
  have "free_pgs ?a ?p 0x2000 3 \<noteq> None" by code_simp
  then obtain a' p' where fr: "free_pgs ?a ?p 0x2000 3 = Some (a', p')" by auto
  have "pfa_inv a' p' \<and> unat (alloced_pgs a') = 5 - 3"
    using free_pgs_spec[OF inv fr, of 2] by (simp add: demo_pfa_def)
  then show ?thesis using fr by (simp add: word_unat_eq_iff)
qed

text \<open>
  C22. Construction over a range whose start no usable region straddles and whose end is at most the end
  of memory leaves a page usable exactly when it lies in a usable region, with nothing allocated.
\<close>

theorem SimplePFA_marks_unusable:
  assumes "SimplePFA t start end = Some (a, t')" and "regions_ok (usable_regions t)"
    and "mem_limit (usable_regions t) = Some lim" "unat end \<le> unat lim" "unat end < 2 ^ 44"
    and "no_straddle start (usable_regions t)"
  shows "pfa_inv a (pft t') \<and> alloced_pgs a = 0 \<and>
    (\<forall>i. startp a \<le> i \<longrightarrow> i < endp a \<longrightarrow>
       (usable (pft t' ! i) \<longleftrightarrow> page_bytes i \<subseteq> region_bytes (usable_regions t)))"
proof -
  obtain k e where ke: "unat start = 4096 * k" "unat end = 4096 * e" "e \<le> length (pft t)"
    and a: "startp a = k" "endp a = e" "alloced_pgs a = 0"
    and p: "pft t' = mark_set (marked (usable_regions t) start k e)
       (upd_range (\<lambda>_. zero_pfd) k (e - k) (pft t))"
    using SimplePFA_E[OF assms(1,5,2)] by (metis simple_pfa.select_convs(3,4,7))
  have "usable (pft t' ! i) \<longleftrightarrow> page_bytes i \<subseteq> region_bytes (usable_regions t)" if "k \<le> i" "i < e" for i
    using marked_iff[OF assms(2-4,6) ke(1,2) that] mark_zeroed[OF ke(3) that]
    by (simp add: p usable_def)
  then show ?thesis using SimplePFA_inv[OF assms(1,5,2)] a by simp
qed

theorem SimplePFA_marks_unusable_witness:
  "\<exists>t'. SimplePFA demo_pft 0 0x28000 = Some (demo_pfa, t') \<and> usable (pft t' ! 8) \<and> \<not> usable (pft t' ! 7)"
proof -
  obtain t' where t': "SimplePFA demo_pft 0 0x28000 = Some (demo_pfa, t')" using demo_SimplePFA by blast
  have ur: "usable_regions demo_pft = demo_regions" using demo_table_values by simp
  have "\<forall>i. startp demo_pfa \<le> i \<longrightarrow> i < endp demo_pfa \<longrightarrow>
       (usable (pft t' ! i) \<longleftrightarrow> page_bytes i \<subseteq> region_bytes demo_regions)"
    using SimplePFA_marks_unusable[OF t', unfolded ur, OF demo_regions_ok, of "0x28000"]
    by (simp add: demo_regions_def mem_limit_def region_end_def no_straddle_def)
  moreover have "page_bytes 8 \<subseteq> region_bytes demo_regions" "\<not> page_bytes 7 \<subseteq> region_bytes demo_regions"
    unfolding page_in_regions[OF demo_regions_ok] by (simp_all add: region_bytes_def demo_regions_def span_def)
  ultimately show ?thesis using t' by (auto simp: demo_pfa_def)
qed

text \<open>
  The number of pages an allocator reports is the number of usable bytes in its range, reduced
  modulo \<^verbatim>\<open>2^32\<close> because it is summed up in bytes in an \<^verbatim>\<open>unsigned\<close>, divided by the page size. It is
  the right number below 4 GiB and too small from there on.
\<close>

theorem total_pages_exact:
  assumes "SimplePFA t start end = Some (a, t')" and "regions_ok (usable_regions t)" "unat end < 2 ^ 44"
  shows "unat (get_total_pages a) =
    card (region_bytes (usable_regions t) \<inter> {unat start..<unat end}) mod 2 ^ 32 div 4096"
  using assms(1,3,2)
proof (rule SimplePFA_E)
  fix k e assume "a = \<lparr>pfa_start = start, pfa_end = end, startp = k, endp = e,
          total_pgs = drop_bit PG_SZ_BITS (sum_overlaps start end (usable_regions t) 0),
          needle = k, alloced_pgs = 0\<rparr>"
  then show ?thesis
    using sum_overlaps_card[OF assms(2), of start "end" 0]
    by (simp add: get_total_pages_def unat_drop_bit_div memdefs)
qed

theorem total_pages_exact_witness:
  "card (region_bytes demo_regions \<inter> {0..<0x28000}) mod 2 ^ 32 div 4096 = 32"
proof -
  obtain t' where t': "SimplePFA demo_pft 0 0x28000 = Some (demo_pfa, t')" using demo_SimplePFA by blast
  have "usable_regions demo_pft = demo_regions" using demo_table_values by simp
  then show ?thesis
    using total_pages_exact[OF t'] demo_regions_ok by (simp add: get_total_pages_def demo_pfa_def)
qed

end
