(* ===== verification/Kmalloc.thy ===== *)
theory Kmalloc
  imports Page_Frame_Allocator
begin

text \<open>
  The kernel heap of \<^verbatim>\<open>src/src/kernel/mm/kmalloc.cc\<close>: a bump allocator over whole pages, never
  freeing. The two globals \<^verbatim>\<open>arena\<close> and \<^verbatim>\<open>pfa\<close> are the state; the null pointer is address 0. What
  the heap needs of the page frame allocator is the locale \<open>page_allocator\<close>, interpreted below on
  \<open>SimplePFA::alloc\<close>.
\<close>

section \<open>Definitions\<close>

record ('a, 'p) kheap =
  arena :: ptr
  heap_pfa :: "'a option"
  heap_pages :: 'p

definition set_pfa :: "'a option \<Rightarrow> ('a, 'p) kheap \<Rightarrow> ('a, 'p) kheap" where
  "set_pfa a h = h\<lparr>heap_pfa := a\<rparr>"

definition get_pfa :: "('a, 'p) kheap \<Rightarrow> 'a option" where
  "get_pfa h = heap_pfa h"

text \<open>The number of pages for \<open>sz\<close> bytes; the quotient is converted to \<^verbatim>\<open>unsigned\<close>.\<close>

definition pages_for :: "size_t \<Rightarrow> u32" where
  "pages_for sz = ucast (ceil_pg (ucast sz) div ucast PG_SZ)"

definition needs_pages :: "ptr \<Rightarrow> size_t \<Rightarrow> bool" where
  "needs_pages ar sz \<longleftrightarrow> ar = 0 \<or> (ar AND (PG_SZ - 1)) + sz > PG_SZ"

definition refill ::
  "('a \<Rightarrow> 'p \<Rightarrow> u32 \<Rightarrow> (u64 option \<times> 'a \<times> 'p) option) \<Rightarrow> 'a \<Rightarrow> ('a, 'p) kheap \<Rightarrow> size_t
     \<Rightarrow> ('a, 'p) kheap option" where
  "refill al a h sz = do {
     (page_frame, a', p') \<leftarrow> al a (heap_pages h) (pages_for sz);
     ar \<leftarrow> (case page_frame of Some pf \<Rightarrow> direct_to_hhdm pf | None \<Rightarrow> Some 0);
     Some (h\<lparr>arena := ar, heap_pfa := Some a', heap_pages := p'\<rparr>)
   }"

definition kmalloc ::
  "('a \<Rightarrow> 'p \<Rightarrow> u32 \<Rightarrow> (u64 option \<times> 'a \<times> 'p) option) \<Rightarrow> ('a, 'p) kheap \<Rightarrow> size_t
     \<Rightarrow> (ptr \<times> ('a, 'p) kheap) option" where
  "kmalloc al h sz =
     (case heap_pfa h of
        None \<Rightarrow> Some (0, h)
      | Some a \<Rightarrow> do {
          h' \<leftarrow> (if needs_pages (arena h) sz then refill al a h sz else Some h);
          if arena h' = 0 then Some (0, h')
          else let obj = arena h'; ar = arena h' + sz
               in Some (obj, h'\<lparr>arena := if PG_ALIGNED ar then 0 else ar\<rparr>)
        })"

definition kfree :: "ptr \<Rightarrow> ('a, 'p) kheap \<Rightarrow> ('a, 'p) kheap option" where
  "kfree data h = do { ASSERT (data \<noteq> 0); Some h }"

text \<open>The global allocation functions.\<close>

definition operator_new ::
  "('a \<Rightarrow> 'p \<Rightarrow> u32 \<Rightarrow> (u64 option \<times> 'a \<times> 'p) option) \<Rightarrow> size_t \<Rightarrow> ('a, 'p) kheap
     \<Rightarrow> (ptr \<times> ('a, 'p) kheap) option" where
  "operator_new al sz h = kmalloc al h sz"

definition operator_delete :: "ptr \<Rightarrow> ('a, 'p) kheap \<Rightarrow> ('a, 'p) kheap option" where
  "operator_delete p h = kfree p h"

text \<open>A sequence of requests, with the objects they return.\<close>

fun kmallocs ::
  "('a \<Rightarrow> 'p \<Rightarrow> u32 \<Rightarrow> (u64 option \<times> 'a \<times> 'p) option) \<Rightarrow> ('a, 'p) kheap \<Rightarrow> size_t list
     \<Rightarrow> ((ptr \<times> size_t) list \<times> ('a, 'p) kheap) option" where
  "kmallocs al h [] = Some ([], h)"
| "kmallocs al h (sz # szs) = do {
     (obj, h1) \<leftarrow> kmalloc al h sz;
     (bs, h2) \<leftarrow> kmallocs al h1 szs;
     Some ((obj, sz) # bs, h2)
   }"

section \<open>The interface of a page allocator\<close>

text \<open>\<open>taken\<close> is the set of the pages handed out or otherwise not available.\<close>

locale page_allocator =
  fixes al :: "'a \<Rightarrow> 'p \<Rightarrow> u32 \<Rightarrow> (u64 option \<times> 'a \<times> 'p) option"
    and inv :: "'a \<Rightarrow> 'p \<Rightarrow> bool"
    and taken :: "'a \<Rightarrow> 'p \<Rightarrow> nat set"
  assumes al_some: "\<lbrakk>inv a p; al a p n = Some (Some pf, a', p')\<rbrakk> \<Longrightarrow> inv a' p' \<and>
      (\<exists>k. unat pf = 4096 * k \<and> {k..<k + unat n} \<inter> taken a p = {} \<and>
           taken a' p' = taken a p \<union> {k..<k + unat n})"
    and al_none: "\<lbrakk>inv a p; al a p n = Some (None, a', p')\<rbrakk> \<Longrightarrow> inv a' p' \<and> taken a' p' = taken a p"
    and al_total: "inv a p \<Longrightarrow> al a p n \<noteq> None"

definition pfa_taken :: "simple_pfa \<Rightarrow> pfd list \<Rightarrow> nat set" where
  "pfa_taken a p = allocated_in a p"

interpretation spfa: page_allocator alloc pfa_inv pfa_taken
proof
  fix a p n
  assume inv: "pfa_inv a p"
  show "alloc a p n \<noteq> None"
    using inv by (cases rule: alloc_cases[where n = n]) simp_all
next
  fix a p n pf a' p'
  assume inv: "pfa_inv a p" and al: "alloc a p n = Some (Some pf, a', p')"
  show "pfa_inv a' p' \<and> (\<exists>k. unat pf = 4096 * k \<and> {k..<k + unat n} \<inter> pfa_taken a p = {} \<and>
           pfa_taken a' p' = pfa_taken a p \<union> {k..<k + unat n})"
    using inv
  proof (cases rule: alloc_cases[where n = n])
    case (ok nd)
    have e: "endp a \<le> length p" "nd < 2 ^ 32" using inv ok(3) by (auto simp: pfa_inv_def)
    have eqs: "pf = push_bit PG_SZ_BITS (get_pf_offset nd)"
      "a' = a\<lparr>needle := nd, alloced_pgs := alloced_pgs a + n\<rparr>" "p' = mark_allocated nd (unat n) p"
      using ok(1) al by auto
    show ?thesis
      using alloc_inv_ok[OF inv ok(4,2,3)] allocated_in_mark[OF ok(4,2) e(1)] unat_page_addr[OF e(2)]
      unfolding eqs pfa_taken_def by (auto intro!: exI[of _ nd])
  qed (use al in simp)
next
  fix a p n a' p'
  assume inv: "pfa_inv a p" and al: "alloc a p n = Some (None, a', p')"
  show "pfa_inv a' p' \<and> pfa_taken a' p' = pfa_taken a p"
    using inv
  proof (cases rule: alloc_cases[where n = n])
    case (oom nd)
    then have "a' = a\<lparr>needle := nd\<rparr>" "p' = p" using al by auto
    then show ?thesis using inv oom(2,3) by (simp add: pfa_inv_def pfa_taken_def allocated_in_def)
  qed (use al in simp)
qed

text \<open>An allocator all of whose pages are reachable through the direct map.\<close>

locale hhdm_page_allocator = page_allocator +
  assumes taken_hhdm: "inv a p \<Longrightarrow> taken a p \<subseteq> {..<0x3DC00}"

definition hhdm_pfa_inv :: "simple_pfa \<Rightarrow> pfd list \<Rightarrow> bool" where
  "hhdm_pfa_inv a p \<longleftrightarrow> pfa_inv a p \<and> endp a \<le> 0x3DC00"

lemma alloc_endp: "pfa_inv a p \<Longrightarrow> alloc a p n = Some (r, a', p') \<Longrightarrow> endp a' = endp a"
  by (cases rule: alloc_cases[where n = n]) auto

interpretation hpfa: hhdm_page_allocator alloc hhdm_pfa_inv pfa_taken
proof
  fix a p n pf a' p'
  assume "hhdm_pfa_inv a p" and al: "alloc a p n = Some (Some pf, a', p')"
  then have i: "pfa_inv a p" "endp a \<le> 0x3DC00" by (auto simp: hhdm_pfa_inv_def)
  show "hhdm_pfa_inv a' p' \<and> (\<exists>k. unat pf = 4096 * k \<and> {k..<k + unat n} \<inter> pfa_taken a p = {} \<and>
           pfa_taken a' p' = pfa_taken a p \<union> {k..<k + unat n})"
    using spfa.al_some[OF i(1) al] alloc_endp[OF i(1) al] i(2) by (simp add: hhdm_pfa_inv_def)
next
  fix a p n a' p'
  assume "hhdm_pfa_inv a p" and al: "alloc a p n = Some (None, a', p')"
  then have i: "pfa_inv a p" "endp a \<le> 0x3DC00" by (auto simp: hhdm_pfa_inv_def)
  show "hhdm_pfa_inv a' p' \<and> pfa_taken a' p' = pfa_taken a p"
    using spfa.al_none[OF i(1) al] alloc_endp[OF i(1) al] i(2) by (simp add: hhdm_pfa_inv_def)
next
  fix a p n assume "hhdm_pfa_inv a p"
  then show "alloc a p n \<noteq> None" using spfa.al_total by (simp add: hhdm_pfa_inv_def)
next
  fix a p assume "hhdm_pfa_inv a p"
  then show "pfa_taken a p \<subseteq> {..<0x3DC00}" by (auto simp: hhdm_pfa_inv_def pfa_taken_def allocated_in_def)
qed

text \<open>
  The frames of the direct map that the allocator does not hand out: the allocated ones, the unusable ones
  (the boot page tables and the kernel image among them) and those outside its range.
\<close>

definition pfa_used :: "simple_pfa \<Rightarrow> pfd list \<Rightarrow> nat set" where
  "pfa_used a p = {k. k < 0x3DC00 \<and> \<not> (startp a \<le> k \<and> k < endp a \<and> usable (p ! k))}"

lemma pfa_used_mark:
  assumes "fits p (endp a) n nd" "startp a \<le> nd" "endp a \<le> length p" "endp a \<le> 0x3DC00"
  shows "pfa_used (a\<lparr>needle := x, alloced_pgs := y\<rparr>) (mark_allocated nd n p) = pfa_used a p \<union> {nd..<nd + n}"
    and "{nd..<nd + n} \<inter> pfa_used a p = {}"
  using assms by (auto simp: pfa_used_def nth_mark_allocated fits_def run_free_def usable_def)

interpretation upfa: hhdm_page_allocator alloc hhdm_pfa_inv pfa_used
proof
  fix a p n pf a' p'
  assume h: "hhdm_pfa_inv a p" and al: "alloc a p n = Some (Some pf, a', p')"
  then have inv: "pfa_inv a p" "endp a \<le> 0x3DC00" by (auto simp: hhdm_pfa_inv_def)
  show "hhdm_pfa_inv a' p' \<and> (\<exists>k. unat pf = 4096 * k \<and> {k..<k + unat n} \<inter> pfa_used a p = {} \<and>
           pfa_used a' p' = pfa_used a p \<union> {k..<k + unat n})"
    using inv(1)
  proof (cases rule: alloc_cases[where n = n])
    case (ok nd)
    have e: "endp a \<le> length p" "nd < 2 ^ 32" using inv(1) ok(3) by (auto simp: pfa_inv_def)
    have eqs: "pf = push_bit PG_SZ_BITS (get_pf_offset nd)"
      "a' = a\<lparr>needle := nd, alloced_pgs := alloced_pgs a + n\<rparr>" "p' = mark_allocated nd (unat n) p"
      using ok(1) al by auto
    show ?thesis
      using hpfa.al_some[OF h al] pfa_used_mark[OF ok(4,2) e(1) inv(2)] unat_page_addr[OF e(2)]
      unfolding eqs by blast
  qed (use al in simp)
next
  fix a p n a' p'
  assume h: "hhdm_pfa_inv a p" and al: "alloc a p n = Some (None, a', p')"
  then have inv: "pfa_inv a p" by (auto simp: hhdm_pfa_inv_def)
  show "hhdm_pfa_inv a' p' \<and> pfa_used a' p' = pfa_used a p"
    using inv
  proof (cases rule: alloc_cases[where n = n])
    case (oom nd)
    then have "a' = a\<lparr>needle := nd\<rparr>" "p' = p" using al by auto
    then show ?thesis using hpfa.al_none[OF h al] by (simp add: pfa_used_def)
  qed (use al in simp)
next
  fix a p n assume "hhdm_pfa_inv a p"
  then show "alloc a p n \<noteq> None" by (rule hpfa.al_total)
next
  fix a p assume "hhdm_pfa_inv a p"
  show "pfa_used a p \<subseteq> {..<0x3DC00}" by (auto simp: pfa_used_def)
qed

section \<open>Heap lemmas\<close>

definition heap_page :: "nat \<Rightarrow> nat" where
  "heap_page v = (v - 0xC0000000) div 4096"

text \<open>\<open>H\<close> is the set of the bytes that are part of some object handed out so far.\<close>

definition heap_ok ::
  "('a \<Rightarrow> 'p \<Rightarrow> bool) \<Rightarrow> ('a \<Rightarrow> 'p \<Rightarrow> nat set) \<Rightarrow> ('a, 'p) kheap \<Rightarrow> nat set \<Rightarrow> bool" where
  "heap_ok ainv taken h H \<longleftrightarrow>
     (case heap_pfa h of
        None \<Rightarrow> arena h = 0 \<and> H = {}
      | Some a \<Rightarrow> ainv a (heap_pages h) \<and>
          (\<forall>v \<in> H. 0xC0000000 \<le> v \<and> heap_page v \<in> taken a (heap_pages h)) \<and>
          (arena h \<noteq> 0 \<longrightarrow>
             0xC0000000 \<le> unat (arena h) \<and> unat (arena h) mod 4096 \<noteq> 0 \<and>
             heap_page (unat (arena h)) \<in> taken a (heap_pages h) \<and>
             (\<forall>v \<ge> unat (arena h). v div 4096 = unat (arena h) div 4096 \<longrightarrow> v \<notin> H)))"

lemma heap_page_div: "0xC0000000 \<le> v \<Longrightarrow> heap_page v = v div 4096 - 0xC0000"
  by (simp add: heap_page_def)

lemma unat_pages_for: "unat sz + 4095 < 2 ^ 32 \<Longrightarrow> unat (pages_for sz) = (unat sz + 4095) div 4096"
proof -
  assume sz: "unat sz + 4095 < 2 ^ 32"
  have "unat (ceil_pg (ucast sz)) = (unat sz + 4095) div 4096 * 4096"
    using sz by (simp add: unat_ceil_pg)
  then have "unat (ceil_pg (ucast sz) div ucast PG_SZ) = (unat sz + 4095) div 4096"
    by (simp add: unat_div_distrib memdefs)
  moreover have "(unat sz + 4095) div 4096 < 2 ^ 32" using sz by simp
  ultimately show ?thesis by (simp add: pages_for_def)
qed

lemma PG_ALIGNED_mod: "PG_ALIGNED (x :: u32) \<longleftrightarrow> unat x mod 4096 = 0"
  using PG_ALIGNED_iff[of x] by (simp add: dvd_eq_mod_eq_0)

lemma needs_pages_iff:
  assumes "unat sz + 4095 < 2 ^ 32"
  shows "needs_pages ar sz \<longleftrightarrow> ar = 0 \<or> unat ar mod 4096 + unat sz > 4096"
proof -
  have m: "PG_SZ - 1 = (mask 12 :: u32)" by (simp add: memdefs mask_eq_exp_minus_1)
  have off: "unat (ar AND (PG_SZ - 1)) = unat ar mod 4096"
    unfolding m by (simp add: unat_and_mask)
  have "unat ((ar AND (PG_SZ - 1)) + sz) = unat ar mod 4096 + unat sz"
    using assms mod_less_divisor[of 4096 "unat ar"] by (subst unat_add_no_wrap) (simp_all add: off)
  then show ?thesis by (simp add: needs_pages_def word_less_nat_alt memdefs)
qed

lemma direct_to_hhdm_unat:
  "direct_to_hhdm pf = Some v \<Longrightarrow> unat v = unat pf + 0xC0000000 \<and> unat pf < 0x3DC00000"
  by (auto simp: direct_to_hhdm_def word_less_nat_alt unat_word_ariths memdefs)

lemma block_same_page:
  fixes x s v :: nat
  assumes "x mod 4096 + s \<le> 4096" "x \<le> v" "v < x + s"
  shows "v div 4096 = x div 4096"
proof -
  have "x = x div 4096 * 4096 + x mod 4096" by simp
  then have "x div 4096 * 4096 \<le> v" "v < x div 4096 * 4096 + 4096" using assms by linarith+
  then show ?thesis by (intro div_nat_eqI) auto
qed

definition obj_block :: "ptr \<times> size_t \<Rightarrow> nat set" where
  "obj_block b = {unat (fst b)..<unat (fst b) + unat (snd b)}"

lemma page_end: "x mod 4096 + s = 4096 \<Longrightarrow> (x + s) mod 4096 = (0 :: nat)"
  using mod_add_left_eq[of x 4096 s] by simp

lemma block_below:
  fixes k n s :: nat
  assumes "k + n \<le> 0x3DC00" "s \<le> 4096 * n"
  shows "4096 * (k + 0xC0000) + s < 4294967296"
  using assms by simp

lemma block_page:
  fixes k n v :: nat
  assumes "4096 * (k + 0xC0000) \<le> v" "v < 4096 * (k + 0xC0000) + 4096 * n"
  shows "0xC0000000 \<le> v \<and> heap_page v \<in> {k..<k + n}"
proof -
  have "k + 0xC0000 \<le> v div 4096" "v div 4096 < k + 0xC0000 + n"
    using assms by (simp_all add: less_eq_div_iff_mult_less_eq div_less_iff_less_mult)
  then have "k \<le> v div 4096 - 0xC0000" "v div 4096 - 0xC0000 < k + n" by linarith+
  moreover have "0xC0000000 \<le> v" using assms(1) by simp
  ultimately show ?thesis by (simp add: heap_page_div)
qed

lemma block_tail:
  fixes x s n v :: nat
  assumes "x mod 4096 = 0" "s < 4096 * n" "v div 4096 = (x + s) div 4096"
  shows "v < x + 4096 * n"
proof -
  obtain q where q: "x = 4096 * q" using assms(1) by (auto simp: mod_eq_0_iff_dvd)
  have "v div 4096 < q + n" unfolding assms(3) using assms(2) by (simp add: q div_less_iff_less_mult)
  then show ?thesis by (simp add: q div_less_iff_less_mult algebra_simps)
qed

context hhdm_page_allocator
begin

abbreviation "hok \<equiv> heap_ok inv taken"

lemma kmalloc_in_place:
  assumes ok: "hok h H" and pfa: "heap_pfa h = Some a" and ar: "arena h \<noteq> 0"
    and fit: "unat (arena h) mod 4096 + unat sz \<le> 4096" and sz: "0 < unat sz"
  shows "hok (h\<lparr>arena := if PG_ALIGNED (arena h + sz) then 0 else arena h + sz\<rparr>)
           (H \<union> {unat (arena h)..<unat (arena h) + unat sz})"
    and "{unat (arena h)..<unat (arena h) + unat sz} \<inter> H = {}" and "unat sz < 4096"
proof -
  let ?x = "unat (arena h)" and ?T = "taken a (heap_pages h)"
  have I: "inv a (heap_pages h)" "\<forall>v \<in> H. 0xC0000000 \<le> v \<and> heap_page v \<in> ?T" "0xC0000000 \<le> ?x"
    "?x mod 4096 \<noteq> 0" "heap_page ?x \<in> ?T" "\<forall>v \<ge> ?x. v div 4096 = ?x div 4096 \<longrightarrow> v \<notin> H"
    using ok pfa ar by (simp_all add: heap_ok_def)
  show "unat sz < 4096" using fit I(4) by linarith
  have pg: "v div 4096 = ?x div 4096" if "?x \<le> v" "v < ?x + unat sz" for v
    using block_same_page[OF fit that] .
  have nH: "v \<notin> H" if "?x \<le> v" "v < ?x + unat sz" for v using I(6) pg[OF that] that(1) by blast
  then show "{?x..<?x + unat sz} \<inter> H = {}" by (auto simp del: div_eq_0_iff)
  have "?x div 4096 - 0xC0000 < 0x3DC00" using taken_hhdm[OF I(1)] I(5) heap_page_div[OF I(3)] by auto
  then have "?x div 4096 < 0xFDC00" by linarith
  then have "?x + unat sz < 4294967296" using fit div_mult_mod_eq[of ?x 4096] by linarith
  then have u: "unat (arena h + sz) = ?x + unat sz" by (intro unat_add_no_wrap) simp
  have rest: "(?x + unat sz) div 4096 = ?x div 4096" if "(?x + unat sz) mod 4096 \<noteq> 0"
  proof -
    have "?x mod 4096 + unat sz \<noteq> 4096"
    proof
      assume "?x mod 4096 + unat sz = 4096"
      then have "(?x + unat sz) mod 4096 = 0" by (rule page_end)
      then show False using that by simp
    qed
    then show ?thesis using fit block_same_page[of ?x "unat sz + 1" "?x + unat sz"] by simp
  qed
  show "hok (h\<lparr>arena := if PG_ALIGNED (arena h + sz) then 0 else arena h + sz\<rparr>) (H \<union> {?x..<?x + unat sz})"
  proof -
    have "0xC0000000 \<le> v \<and> heap_page v \<in> ?T" if "v \<in> H \<union> {?x..<?x + unat sz}" for v
    proof (cases "v \<in> H")
      case False
      then have v: "?x \<le> v" "v < ?x + unat sz" using that by simp_all
      then have "heap_page v = heap_page ?x" using pg[OF v] I(3) by (simp add: heap_page_div)
      then show ?thesis using v(1) I(3,5) by simp
    qed (use I(2) in blast)
    moreover have "heap_page (?x + unat sz) \<in> ?T" if "(?x + unat sz) mod 4096 \<noteq> 0"
      using rest[OF that] I(3,5) by (simp add: heap_page_div)
    moreover have "v \<notin> H \<union> {?x..<?x + unat sz}"
      if "(?x + unat sz) mod 4096 \<noteq> 0" "?x + unat sz \<le> v" "v div 4096 = (?x + unat sz) div 4096" for v
    proof -
      have "v div 4096 = ?x div 4096" "?x \<le> v" using rest[OF that(1)] that(2,3) by simp_all
      then have "v \<notin> H" using I(6) by blast
      then show ?thesis using that(2) by simp
    qed
    ultimately show ?thesis using I(1,3) pfa by (simp add: heap_ok_def PG_ALIGNED_mod u)
  qed
qed

lemma kmalloc_refilled:
  assumes ok: "hok h H" and pfa: "heap_pfa h = Some a"
    and al: "al a (heap_pages h) (pages_for sz) = Some (Some pf, a', p')"
    and hh: "direct_to_hhdm pf = Some x" and sz: "0 < unat sz" "unat sz + 4095 < 2 ^ 32"
  shows "hok (h\<lparr>arena := if PG_ALIGNED (x + sz) then 0 else x + sz, heap_pfa := Some a', heap_pages := p'\<rparr>)
           (H \<union> {unat x..<unat x + unat sz})"
    and "{unat x..<unat x + unat sz} \<inter> H = {}" and "unat x mod 4096 = 0"
proof -
  let ?T = "taken a (heap_pages h)"
  obtain n where pn: "unat (pages_for sz) = n" and nb: "unat sz \<le> 4096 * n" "0 < n"
  proof
    show "unat (pages_for sz) = (unat sz + 4095) div 4096" by (rule unat_pages_for[OF sz(2)])
    show "unat sz \<le> 4096 * ((unat sz + 4095) div 4096)" "0 < (unat sz + 4095) div 4096"
      using sz(1) by linarith+
  qed
  have I: "inv a (heap_pages h)" "\<And>v. v \<in> H \<Longrightarrow> 0xC0000000 \<le> v \<and> heap_page v \<in> ?T"
    using ok pfa by (simp_all add: heap_ok_def)
  obtain k where k: "unat pf = 4096 * k" "{k..<k + n} \<inter> ?T = {}" "taken a' p' = ?T \<union> {k..<k + n}"
    and inv': "inv a' p'"
    using al_some[OF I(1) al] unfolding pn by blast
  have x: "unat x = 4096 * (k + 0xC0000)" using direct_to_hhdm_unat[OF hh] k(1) by simp
  have "k + n - 1 \<in> {k..<k + n}" using nb(2) by simp
  then have "k + n - 1 \<in> {..<0x3DC00}" using taken_hhdm[OF inv'] k(3) by blast
  then have "k + n \<le> 0x3DC00" using nb(2) unfolding lessThan_iff by linarith
  then have lim: "unat x + unat sz < 4294967296" unfolding x by (rule block_below[OF _ nb(1)])
  have u: "unat (x + sz) = unat x + unat sz" using lim by (intro unat_add_no_wrap) simp
  show "unat x mod 4096 = 0" using x by simp
  have pg: "0xC0000000 \<le> v \<and> heap_page v \<in> {k..<k + n}" if "unat x \<le> v" "v < unat x + 4096 * n" for v
    using block_page[OF that[unfolded x]] .
  have new: "v \<notin> H" if "unat x \<le> v" "v < unat x + 4096 * n" for v
    using pg[OF that] I(2)[of v] k(2) by blast
  show "{unat x..<unat x + unat sz} \<inter> H = {}"
  proof (rule equals0I)
    fix v assume "v \<in> {unat x..<unat x + unat sz} \<inter> H"
    then show False using new[of v] nb(1) by simp
  qed
  have inT: "0xC0000000 \<le> v \<and> heap_page v \<in> taken a' p'" if "v \<in> H \<union> {unat x..<unat x + unat sz}" for v
  proof (cases "v \<in> H")
    case False
    then have "unat x \<le> v" "v < unat x + 4096 * n" using that nb(1) by simp_all
    then show ?thesis using pg k(3) by blast
  qed (use I(2) k(3) in blast)
  have tail: "unat x + unat sz < unat x + 4096 * n" if "(unat x + unat sz) mod 4096 \<noteq> 0"
  proof -
    have "(unat x + 4096 * n) mod 4096 = 0" using x by simp
    then have "unat sz \<noteq> 4096 * n" using that by metis
    then show ?thesis using nb(1) by linarith
  qed
  have after: "v < unat x + 4096 * n"
    if "(unat x + unat sz) mod 4096 \<noteq> 0" "v div 4096 = (unat x + unat sz) div 4096" for v
    by (rule block_tail[OF _ _ that(2)]) (use x tail[OF that(1)] in simp_all)
  have "hok (h\<lparr>arena := if (unat x + unat sz) mod 4096 = 0 then 0 else x + sz, heap_pfa := Some a',
      heap_pages := p'\<rparr>) (H \<union> {unat x..<unat x + unat sz})"
  proof (cases "(unat x + unat sz) mod 4096 = 0")
    case True
    then show ?thesis using inv' inT by (simp add: heap_ok_def)
  next
    case False
    have "v \<notin> H \<union> {unat x..<unat x + unat sz}"
      if "unat x + unat sz \<le> v" "v div 4096 = (unat x + unat sz) div 4096" for v
      using new[OF _ after[OF False that(2)]] that(1) by simp
    then show ?thesis
      using False inv' inT pg[OF _ tail[OF False]] k(3) x by (simp add: heap_ok_def u)
  qed
  then show "hok (h\<lparr>arena := if PG_ALIGNED (x + sz) then 0 else x + sz, heap_pfa := Some a', heap_pages := p'\<rparr>)
           (H \<union> {unat x..<unat x + unat sz})"
    by (simp add: PG_ALIGNED_mod u)
qed

text \<open>A block is disjoint from everything handed out before; a page or more is page aligned.\<close>

lemma kmalloc_fresh:
  assumes ok: "hok h H" and sz: "0 < unat sz" "unat sz + 4095 < 2 ^ 32"
    and km: "kmalloc al h sz = Some (obj, h')" and obj: "obj \<noteq> 0"
  shows "hok h' (H \<union> {unat obj..<unat obj + unat sz}) \<and> {unat obj..<unat obj + unat sz} \<inter> H = {} \<and>
    (4096 \<le> unat sz \<longrightarrow> unat obj mod 4096 = 0)"
proof -
  obtain a where pfa: "heap_pfa h = Some a" using km obj by (auto simp: kmalloc_def split: option.splits)
  show ?thesis
  proof (cases "needs_pages (arena h) sz")
    case False
    then have fit: "arena h \<noteq> 0" "unat (arena h) mod 4096 + unat sz \<le> 4096"
      using needs_pages_iff[OF sz(2)] by auto
    have "obj = arena h" "h' = h\<lparr>arena := if PG_ALIGNED (arena h + sz) then 0 else arena h + sz\<rparr>"
      using km False fit(1) pfa by (auto simp: kmalloc_def Let_def)
    then show ?thesis using kmalloc_in_place[OF ok pfa fit sz(1)] by simp
  next
    case True
    then obtain pf a' p' x where al: "al a (heap_pages h) (pages_for sz) = Some (Some pf, a', p')"
        "direct_to_hhdm pf = Some x" "obj = x"
        "h' = h\<lparr>arena := if PG_ALIGNED (x + sz) then 0 else x + sz, heap_pfa := Some a', heap_pages := p'\<rparr>"
      using km obj pfa
      by (auto simp: kmalloc_def refill_def Let_def split: bind_splits option.splits if_splits)
    then show ?thesis using kmalloc_refilled[OF ok pfa al(1,2) sz] by simp
  qed
qed

lemma kmalloc_null:
  assumes ok: "hok h H" and km: "kmalloc al h sz = Some (0, h')"
  shows "hok h' H"
proof (cases "heap_pfa h")
  case None
  then show ?thesis using ok km by (simp add: kmalloc_def)
next
  case (Some a)
  have inv: "inv a (heap_pages h)" using ok Some by (simp add: heap_ok_def)
  show ?thesis
  proof (cases "needs_pages (arena h) sz")
    case False
    then show ?thesis using km Some by (auto simp: kmalloc_def Let_def needs_pages_def)
  next
    case True
    have "direct_to_hhdm pf \<noteq> Some 0" for pf using direct_to_hhdm_unat[of pf 0] by auto
    then obtain a' p' where "al a (heap_pages h) (pages_for sz) = Some (None, a', p')"
        "h' = h\<lparr>arena := 0, heap_pfa := Some a', heap_pages := p'\<rparr>"
      using km Some True
      by (auto simp: kmalloc_def refill_def Let_def split: bind_splits option.splits if_splits)
    then show ?thesis using al_none[OF inv] ok Some by (auto simp: heap_ok_def)
  qed
qed

lemma kmallocs_disjoint:
  assumes "hok h H" and "kmallocs al h szs = Some (bs, h')"
    and "\<forall>sz \<in> set szs. 0 < unat sz \<and> unat sz + 4095 < 2 ^ 32"
  shows "sorted_wrt (\<lambda>b c. fst b \<noteq> 0 \<longrightarrow> fst c \<noteq> 0 \<longrightarrow> obj_block b \<inter> obj_block c = {}) bs \<and>
    (\<forall>b \<in> set bs. fst b \<noteq> 0 \<longrightarrow> obj_block b \<inter> H = {} \<and> (4096 \<le> unat (snd b) \<longrightarrow> unat (fst b) mod 4096 = 0))"
  using assms
proof (induction szs arbitrary: h H bs)
  case (Cons sz szs)
  obtain obj h1 bs' where k: "kmalloc al h sz = Some (obj, h1)" "kmallocs al h1 szs = Some (bs', h')"
      "bs = (obj, sz) # bs'"
    using Cons.prems(2) by (auto split: bind_splits)
  have sz: "0 < unat sz" "unat sz + 4095 < 2 ^ 32" using Cons.prems(3) by auto
  show ?case
  proof (cases "obj = 0")
    case True
    then have "hok h1 H" using kmalloc_null[OF Cons.prems(1)] k(1) by simp
    from Cons.IH[OF this k(2)] Cons.prems(3) show ?thesis using True by (auto simp: k(3))
  next
    case False
    have f: "hok h1 (H \<union> obj_block (obj, sz)) \<and> obj_block (obj, sz) \<inter> H = {} \<and>
        (4096 \<le> unat sz \<longrightarrow> unat obj mod 4096 = 0)"
      using kmalloc_fresh[OF Cons.prems(1) sz k(1) False] by (simp add: obj_block_def)
    from Cons.IH[OF conjunct1[OF f] k(2)] Cons.prems(3)
    have IH: "sorted_wrt (\<lambda>b c. fst b \<noteq> 0 \<longrightarrow> fst c \<noteq> 0 \<longrightarrow> obj_block b \<inter> obj_block c = {}) bs'"
      "\<forall>b \<in> set bs'. fst b \<noteq> 0 \<longrightarrow> obj_block b \<inter> (H \<union> obj_block (obj, sz)) = {} \<and>
        (4096 \<le> unat (snd b) \<longrightarrow> unat (fst b) mod 4096 = 0)"
      by simp_all
    then have "\<forall>b \<in> set bs'. fst b \<noteq> 0 \<longrightarrow> obj_block b \<inter> H = {} \<and> obj_block (obj, sz) \<inter> obj_block b = {}"
      by blast
    then show ?thesis using f IH unfolding k(3) by simp
  qed
qed simp

end

section \<open>Properties\<close>

text \<open>
  C11. The objects that any sequence of \<open>kmalloc\<close> calls returns never overlap, and an object of a page or
  more is page aligned (as \<^verbatim>\<open>vmalloc\<close> and the thread stacks rely on). The heap starts on a page frame
  allocator for memory inside the direct map; requests are nonempty and at least a page below 4 GiB.
\<close>

theorem kmalloc_objects_disjoint:
  assumes "hhdm_pfa_inv a p"
    and "kmallocs alloc \<lparr>arena = 0, heap_pfa = Some a, heap_pages = p\<rparr> szs = Some (objs, h)"
    and "\<forall>sz \<in> set szs. 0 < unat sz \<and> unat sz + 4095 < 2 ^ 32"
  shows "sorted_wrt (\<lambda>(x, s) (y, t). x \<noteq> 0 \<longrightarrow> y \<noteq> 0 \<longrightarrow>
      {unat x..<unat x + unat s} \<inter> {unat y..<unat y + unat t} = {}) objs \<and>
    (\<forall>(x, s) \<in> set objs. x \<noteq> 0 \<longrightarrow> 4096 \<le> unat s \<longrightarrow> unat x mod 4096 = 0)"
proof -
  have "heap_ok hhdm_pfa_inv pfa_taken \<lparr>arena = 0, heap_pfa = Some a, heap_pages = p\<rparr> {}"
    using assms(1) by (simp add: heap_ok_def)
  from hpfa.kmallocs_disjoint[OF this assms(2,3)] show ?thesis
    by (simp add: case_prod_beta' obj_block_def)
qed

theorem kmalloc_objects_disjoint_witness:
  "\<exists>h. kmallocs alloc \<lparr>arena = 0, heap_pfa = Some demo_pfa, heap_pages = demo_pages\<rparr> [24, 4096, 40] =
     Some ([(0xC0001000, 24), (0xC0002000, 4096), (0xC0003000, 40)], h) \<and>
     {0xC0001000..<0xC0001018} \<inter> {0xC0003000..<0xC0003028 :: nat} = {}"
proof -
  let ?h = "\<lparr>arena = 0, heap_pfa = Some demo_pfa, heap_pages = demo_pages\<rparr>"
  have inv: "hhdm_pfa_inv demo_pfa demo_pages"
    using demo_pfa_inv by (simp add: hhdm_pfa_inv_def demo_pfa_def)
  have "map_option fst (kmallocs alloc ?h [24, 4096, 40]) =
      Some [(0xC0001000, 24), (0xC0002000, 4096), (0xC0003000, 40)]"
    by code_simp
  then obtain h where h: "kmallocs alloc ?h [24, 4096, 40] =
      Some ([(0xC0001000, 24), (0xC0002000, 4096), (0xC0003000, 40)], h)" by auto
  then show ?thesis using kmalloc_objects_disjoint[OF inv h] by auto
qed

text \<open>
  The size check of \<open>kmalloc\<close> is a 32-bit sum: a request of nearly 4 GiB wraps it around, is served
  from the rest of the current page and moves the arena backwards, although no page was allocated.
\<close>

theorem kmalloc_huge_wraps:
  assumes "heap_pfa h = Some a" and "arena h \<noteq> 0" and "2 ^ 32 \<le> unat (arena h) mod 4096 + unat sz"
  shows "\<exists>h'. kmalloc al h sz = Some (arena h, h') \<and> heap_pages h' = heap_pages h \<and>
    heap_pfa h' = Some a \<and> (arena h' = 0 \<or> unat (arena h') < unat (arena h))"
proof -
  have m: "PG_SZ - 1 = (mask 12 :: u32)" by (simp add: memdefs mask_eq_exp_minus_1)
  have off: "unat (arena h AND (PG_SZ - 1)) = unat (arena h) mod 4096"
    unfolding m by (simp add: unat_and_mask)
  have lt: "unat sz < 2 ^ 32" "unat (arena h) < 2 ^ 32" by (simp_all add: unat_lt_u32)
  have "unat ((arena h AND (PG_SZ - 1)) + sz) = unat (arena h) mod 4096 + unat sz - 2 ^ 32"
    using unat_add_wrap[of "arena h AND (PG_SZ - 1)" sz] assms(3) by (simp add: off)
  then have np: "\<not> needs_pages (arena h) sz"
    using assms(2) lt mod_less_divisor[of 4096 "unat (arena h)"]
    by (simp add: needs_pages_def word_less_nat_alt memdefs)
  have "unat (arena h) mod 4096 \<le> unat (arena h)" by simp
  then have "2 ^ 32 \<le> unat (arena h) + unat sz" using assms(3) by linarith
  then have "unat (arena h + sz) = unat (arena h) + unat sz - 2 ^ 32"
    using unat_add_wrap[of "arena h" sz] by simp
  then have "unat (arena h + sz) < unat (arena h)" using lt \<open>2 ^ 32 \<le> unat (arena h) + unat sz\<close> by linarith
  then show ?thesis using np assms(1,2) by (auto simp: kmalloc_def Let_def)
qed

theorem kmalloc_huge_wraps_witness:
  "\<exists>h'. kmalloc alloc \<lparr>arena = 0xC0001018, heap_pfa = Some demo_pfa, heap_pages = demo_pages\<rparr> 0xFFFFFFF0 =
     Some (0xC0001018, h') \<and> heap_pages h' = demo_pages"
  using kmalloc_huge_wraps[of "\<lparr>arena = 0xC0001018, heap_pfa = Some demo_pfa, heap_pages = demo_pages\<rparr>"
      demo_pfa "0xFFFFFFF0" alloc] by auto

end
