(* ===== verification/Page_Table.thy ===== *)
theory Page_Table
  imports Kmalloc
begin

text \<open>
  The x86 page tables of \<^verbatim>\<open>src/src/kernel/arch/x86/page_table.cc\<close> and the virtual memory operations of
  \<^verbatim>\<open>src/src/kernel/mm/virt.cc\<close>. Physical memory is an array of 32-bit words, \<open>pmem i\<close> being the word at
  physical address \<open>4 * i\<close>; a table is reached through the direct map, so an element of a table is the
  word at its pointer less \<^verbatim>\<open>hhdm_start\<close>. Bit-fields are packed from the least significant bit. The
  page heap is threaded through; \<open>newp\<close> is \<^verbatim>\<open>::operator new(PG_SZ)\<close>, interpreted below on the kernel heap.
\<close>

section \<open>Definitions\<close>

subsection \<open>Entries\<close>

record PageDirectoryEntry =
  pde_p :: bool
  pde_r_w :: bool
  pde_u_s :: bool
  pde_pwt :: bool
  pde_pcd :: bool
  pde_a :: bool
  pde_ign0 :: bool
  pde_ps :: bool
  pde_ign1 :: "4 word"
  pde_addr :: "20 word"

record PageDirectoryHugepageEntry =
  hpde_p :: bool
  hpde_r_w :: bool
  hpde_u_s :: bool
  hpde_pwt :: bool
  hpde_pcd :: bool
  hpde_a :: bool
  hpde_d :: bool
  hpde_ps :: bool
  hpde_g :: bool
  hpde_ign0 :: "3 word"
  hpde_pat :: bool
  hpde_addr_ext :: u8
  hpde_rsv0 :: bool
  hpde_addr :: "10 word"

record PageTableEntry =
  pte_p :: bool
  pte_r_w :: bool
  pte_u_s :: bool
  pte_pwt :: bool
  pte_pcd :: bool
  pte_a :: bool
  pte_d :: bool
  pte_pat :: bool
  pte_g :: bool
  pte_ign0 :: "3 word"
  pte_addr :: "20 word"

definition flag :: "nat \<Rightarrow> bool \<Rightarrow> u32" where "flag i b = push_bit i (of_bool b)"

definition field :: "nat \<Rightarrow> u32 \<Rightarrow> 'a::len word" where "field i w = ucast (drop_bit i w)"

definition pde_word :: "PageDirectoryEntry \<Rightarrow> u32" where
  "pde_word e = flag 0 (pde_p e) OR flag 1 (pde_r_w e) OR flag 2 (pde_u_s e) OR flag 3 (pde_pwt e) OR
     flag 4 (pde_pcd e) OR flag 5 (pde_a e) OR flag 6 (pde_ign0 e) OR flag 7 (pde_ps e) OR
     push_bit 8 (ucast (pde_ign1 e)) OR push_bit 12 (ucast (pde_addr e))"

definition word_pde :: "u32 \<Rightarrow> PageDirectoryEntry" where
  "word_pde w = \<lparr>pde_p = bit w 0, pde_r_w = bit w 1, pde_u_s = bit w 2, pde_pwt = bit w 3, pde_pcd = bit w 4,
     pde_a = bit w 5, pde_ign0 = bit w 6, pde_ps = bit w 7, pde_ign1 = field 8 w, pde_addr = field 12 w\<rparr>"

definition word_hpde :: "u32 \<Rightarrow> PageDirectoryHugepageEntry" where
  "word_hpde w = \<lparr>hpde_p = bit w 0, hpde_r_w = bit w 1, hpde_u_s = bit w 2, hpde_pwt = bit w 3, hpde_pcd = bit w 4,
     hpde_a = bit w 5, hpde_d = bit w 6, hpde_ps = bit w 7, hpde_g = bit w 8, hpde_ign0 = field 9 w,
     hpde_pat = bit w 12, hpde_addr_ext = field 13 w, hpde_rsv0 = bit w 21, hpde_addr = field 22 w\<rparr>"

definition pte_word :: "PageTableEntry \<Rightarrow> u32" where
  "pte_word e = flag 0 (pte_p e) OR flag 1 (pte_r_w e) OR flag 2 (pte_u_s e) OR flag 3 (pte_pwt e) OR
     flag 4 (pte_pcd e) OR flag 5 (pte_a e) OR flag 6 (pte_d e) OR flag 7 (pte_pat e) OR flag 8 (pte_g e) OR
     push_bit 9 (ucast (pte_ign0 e)) OR push_bit 12 (ucast (pte_addr e))"

definition word_pte :: "u32 \<Rightarrow> PageTableEntry" where
  "word_pte w = \<lparr>pte_p = bit w 0, pte_r_w = bit w 1, pte_u_s = bit w 2, pte_pwt = bit w 3, pte_pcd = bit w 4,
     pte_a = bit w 5, pte_d = bit w 6, pte_pat = bit w 7, pte_g = bit w 8, pte_ign0 = field 9 w, pte_addr = field 12 w\<rparr>"

subsection \<open>Memory\<close>

record 'h mmu =
  pmem :: "nat \<Rightarrow> u32"
  cr3 :: u32
  invlpg :: "ptr list"
  pages :: 'h

definition elem :: "ptr \<Rightarrow> u32 \<Rightarrow> nat" where
  "elem table i = unat (table - hhdm_start) div 4 + unat i"

definition clear_page :: "ptr \<Rightarrow> 'h mmu \<Rightarrow> 'h mmu" where
  "clear_page pg s = s\<lparr>pmem := \<lambda>i. if elem pg 0 \<le> i \<and> i < elem pg 0 + 1024 then 0 else pmem s i\<rparr>"

definition copy_page :: "ptr \<Rightarrow> ptr \<Rightarrow> 'h mmu \<Rightarrow> 'h mmu" where
  "copy_page dst src s =
     s\<lparr>pmem := \<lambda>i. if elem dst 0 \<le> i \<and> i < elem dst 0 + 1024 then pmem s (elem src 0 + (i - elem dst 0)) else pmem s i\<rparr>"

definition set_word :: "nat \<Rightarrow> u32 \<Rightarrow> 'h mmu \<Rightarrow> 'h mmu" where
  "set_word i w s = s\<lparr>pmem := (pmem s)(i := w)\<rparr>"

subsection \<open>The operations of the kernel\<close>

definition get_page_directory :: "'h mmu \<Rightarrow> ptr option" where
  "get_page_directory s = direct_to_hhdm (ucast (cr3 s))"

definition pd_index :: "ptr \<Rightarrow> u32" where "pd_index virt = drop_bit 10 (drop_bit 12 virt)"

definition pt_index :: "ptr \<Rightarrow> u32" where "pt_index virt = drop_bit 12 virt AND 0x3FF"

definition table_of :: "PageDirectoryEntry \<Rightarrow> ptr option" where
  "table_of pde = direct_to_hhdm (ucast (push_bit 12 (ucast (pde_addr pde)) :: u32))"

definition fetch_pte :: "ptr \<Rightarrow> 'h mmu \<Rightarrow> nat option option" where
  "fetch_pte virt s = do {
     ASSERT (PG_ALIGNED virt);
     pd \<leftarrow> get_page_directory s;
     let pde = word_pde (pmem s (elem pd (pd_index virt)));
     if \<not> pde_p pde then Some None
     else do {
       ASSERT (\<not> pde_ps pde);
       pt \<leftarrow> table_of pde;
       Some (Some (elem pt (pt_index virt)))
     }
   }"

definition new_pde :: "u64 \<Rightarrow> PageDirectoryEntry" where
  "new_pde phys = \<lparr>pde_p = True, pde_r_w = True, pde_u_s = True, pde_pwt = False, pde_pcd = False, pde_a = False,
     pde_ign0 = False, pde_ps = False, pde_ign1 = 0, pde_addr = ucast (drop_bit 12 phys)\<rparr>"

definition new_pte :: "u64 \<Rightarrow> bool \<Rightarrow> bool \<Rightarrow> bool \<Rightarrow> PageTableEntry" where
  "new_pte phys u_s r_w uncacheable = \<lparr>pte_p = True, pte_r_w = r_w, pte_u_s = u_s, pte_pwt = False, pte_pcd = uncacheable,
     pte_a = False, pte_d = False, pte_pat = False, pte_g = True, pte_ign0 = 0, pte_addr = ucast (drop_bit 12 phys)\<rparr>"

text \<open>Make the directory entry of \<open>virt\<close> present; \<open>None\<close> as the entry when no page can be allocated.\<close>

definition ensure_pde ::
  "('h \<Rightarrow> (ptr \<times> 'h) option) \<Rightarrow> ptr \<Rightarrow> 'h mmu \<Rightarrow> (PageDirectoryEntry option \<times> 'h mmu) option" where
  "ensure_pde newp virt s = do {
     pd \<leftarrow> get_page_directory s;
     let e = elem pd (pd_index virt);
     let pde = word_pde (pmem s e);
     if pde_p pde then do { ASSERT (\<not> pde_ps pde); Some (Some pde, s) }
     else do {
       (page_table, h') \<leftarrow> newp (pages s);
       if page_table = 0 then Some (None, s\<lparr>pages := h'\<rparr>)
       else do {
         let s1 = clear_page page_table (s\<lparr>pages := h'\<rparr>);
         phys \<leftarrow> hhdm_to_direct page_table;
         let pde' = new_pde phys;
         Some (Some pde', set_word e (pde_word pde') s1)
       }
     }
   }"

definition map_page ::
  "('h \<Rightarrow> (ptr \<times> 'h) option) \<Rightarrow> u64 \<Rightarrow> ptr \<Rightarrow> bool \<Rightarrow> bool \<Rightarrow> bool \<Rightarrow> 'h mmu \<Rightarrow> (bool \<times> 'h mmu) option" where
  "map_page newp phys virt u_s r_w uncacheable s = do {
     ASSERT (PG_ALIGNED phys);
     ASSERT (PG_ALIGNED virt);
     (pde, s1) \<leftarrow> ensure_pde newp virt s;
     case pde of
       None \<Rightarrow> Some (False, s1)
     | Some pde \<Rightarrow> do {
         pt \<leftarrow> table_of pde;
         let i = elem pt (pt_index virt);
         if pte_p (word_pte (pmem s1 i)) then Some (False, s1)
         else Some (True, set_word i (pte_word (new_pte phys u_s r_w uncacheable)) s1)
       }
   }"

definition unmap :: "ptr \<Rightarrow> 'h mmu \<Rightarrow> (bool \<times> 'h mmu) option" where
  "unmap virt s = do {
     pte \<leftarrow> fetch_pte virt s;
     case pte of
       None \<Rightarrow> Some (False, s)
     | Some i \<Rightarrow>
         let e = word_pte (pmem s i)
         in if \<not> pte_p e then Some (False, s)
            else Some (True, set_word i (pte_word (e\<lparr>pte_p := False\<rparr>)) s\<lparr>invlpg := virt # invlpg s\<rparr>)
   }"

definition mark_uncacheable :: "ptr \<Rightarrow> 'h mmu \<Rightarrow> (bool \<times> 'h mmu) option" where
  "mark_uncacheable virt s = do {
     pte \<leftarrow> fetch_pte virt s;
     case pte of
       None \<Rightarrow> Some (False, s)
     | Some i \<Rightarrow>
         let e = word_pte (pmem s i)
         in if \<not> pte_p e then Some (False, s)
            else Some (True, set_word i (pte_word (e\<lparr>pte_pcd := True\<rparr>)) s\<lparr>invlpg := virt # invlpg s\<rparr>)
   }"

text \<open>
  The copy of the kernel half of the directory. The allocations are not checked; a null result would be
  written through, which is \<open>None\<close> here.
\<close>

definition clone_entry ::
  "('h \<Rightarrow> (ptr \<times> 'h) option) \<Rightarrow> ptr \<Rightarrow> ptr \<Rightarrow> u32 \<Rightarrow> 'h mmu \<Rightarrow> 'h mmu option" where
  "clone_entry newp pd new_pd i s =
     (let w = pmem s (elem pd i); pde = word_pde w
      in if \<not> pde_p pde then Some s
         else if pde_ps pde then Some (set_word (elem new_pd i) w s)
         else do {
           (page_table, h') \<leftarrow> newp (pages s);
           if page_table = 0 then None
           else do {
             src \<leftarrow> table_of pde;
             phys \<leftarrow> hhdm_to_direct page_table;
             let s1 = copy_page page_table src (s\<lparr>pages := h'\<rparr>);
             Some (set_word (elem new_pd i) (pde_word (pde\<lparr>pde_addr := ucast (drop_bit 12 phys)\<rparr>)) s1)
           }
         })"

fun clone_loop ::
  "('h \<Rightarrow> (ptr \<times> 'h) option) \<Rightarrow> ptr \<Rightarrow> ptr \<Rightarrow> nat list \<Rightarrow> 'h mmu \<Rightarrow> 'h mmu option" where
  "clone_loop newp pd new_pd [] s = Some s"
| "clone_loop newp pd new_pd (i # is) s = clone_entry newp pd new_pd (of_nat i) s \<bind> clone_loop newp pd new_pd is"

definition clone_kernel_page_directory ::
  "('h \<Rightarrow> (ptr \<times> 'h) option) \<Rightarrow> 'h mmu \<Rightarrow> (ptr \<times> 'h mmu) option" where
  "clone_kernel_page_directory newp s = do {
     pd \<leftarrow> get_page_directory s;
     (new_pd, h') \<leftarrow> newp (pages s);
     if new_pd = 0 then None
     else do {
       s' \<leftarrow> clone_loop newp pd new_pd [unat (hhdm_start div HUGE_PG_SZ)..<1024] (clear_page new_pd (s\<lparr>pages := h'\<rparr>));
       Some (new_pd, s')
     }
   }"

definition set_page_directory :: "ptr \<Rightarrow> 'h mmu \<Rightarrow> 'h mmu option" where
  "set_page_directory pde s = do { phys \<leftarrow> hhdm_to_direct pde; Some (s\<lparr>cr3 := ucast phys\<rparr>) }"

text \<open>The lines printed by \<^verbatim>\<open>enumerate_page_tables\<close>: virtual address, physical address, hugepage.\<close>

definition enumerate_page_table :: "ptr \<Rightarrow> u32 \<Rightarrow> 'h mmu \<Rightarrow> (u32 \<times> u64 \<times> bool) list" where
  "enumerate_page_table table idx s =
     map (\<lambda>i. (idx * HUGE_PG_SZ + push_bit 12 (of_nat i), push_bit 12 (ucast (pte_addr (word_pte (pmem s (elem table (of_nat i)))))), False))
       (filter (\<lambda>i. pte_p (word_pte (pmem s (elem table (of_nat i))))) [0..<1024])"

fun enumerate_loop :: "ptr \<Rightarrow> nat list \<Rightarrow> 'h mmu \<Rightarrow> (u32 \<times> u64 \<times> bool) list option" where
  "enumerate_loop pd [] s = Some []"
| "enumerate_loop pd (i # is) s =
     (let w = pmem s (elem pd (of_nat i)); pde = word_pde w
      in do {
        ls \<leftarrow> (if \<not> pde_p pde then Some []
               else if pde_ps pde then Some [(of_nat i * HUGE_PG_SZ, ucast (hpde_addr (word_hpde w)) * ucast HUGE_PG_SZ, True)]
               else do { pt \<leftarrow> table_of pde; Some (enumerate_page_table pt (of_nat i) s) });
        ls' \<leftarrow> enumerate_loop pd is s;
        Some (ls @ ls')
      })"

definition enumerate_page_tables :: "'h mmu \<Rightarrow> (u32 \<times> u64 \<times> bool) list option" where
  "enumerate_page_tables s = do { pd \<leftarrow> get_page_directory s; enumerate_loop pd [0..<1024] s }"

subsection \<open>Virtual memory regions\<close>

text \<open>The loop counters are \<^verbatim>\<open>int\<close> in \<^verbatim>\<open>ioremap\<close> and \<^verbatim>\<open>unsigned\<close> in \<^verbatim>\<open>vmalloc\<close>.\<close>

definition page_off :: "nat \<Rightarrow> u32" where "page_off i = push_bit 12 (of_nat i)"

fun ioremap_loop ::
  "('h \<Rightarrow> (ptr \<times> 'h) option) \<Rightarrow> u64 \<Rightarrow> ptr \<Rightarrow> nat list \<Rightarrow> 'h mmu \<Rightarrow> (bool \<times> 'h mmu) option" where
  "ioremap_loop newp phys virt [] s = Some (True, s)"
| "ioremap_loop newp phys virt (i # is) s = do {
     (ok, s') \<leftarrow> map_page newp (phys + scast (page_off i)) (virt + page_off i) False True True s;
     if \<not> ok then Some (False, s') else ioremap_loop newp phys virt is s'
   }"

definition ioremap ::
  "('h \<Rightarrow> (ptr \<times> 'h) option) \<Rightarrow> u64 \<Rightarrow> ptr \<Rightarrow> u32 \<Rightarrow> 'h mmu \<Rightarrow> (bool \<times> 'h mmu) option" where
  "ioremap newp phys virt pg s = ioremap_loop newp phys virt [0..<unat pg] s"

definition io_alloc :: "u32 \<Rightarrow> size_t \<Rightarrow> ptr \<times> size_t" where
  "io_alloc pg io_region_offset =
     (if io_region_offset + push_bit 12 pg > IO_MAP_SZ then (0, io_region_offset)
      else (io_map_start + io_region_offset, io_region_offset + push_bit 12 pg))"

fun vmalloc_loop ::
  "('h \<Rightarrow> (ptr \<times> 'h) option) \<Rightarrow> ptr \<Rightarrow> bool \<Rightarrow> nat list \<Rightarrow> 'h mmu \<Rightarrow> (bool \<times> 'h mmu) option" where
  "vmalloc_loop newp virt writable [] s = Some (True, s)"
| "vmalloc_loop newp virt writable (i # is) s = do {
     (pg, h') \<leftarrow> newp (pages s);
     if pg = 0 then Some (False, s\<lparr>pages := h'\<rparr>)
     else do {
       phys \<leftarrow> hhdm_to_direct pg;
       (ok, s') \<leftarrow> map_page newp phys (virt + page_off i) True writable False (s\<lparr>pages := h'\<rparr>);
       if \<not> ok then Some (False, s') else vmalloc_loop newp virt writable is s'
     }
   }"

definition vmalloc ::
  "('h \<Rightarrow> (ptr \<times> 'h) option) \<Rightarrow> ptr \<Rightarrow> u32 \<Rightarrow> bool \<Rightarrow> 'h mmu \<Rightarrow> (bool \<times> 'h mmu) option" where
  "vmalloc newp virt pg writable s = vmalloc_loop newp virt writable [0..<unat pg] s"

section \<open>The processor's translation\<close>

text \<open>
  The two-level walk of the x86 architecture with 4 MB pages enabled: physical address, write
  permission and user permission of a virtual address.
\<close>

definition leaf :: "PageDirectoryEntry \<Rightarrow> PageTableEntry \<Rightarrow> ptr \<Rightarrow> (u32 \<times> bool \<times> bool) option" where
  "leaf pde pte v =
     (if \<not> pte_p pte then None
      else Some (push_bit 12 (ucast (pte_addr pte)) OR (v AND mask 12),
             pde_r_w pde \<and> pte_r_w pte, pde_u_s pde \<and> pte_u_s pte))"

definition mmu_translate :: "(nat \<Rightarrow> u32) \<Rightarrow> u32 \<Rightarrow> ptr \<Rightarrow> (u32 \<times> bool \<times> bool) option" where
  "mmu_translate m root v =
     (let w = m (1024 * (unat root div 4096) + unat (pd_index v)); pde = word_pde w
      in if \<not> pde_p pde then None
         else if pde_ps pde then
           Some (push_bit 22 (ucast (hpde_addr (word_hpde w))) OR (v AND mask 22), pde_r_w pde, pde_u_s pde)
         else leaf pde (word_pte (m (1024 * unat (pde_addr pde) + unat (pt_index v)))) v)"

abbreviation translate :: "'h mmu \<Rightarrow> ptr \<Rightarrow> (u32 \<times> bool \<times> bool) option" where
  "translate s \<equiv> mmu_translate (pmem s) (cr3 s)"

section \<open>Entries and slots\<close>

lemma bit_flag [simp]: "bit (flag i b) n \<longleftrightarrow> n = i \<and> b \<and> n < 32"
  by (auto simp: flag_def bit_simps)

lemma bit_field [simp]: "bit (field i w :: 'a::len word) n \<longleftrightarrow> n < LENGTH('a) \<and> bit w (i + n)"
  by (auto simp: field_def bit_simps)

lemma word_pde_word [simp]: "word_pde (pde_word e) = e"
proof -
  have "(field 8 (pde_word e) :: 4 word) = pde_ign1 e" "(field 12 (pde_word e) :: 20 word) = pde_addr e"
    by (rule bit_word_eqI; auto simp: pde_word_def bit_simps dest: bit_imp_le_length)+
  then show ?thesis
    by (intro PageDirectoryEntry.equality) (simp_all add: word_pde_def, simp_all add: pde_word_def bit_simps)
qed

lemma word_pte_word [simp]: "word_pte (pte_word e) = e"
proof -
  have "(field 9 (pte_word e) :: 3 word) = pte_ign0 e" "(field 12 (pte_word e) :: 20 word) = pte_addr e"
    by (rule bit_word_eqI; auto simp: pte_word_def bit_simps dest: bit_imp_le_length)+
  then show ?thesis
    by (intro PageTableEntry.equality) (simp_all add: word_pte_def, simp_all add: pte_word_def bit_simps)
qed

lemma pd_index_less: "unat (pd_index v) < 1024"
  using unat_lt_u32[of v] by (simp add: pd_index_def unat_drop_bit_div)

lemma mask10: "(0x3FF :: u32) = mask 10"
  by (simp add: mask_eq_exp_minus_1)

lemma pt_index_less: "unat (pt_index v) < 1024"
  unfolding pt_index_def mask10 by (simp add: unat_and_mask)

lemma bit_pt_index: "bit (pt_index v) n \<longleftrightarrow> n < 10 \<and> bit v (12 + n)"
  unfolding pt_index_def mask10 by (simp only: bit_and_iff bit_mask_iff bit_drop_bit_eq comp_def) auto

lemma bit_pd_index: "bit (pd_index v) n \<longleftrightarrow> bit v (22 + n)"
  by (simp add: pd_index_def bit_drop_bit_eq)

lemma same_page_index: "drop_bit 12 v = drop_bit 12 v' \<longleftrightarrow> pd_index v = pd_index v' \<and> pt_index v = pt_index (v' :: u32)"
proof
  assume r: "pd_index v = pd_index v' \<and> pt_index v = pt_index v'"
  show "drop_bit 12 v = drop_bit 12 v'"
  proof (rule bit_word_eqI)
    fix n
    have *: "bit (drop_bit 12 v) n \<longleftrightarrow> (if n < 10 then bit (pt_index v) n else bit (pd_index v) (n - 10))" for v :: u32
      by (simp add: bit_pt_index bit_pd_index bit_drop_bit_eq)
    show "bit (drop_bit 12 v) n = bit (drop_bit 12 v') n" by (simp only: * r)
  qed
qed (simp add: pd_index_def pt_index_def)

lemma slot_eq: "i < 1024 \<Longrightarrow> j < 1024 \<Longrightarrow> 1024 * a + i = 1024 * b + j \<longleftrightarrow> a = b \<and> i = (j :: nat)"
  by (cases a b rule: linorder_cases) auto

lemma direct_elem:
  "direct_to_hhdm (ucast (x :: u32)) = Some p \<Longrightarrow> elem p i = unat x div 4 + unat i \<and> unat x < 0x3DC00000"
  using direct_to_hhdm_unat[of "ucast x" p] by (auto simp: elem_def memdefs unat_sub_if' word_le_nat_alt)

lemma unat_frame: "unat (push_bit 12 (ucast (a :: 20 word)) :: u32) = 4096 * unat a"
  using unsigned_less[of a, where 'a = nat] by (simp add: push_bit_eq_mult unat_word_ariths unat_ucast_mod)

lemma table_elem:
  assumes "table_of pde = Some p"
  shows "elem p i = 1024 * unat (pde_addr pde) + unat i \<and> unat (pde_addr pde) < 0x3DC00"
proof -
  let ?x = "push_bit 12 (ucast (pde_addr pde)) :: u32"
  have "direct_to_hhdm (ucast ?x) = Some p" using assms by (simp only: table_of_def)
  from direct_elem[OF this, of i] show ?thesis by (simp only: unat_frame) simp
qed

lemma table_of_frame: "unat (pde_addr pde) < 0x3DC00 \<Longrightarrow> table_of pde \<noteq> None"
proof -
  define x where "x = (push_bit 12 (ucast (pde_addr pde)) :: u32)"
  assume "unat (pde_addr pde) < 0x3DC00"
  then have "unat x < 0x3DC00000" by (simp only: x_def unat_frame)
  then have "direct_to_hhdm (ucast x) \<noteq> None" by (simp add: direct_to_hhdm_def memdefs word_less_nat_alt ASSERT_def)
  then show ?thesis unfolding table_of_def x_def .
qed

lemma frame_pointer:
  assumes "unat q = 0xC0000000 + 4096 * k" "k < 0x3DC00"
  shows "elem q i = 1024 * k + unat i" "\<exists>phys. hhdm_to_direct q = Some phys \<and> unat (ucast (drop_bit 12 phys) :: 20 word) = k"
proof -
  have u: "unat (q - hhdm_start) = 4096 * k"
    using assms by (simp add: memdefs unat_sub_if' word_le_nat_alt)
  then show "elem q i = 1024 * k + unat i" by (simp add: elem_def)
  have "hhdm_to_direct q = Some (ucast (q - hhdm_start))"
    using assms by (simp add: hhdm_to_direct_def memdefs word_le_nat_alt word_less_nat_alt ASSERT_def)
  moreover have "unat (ucast (drop_bit 12 (ucast (q - hhdm_start) :: u64)) :: 20 word) = k"
    using u assms(2) by (simp add: unat_ucast_mod unat_drop_bit_div)
  ultimately show "\<exists>phys. hhdm_to_direct q = Some phys \<and> unat (ucast (drop_bit 12 phys) :: 20 word) = k" by blast
qed

section \<open>The invariant of a page directory\<close>

text \<open>
  \<open>F\<close> is the set of the page frames in use. The page tables are distinct frames of \<open>F\<close>, different from the
  frame of the directory.
\<close>

definition root :: "'h mmu \<Rightarrow> nat" where "root s = unat (cr3 s) div 4096"

definition pde_at :: "'h mmu \<Rightarrow> nat \<Rightarrow> PageDirectoryEntry" where
  "pde_at s i = word_pde (pmem s (1024 * root s + i))"

definition is_table :: "PageDirectoryEntry \<Rightarrow> bool" where "is_table e \<longleftrightarrow> pde_p e \<and> \<not> pde_ps e"

abbreviation frame :: "PageDirectoryEntry \<Rightarrow> nat" where "frame e \<equiv> unat (pde_addr e)"

definition pt_ok :: "'h mmu \<Rightarrow> nat set \<Rightarrow> bool" where
  "pt_ok s F \<longleftrightarrow> unat (cr3 s) mod 4096 = 0 \<and> unat (cr3 s) < 0x3DC00000 \<and> root s \<in> F \<and>
     (\<forall>i < 1024. is_table (pde_at s i) \<longrightarrow> frame (pde_at s i) \<in> F \<and> frame (pde_at s i) \<noteq> root s \<and>
        frame (pde_at s i) < 0x3DC00) \<and>
     (\<forall>i < 1024. \<forall>j < 1024. is_table (pde_at s i) \<longrightarrow> is_table (pde_at s j) \<longrightarrow>
        frame (pde_at s i) = frame (pde_at s j) \<longrightarrow> i = j)"

lemma get_page_directory_elem:
  assumes "pt_ok s F"
  shows "\<exists>pd. get_page_directory s = Some pd \<and> (\<forall>i. elem pd i = 1024 * root s + unat i)"
proof -
  have c: "unat (cr3 s) mod 4096 = 0" "unat (cr3 s) < 0x3DC00000" using assms by (auto simp: pt_ok_def)
  then obtain pd where pd: "get_page_directory s = Some pd"
    by (auto simp: get_page_directory_def direct_to_hhdm_def memdefs word_less_nat_alt ASSERT_def)
  obtain k where k: "unat (cr3 s) = 4096 * k" using c(1) by (auto simp: mod_eq_0_iff_dvd elim: dvdE)
  have "elem pd i = 1024 * root s + unat i" for i
    using direct_elem[of "cr3 s" pd i] pd k by (simp add: get_page_directory_def root_def)
  then show ?thesis using pd by blast
qed

lemma translate_pde:
  "translate s v = (let w = pmem s (1024 * root s + unat (pd_index v)); e = pde_at s (unat (pd_index v))
     in if \<not> pde_p e then None
        else if pde_ps e then Some (push_bit 22 (ucast (hpde_addr (word_hpde w))) OR (v AND mask 22), pde_r_w e, pde_u_s e)
        else leaf e (word_pte (pmem s (1024 * frame e + unat (pt_index v)))) v)"
  by (simp add: mmu_translate_def Let_def root_def pde_at_def)

text \<open>Writing one page table entry changes the translation of one page.\<close>

lemma set_pte:
  assumes ok: "pt_ok s F" and t: "is_table (pde_at s (unat (pd_index virt)))"
    and s': "s' = set_word (1024 * frame (pde_at s (unat (pd_index virt))) + unat (pt_index virt)) w s"
  shows "pt_ok s' F" "translate s' v = (if drop_bit 12 v = drop_bit 12 virt
    then leaf (pde_at s (unat (pd_index virt))) (word_pte w) v else translate s v)" "pages s' = pages s"
    "\<And>i. i < 1024 \<Longrightarrow> pde_at s' i = pde_at s i"
proof -
  let ?f = "frame (pde_at s (unat (pd_index virt)))"
  have f: "?f \<noteq> root s" using ok t pd_index_less[of virt] by (auto simp: pt_ok_def)
  have r: "root s' = root s" by (simp add: s' root_def set_word_def)
  have pd: "pmem s' (1024 * root s + i) = pmem s (1024 * root s + i)" if "i < 1024" for i
    using f that pt_index_less[of virt] slot_eq[of i "unat (pt_index virt)" "root s" ?f] by (simp add: s' set_word_def)
  then show e: "\<And>i. i < 1024 \<Longrightarrow> pde_at s' i = pde_at s i" by (simp add: pde_at_def r)
  show "pt_ok s' F" using ok e by (simp add: pt_ok_def r) (simp add: s' set_word_def)
  show "pages s' = pages s" by (simp add: s' set_word_def)
  let ?g = "frame (pde_at s (unat (pd_index v)))"
  have pt: "pmem s' (1024 * ?g + unat (pt_index v)) =
     (if drop_bit 12 v = drop_bit 12 virt then w else pmem s (1024 * ?g + unat (pt_index v)))"
    if "is_table (pde_at s (unat (pd_index v)))"
  proof -
    have "?g = ?f \<longleftrightarrow> pd_index v = pd_index virt"
      using ok t that pd_index_less[of v] pd_index_less[of virt]
      by (auto simp: pt_ok_def word_unat_eq_iff)
    then show ?thesis
      using slot_eq[OF pt_index_less[of v] pt_index_less[of virt], of ?g ?f] same_page_index[of v virt]
      by (auto simp: s' set_word_def word_unat_eq_iff)
  qed
  show "translate s' v = (if drop_bit 12 v = drop_bit 12 virt
    then leaf (pde_at s (unat (pd_index virt))) (word_pte w) v else translate s v)"
  proof (cases "is_table (pde_at s (unat (pd_index v)))")
    case True
    then show ?thesis using pt e[OF pd_index_less[of v]] same_page_index[of v virt]
      by (simp add: translate_pde is_table_def Let_def)
  next
    case False
    then have "drop_bit 12 v \<noteq> drop_bit 12 virt" using t same_page_index[of v virt] by auto
    then show ?thesis using False pd[OF pd_index_less[of v]] e[OF pd_index_less[of v]]
      by (simp add: translate_pde is_table_def Let_def r)
  qed
qed

text \<open>Installing an empty table in an absent directory entry changes no translation.\<close>

lemma install_table:
  assumes ok: "pt_ok s F" and k: "k \<notin> F" "k < 0x3DC00" and idx: "idx < 1024" and np: "\<not> pde_p (pde_at s idx)"
    and e: "is_table e" "frame e = k" and cr: "cr3 s' = cr3 s"
    and m: "pmem s' = (\<lambda>i. if 1024 * k \<le> i \<and> i < 1024 * k + 1024 then 0 else pmem s i)(1024 * root s + idx := pde_word e)"
  shows "pt_ok s' (insert k F)" "translate s' v = translate s v" "pde_at s' idx = e"
    "\<And>i. i < 1024 \<Longrightarrow> i \<noteq> idx \<Longrightarrow> pde_at s' i = pde_at s i"
proof -
  have r: "root s' = root s" by (simp add: root_def cr)
  have kr: "k \<noteq> root s" using ok k(1) by (auto simp: pt_ok_def)
  have out: "\<not> (1024 * k \<le> 1024 * a + i \<and> 1024 * a + i < 1024 * k + 1024)" if "a \<noteq> k" "i < 1024" for a i
    using that by (cases a k rule: linorder_cases) auto
  show e1: "pde_at s' idx = e" by (simp add: pde_at_def m r)
  have pd: "pmem s' (1024 * root s + i) = pmem s (1024 * root s + i)" if "i < 1024" "i \<noteq> idx" for i
    using out[OF kr[symmetric] that(1)] that by (auto simp: m)
  then show e2: "\<And>i. i < 1024 \<Longrightarrow> i \<noteq> idx \<Longrightarrow> pde_at s' i = pde_at s i" by (simp add: pde_at_def r)
  have F: "frame (pde_at s i) \<in> F" "frame (pde_at s i) < 0x3DC00" "frame (pde_at s i) \<noteq> root s"
    if "i < 1024" "is_table (pde_at s i)" for i using ok that by (auto simp: pt_ok_def)
  have injF: "i = j" if "i < 1024" "j < 1024" "is_table (pde_at s i)" "is_table (pde_at s j)"
    "frame (pde_at s i) = frame (pde_at s j)" for i j using ok that unfolding pt_ok_def by blast
  have cases': "pde_at s' i = (if i = idx then e else pde_at s i)" if "i < 1024" for i using e1 e2 that by simp
  have kk: "a = idx" if "a < 1024" "is_table (pde_at s' a)" "frame (pde_at s' a) = k" for a
  proof (rule ccontr)
    assume "a \<noteq> idx"
    then show False using e2[OF that(1)] F(1)[OF that(1)] that(2,3) k(1) by simp
  qed
  have inj: "i = j" if "i < 1024" "j < 1024" "is_table (pde_at s' i)" "is_table (pde_at s' j)"
    "frame (pde_at s' i) = frame (pde_at s' j)" for i j
  proof (cases "i = idx \<or> j = idx")
    case True
    then have "frame (pde_at s' i) = k" "frame (pde_at s' j) = k" using that(5) e1 e(2) by auto
    then show ?thesis using kk[OF that(1,3)] kk[OF that(2,4)] by simp
  next
    case False
    then show ?thesis using that injF[of i j] by (simp add: cases')
  qed
  moreover have "frame (pde_at s' i) \<in> insert k F \<and> frame (pde_at s' i) \<noteq> root s \<and> frame (pde_at s' i) < 0x3DC00"
    if "i < 1024" "is_table (pde_at s' i)" for i
    using that F[of i] kr k(2) e(2) by (auto simp: cases')
  ultimately show "pt_ok s' (insert k F)" using ok unfolding pt_ok_def r cr by simp
  show "translate s' v = translate s v"
  proof (cases "unat (pd_index v) = idx")
    case True
    have "pmem s' (1024 * k + unat (pt_index v)) = 0" using out[OF kr[symmetric] idx] pt_index_less[of v] by (auto simp: m)
    then show ?thesis using np e True e1 by (simp add: translate_pde Let_def is_table_def leaf_def word_pte_def)
  next
    case False
    let ?e = "pde_at s (unat (pd_index v))"
    have pt: "pmem s' (1024 * frame ?e + unat (pt_index v)) = pmem s (1024 * frame ?e + unat (pt_index v))" if "is_table ?e"
    proof -
      have "frame ?e \<noteq> k" "frame ?e \<noteq> root s" using F(1,3)[OF pd_index_less that] k(1) by auto
      then show ?thesis
        using out[of "frame ?e" "unat (pt_index v)"] slot_eq[OF pt_index_less idx, of "frame ?e" v "root s"] pt_index_less[of v]
        by (auto simp: m)
    qed
    show ?thesis using pt pd[OF pd_index_less False] e2[OF pd_index_less False]
      by (simp add: translate_pde Let_def r is_table_def)
  qed
qed

section \<open>The page source\<close>

text \<open>
  What the page tables need of \<^verbatim>\<open>::operator new(PG_SZ)\<close>: it returns null or the direct-map address of a
  page frame that is in use nowhere else.
\<close>

definition vm_ok :: "('h \<Rightarrow> nat set \<Rightarrow> bool) \<Rightarrow> 'h mmu \<Rightarrow> nat set \<Rightarrow> bool" where
  "vm_ok pinv s F \<longleftrightarrow> pt_ok s F \<and> pinv (pages s) F"

locale page_source =
  fixes newp :: "'h \<Rightarrow> (ptr \<times> 'h) option" and pinv :: "'h \<Rightarrow> nat set \<Rightarrow> bool"
  assumes newp_total: "pinv h F \<Longrightarrow> newp h \<noteq> None"
    and newp_null: "pinv h F \<Longrightarrow> newp h = Some (0, h') \<Longrightarrow> pinv h' F"
    and newp_page: "pinv h F \<Longrightarrow> newp h = Some (q, h') \<Longrightarrow> q \<noteq> 0 \<Longrightarrow>
      \<exists>k. unat q = 0xC0000000 + 4096 * k \<and> k < 0x3DC00 \<and> k \<notin> F \<and> pinv h' (insert k F)"
begin

abbreviation vok :: "'h mmu \<Rightarrow> nat set \<Rightarrow> bool" where "vok \<equiv> vm_ok pinv"

lemma ensure_pde_spec:
  assumes ok: "vok s F" and np: "\<not> pde_ps (pde_at s idx) \<or> \<not> pde_p (pde_at s idx)" and idx: "idx = unat (pd_index virt)"
  obtains (oom) s' where "ensure_pde newp virt s = Some (None, s')" "vok s' F" "pmem s' = pmem s" "cr3 s' = cr3 s"
      "\<not> pde_p (pde_at s idx)" "\<exists>h'. newp (pages s) = Some (0, h')"
    | (table) s' F' e where "ensure_pde newp virt s = Some (Some e, s')" "vok s' F'" "F \<subseteq> F'" "cr3 s' = cr3 s"
      "\<forall>v. translate s' v = translate s v" "pde_at s' idx = e" "is_table e"
      "pde_p (pde_at s idx) \<longrightarrow> s' = s" "\<not> pde_p (pde_at s idx) \<longrightarrow> pde_r_w e \<and> pde_u_s e \<and> (\<exists>q h'. q \<noteq> 0 \<and> newp (pages s) = Some (q, h'))"
proof -
  obtain pd where pd: "get_page_directory s = Some pd" "\<And>i. elem pd i = 1024 * root s + unat i"
    using get_page_directory_elem[of s F] ok by (auto simp: vm_ok_def)
  have w: "word_pde (pmem s (elem pd (pd_index virt))) = pde_at s idx" by (simp add: pd(2) pde_at_def idx)
  show thesis
  proof (cases "pde_p (pde_at s idx)")
    case True
    then have "ensure_pde newp virt s = Some (Some (pde_at s idx), s)"
      using np by (simp add: ensure_pde_def pd(1) w Let_def)
    then show thesis using table[of "pde_at s idx" s F] ok True np by (simp add: is_table_def)
  next
    case False
    obtain q h' where q: "newp (pages s) = Some (q, h')" using newp_total ok by (force simp: vm_ok_def)
    show thesis
    proof (cases "q = 0")
      case True
      then have "ensure_pde newp virt s = Some (None, s\<lparr>pages := h'\<rparr>)"
        using False q by (simp add: ensure_pde_def pd(1) w Let_def)
      moreover have "vok (s\<lparr>pages := h'\<rparr>) F"
        using ok newp_null q True by (auto simp: vm_ok_def pt_ok_def root_def pde_at_def)
      ultimately show thesis using oom False q True by simp
    next
      case nz: False
      obtain k where k: "unat q = 0xC0000000 + 4096 * k" "k < 0x3DC00" "k \<notin> F" "pinv h' (insert k F)"
        using newp_page q nz ok by (metis vm_ok_def)
      obtain phys where ph: "hhdm_to_direct q = Some phys" "unat (ucast (drop_bit 12 phys) :: 20 word) = k"
        using frame_pointer(2)[OF k(1,2)] by blast
      define s' where "s' = set_word (1024 * root s + idx) (pde_word (new_pde phys)) (clear_page q (s\<lparr>pages := h'\<rparr>))"
      have en: "ensure_pde newp virt s = Some (Some (new_pde phys), s')"
        using False q nz by (simp add: ensure_pde_def pd w Let_def ph(1) s'_def idx pde_at_def)
      have "pmem s' = (\<lambda>i. if 1024 * k \<le> i \<and> i < 1024 * k + 1024 then 0 else pmem s i)
          (1024 * root s + idx := pde_word (new_pde phys))"
        by (simp add: s'_def set_word_def clear_page_def frame_pointer(1)[OF k(1,2)] cong: if_cong)
      moreover have "idx < 1024" "is_table (new_pde phys)" "frame (new_pde phys) = k" "cr3 s' = cr3 s" "pt_ok s F"
        using pd_index_less[of virt] ph(2) ok
        by (simp_all add: idx is_table_def new_pde_def s'_def set_word_def clear_page_def vm_ok_def)
      ultimately have I: "pt_ok s' (insert k F)" "\<forall>v. translate s' v = translate s v" "pde_at s' idx = new_pde phys"
        using install_table[OF _ k(3,2), of s idx "new_pde phys" s'] False by blast+
      have "pages s' = h'" by (simp add: s'_def set_word_def clear_page_def)
      then have "vok s' (insert k F)" using I(1) k(4) by (simp add: vm_ok_def)
      then show thesis
        using table[OF en _ _ \<open>cr3 s' = cr3 s\<close> I(2,3) \<open>is_table (new_pde phys)\<close>] False nz q by (auto simp: new_pde_def)
    qed
  qed
qed

lemma map_page_spec:
  assumes ok: "vok s F" and al: "PG_ALIGNED phys" "PG_ALIGNED virt" and idx: "idx = unat (pd_index virt)"
    and np: "\<not> (pde_p (pde_at s idx) \<and> pde_ps (pde_at s idx))"
  shows "\<exists>r s' F'. map_page newp phys virt u_s r_w uc s = Some (r, s') \<and> vok s' F' \<and> F \<subseteq> F' \<and> cr3 s' = cr3 s \<and>
    \<not> (pde_p (pde_at s' idx) \<and> pde_ps (pde_at s' idx)) \<and>
    (r \<longleftrightarrow> translate s virt = None \<and> (pde_p (pde_at s idx) \<or> (\<exists>q h'. newp (pages s) = Some (q, h') \<and> q \<noteq> 0))) \<and>
    (\<forall>v. translate s' v =
      (if r \<and> drop_bit 12 v = drop_bit 12 virt
       then Some (push_bit 12 (ucast (ucast (drop_bit 12 phys) :: 20 word)) OR (v AND mask 12),
              (pde_p (pde_at s idx) \<longrightarrow> pde_r_w (pde_at s idx)) \<and> r_w, (pde_p (pde_at s idx) \<longrightarrow> pde_u_s (pde_at s idx)) \<and> u_s)
       else translate s v))"
proof -
  have np': "\<not> pde_ps (pde_at s idx) \<or> \<not> pde_p (pde_at s idx)" using np by blast
  show ?thesis using ok np' idx
  proof (cases rule: ensure_pde_spec)
    case (oom s')
    then have "map_page newp phys virt u_s r_w uc s = Some (False, s')" using al by (simp add: map_page_def)
    moreover have "pde_at s' idx = pde_at s idx" using oom(3,4) by (simp add: pde_at_def root_def)
    ultimately show ?thesis using oom by (intro exI[of _ False] exI[of _ s'] exI[of _ F]) auto
  next
    case (table s1 F' e)
    have ok1: "pt_ok s1 F'" using table(2) by (simp add: vm_ok_def)
    have t1: "is_table (pde_at s1 (unat (pd_index virt)))" using table(6,7) idx by simp
    have fe: "frame e < 0x3DC00" using ok1 t1 table(6) idx pd_index_less[of virt] by (auto simp: pt_ok_def)
    then obtain pt where pt: "table_of e = Some pt" using table_of_frame by force
    define i where "i = 1024 * frame e + unat (pt_index virt)"
    have el: "elem pt (pt_index virt) = i" using table_elem[OF pt] by (simp add: i_def)
    have "translate s1 virt = leaf e (word_pte (pmem s1 i)) virt"
      using table(6,7) idx by (auto simp: translate_pde Let_def is_table_def i_def)
    then have old: "translate s virt = leaf e (word_pte (pmem s1 i)) virt" using table(5) by simp
    show ?thesis
    proof (cases "pte_p (word_pte (pmem s1 i))")
      case True
      then have "map_page newp phys virt u_s r_w uc s = Some (False, s1)"
        using al table(1) pt by (simp add: map_page_def el Let_def)
      moreover have "translate s virt \<noteq> None" using old True by (simp add: leaf_def)
      ultimately show ?thesis using table by (intro exI[of _ False] exI[of _ s1] exI[of _ F']) (auto simp: is_table_def)
    next
      case False
      define s2 where "s2 = set_word i (pte_word (new_pte phys u_s r_w uc)) s1"
      have m: "map_page newp phys virt u_s r_w uc s = Some (True, s2)"
        using al table(1) pt False by (simp add: map_page_def el Let_def s2_def)
      have "s2 = set_word (1024 * frame (pde_at s1 (unat (pd_index virt))) + unat (pt_index virt))
        (pte_word (new_pte phys u_s r_w uc)) s1" using table(6) idx by (simp add: s2_def i_def)
      note S = set_pte[OF ok1 t1 this]
      have "vok s2 F'" using S(1,3) table(2) by (simp add: vm_ok_def)
      moreover have "cr3 s2 = cr3 s" using table(4) by (simp add: s2_def set_word_def)
      moreover have "pde_at s2 idx = e" using S(4)[of idx] table(6) idx pd_index_less by simp
      moreover have "translate s virt = None" using old False by (simp add: leaf_def)
      moreover have "pde_p (pde_at s idx) \<Longrightarrow> e = pde_at s idx" using table(6,8) by auto
      ultimately show ?thesis
        using m S(2) table(3,5,6,7,9) idx
        by (intro exI[of _ True] exI[of _ s2] exI[of _ F'])
          (auto simp: leaf_def new_pte_def is_table_def)
    qed
  qed
qed

end

section \<open>Unmapping and attributes\<close>

lemma fetch_pte_spec:
  assumes ok: "pt_ok s F" and al: "PG_ALIGNED virt" and e: "e = pde_at s (unat (pd_index virt))"
    and np: "\<not> (pde_p e \<and> pde_ps e)"
  shows "fetch_pte virt s = Some (if pde_p e then Some (1024 * frame e + unat (pt_index virt)) else None)"
proof -
  obtain pd where pd: "get_page_directory s = Some pd" "\<And>i. elem pd i = 1024 * root s + unat i"
    using get_page_directory_elem[OF ok] by auto
  have w: "word_pde (pmem s (elem pd (pd_index virt))) = e" by (simp add: pd(2) pde_at_def e)
  show ?thesis
  proof (cases "pde_p e")
    case True
    then have "is_table e" using np by (simp add: is_table_def)
    then have "frame e < 0x3DC00" using ok e pd_index_less[of virt] by (auto simp: pt_ok_def)
    then obtain pt where "table_of e = Some pt" using table_of_frame by force
    then show ?thesis using True np al table_elem[of e pt] by (simp add: fetch_pte_def pd(1) w Let_def)
  next
    case False
    then show ?thesis using al by (simp add: fetch_pte_def pd(1) w Let_def)
  qed
qed

lemma update_pte_spec:
  assumes ok: "pt_ok s F" and al: "PG_ALIGNED virt" and e: "e = pde_at s (unat (pd_index virt))"
    and np: "\<not> (pde_p e \<and> pde_ps e)" and i: "i = 1024 * frame e + unat (pt_index virt)"
  shows "translate s virt = None \<Longrightarrow> unmap virt s = Some (False, s) \<and> mark_uncacheable virt s = Some (False, s)"
    "translate s virt \<noteq> None \<Longrightarrow> is_table e \<and> pte_p (word_pte (pmem s i)) \<and>
       unmap virt s = Some (True, set_word i (pte_word (word_pte (pmem s i)\<lparr>pte_p := False\<rparr>)) s\<lparr>invlpg := virt # invlpg s\<rparr>) \<and>
       mark_uncacheable virt s = Some (True, set_word i (pte_word (word_pte (pmem s i)\<lparr>pte_pcd := True\<rparr>)) s\<lparr>invlpg := virt # invlpg s\<rparr>)"
  using fetch_pte_spec[OF ok al e np] np
  by (auto simp: translate_pde Let_def e[symmetric] leaf_def i unmap_def mark_uncacheable_def is_table_def split: if_splits)

lemma pt_ok_invlpg: "pt_ok (s\<lparr>invlpg := x\<rparr>) F = pt_ok s F" "pde_at (s\<lparr>invlpg := x\<rparr>) = pde_at s"
  by (auto simp: pt_ok_def pde_at_def root_def fun_eq_iff)

section \<open>The kernel heap as page source\<close>

text \<open>
  The frames in \<open>F\<close>, which hold page directories and page tables, are whole pages that the heap will not
  hand out: pages of the heap, or frames the page frame allocator never gives to it. The boot loader's
  page directory and page table are of the second kind: they lie in bootloader memory, which the memory
  map withholds from the allocator.
\<close>

definition heap_frames :: "(simple_pfa, pfd list) kheap \<Rightarrow> nat set \<Rightarrow> bool" where
  "heap_frames h F \<longleftrightarrow> (\<exists>H. heap_ok hhdm_pfa_inv pfa_used h H \<and> (\<forall>k \<in> F. {0xC0000000 + 4096 * k..<0xC0000000 + 4096 * k + 4096} \<subseteq> H))"

abbreviation kernel_newp :: "(simple_pfa, pfd list) kheap \<Rightarrow> (ptr \<times> (simple_pfa, pfd list) kheap) option" where
  "kernel_newp \<equiv> operator_new alloc PG_SZ"

lemma kernel_newp_total: "heap_ok hhdm_pfa_inv pfa_used h H \<Longrightarrow> kernel_newp h \<noteq> None"
proof -
  assume ok: "heap_ok hhdm_pfa_inv pfa_used h H"
  show ?thesis
  proof (cases "heap_pfa h")
    case None
    then show ?thesis by (simp add: operator_new_def kmalloc_def)
  next
    case (Some a)
    have inv: "hhdm_pfa_inv a (heap_pages h)" using ok Some by (simp add: heap_ok_def)
    obtain r a' p' where al: "alloc a (heap_pages h) (pages_for PG_SZ) = Some (r, a', p')"
      using upfa.al_total[OF inv] by (metis not_None_eq prod_cases3)
    have one: "unat (pages_for PG_SZ) = 1" using unat_pages_for[of PG_SZ] by (simp add: memdefs)
    have "refill alloc a h PG_SZ \<noteq> None"
    proof (cases r)
      case None
      then show ?thesis by (simp add: refill_def al)
    next
      case r: (Some pf)
      from upfa.al_some[OF inv al[unfolded r]] obtain k where
        k: "unat pf = 4096 * k" "k \<in> pfa_used a' p'" "hhdm_pfa_inv a' p'" using one by auto
      then have "k < 0x3DC00" using upfa.taken_hhdm by blast
      then have "direct_to_hhdm pf \<noteq> None" using k(1) by (simp add: direct_to_hhdm_def memdefs word_less_nat_alt ASSERT_def)
      then show ?thesis by (auto simp: refill_def al r)
    qed
    then show ?thesis using Some by (auto simp: operator_new_def kmalloc_def Let_def)
  qed
qed

interpretation kernel_vm: page_source kernel_newp heap_frames
proof
  fix h F assume "heap_frames h F"
  then show "kernel_newp h \<noteq> None" using kernel_newp_total by (auto simp: heap_frames_def)
next
  fix h F h' assume "heap_frames h F" "kernel_newp h = Some (0, h')"
  then show "heap_frames h' F" using upfa.kmalloc_null unfolding heap_frames_def operator_new_def by blast
next
  fix h F q h'
  assume "heap_frames h F" and q: "kernel_newp h = Some (q, h')" "q \<noteq> 0"
  then obtain H where H: "heap_ok hhdm_pfa_inv pfa_used h H"
    "\<forall>k \<in> F. {0xC0000000 + 4096 * k..<0xC0000000 + 4096 * k + 4096} \<subseteq> H" by (auto simp: heap_frames_def)
  let ?B = "{unat q..<unat q + unat PG_SZ}"
  have K: "heap_ok hhdm_pfa_inv pfa_used h' (H \<union> ?B)" "?B \<inter> H = {}" "unat q mod 4096 = 0"
    using upfa.kmalloc_fresh[OF H(1) _ _ _ q(2), of PG_SZ h'] q(1) by (auto simp: operator_new_def memdefs)
  have "unat q \<in> H \<union> ?B" by (simp add: memdefs)
  then obtain a where a: "heap_pfa h' = Some a" "hhdm_pfa_inv a (heap_pages h')"
      "0xC0000000 \<le> unat q" "heap_page (unat q) \<in> pfa_used a (heap_pages h')"
    using K(1) by (auto simp: heap_ok_def split: option.splits)
  define k where "k = heap_page (unat q)"
  have "k < 0x3DC00" using upfa.taken_hhdm[OF a(2)] a(4) by (auto simp: k_def)
  moreover have uq: "unat q = 0xC0000000 + 4096 * k"
  proof -
    obtain d where "unat q = 4096 * d" using K(3) by (auto simp: mod_eq_0_iff_dvd elim: dvdE)
    then show ?thesis using a(3) heap_page_div[OF a(3)] by (simp add: k_def)
  qed
  moreover have "k \<notin> F" using H(2) K(2) uq by (force simp: memdefs)
  moreover have "heap_frames h' (insert k F)"
    unfolding heap_frames_def using K(1) H(2) uq by (intro exI[of _ "H \<union> ?B"]) (auto simp: memdefs)
  ultimately show "\<exists>k. unat q = 0xC0000000 + 4096 * k \<and> k < 0x3DC00 \<and> k \<notin> F \<and> heap_frames h' (insert k F)" by blast
qed

section \<open>Cloning the kernel half\<close>

text \<open>
  The state of the clone loop: the frames in use before are untouched, and the entries in \<open>P\<close> of the new
  directory \<open>k0\<close> are copies, with page tables in fresh frames that have the same contents.
\<close>

definition cloned_entry :: "'h mmu \<Rightarrow> nat set \<Rightarrow> nat \<Rightarrow> 'h mmu \<Rightarrow> nat set \<Rightarrow> nat \<Rightarrow> bool" where
  "cloned_entry s0 F k0 s F' i \<longleftrightarrow>
     (let e = pde_at s0 i; w = pmem s (1024 * k0 + i); e' = word_pde w
      in if \<not> pde_p e then w = 0
         else if pde_ps e then w = pmem s0 (1024 * root s0 + i)
         else e' = e\<lparr>pde_addr := pde_addr e'\<rparr> \<and> frame e' \<in> F' - F \<and> frame e' \<noteq> k0 \<and> frame e' < 0x3DC00 \<and>
              (\<forall>j < 1024. pmem s (1024 * frame e' + j) = pmem s0 (1024 * frame e + j)))"

definition clone_inv :: "('h \<Rightarrow> nat set \<Rightarrow> bool) \<Rightarrow> 'h mmu \<Rightarrow> nat set \<Rightarrow> nat \<Rightarrow> nat set \<Rightarrow> 'h mmu \<Rightarrow> nat set \<Rightarrow> bool" where
  "clone_inv pinv s0 F k0 P s F' \<longleftrightarrow> pinv (pages s) F' \<and> F \<subseteq> F' \<and> k0 \<in> F' \<and> cr3 s = cr3 s0 \<and>
     (\<forall>n. n div 1024 \<in> F \<longrightarrow> pmem s n = pmem s0 n) \<and>
     (\<forall>i < 1024. i \<notin> P \<longrightarrow> pmem s (1024 * k0 + i) = 0) \<and>
     (\<forall>i \<in> P. cloned_entry s0 F k0 s F' i) \<and>
     (\<forall>i \<in> P. \<forall>j \<in> P. is_table (pde_at s0 i) \<longrightarrow> is_table (pde_at s0 j) \<longrightarrow>
        frame (word_pde (pmem s (1024 * k0 + i))) = frame (word_pde (pmem s (1024 * k0 + j))) \<longrightarrow> i = j)"

lemma slot_div: "j < 1024 \<Longrightarrow> (1024 * a + j) div 1024 = (a :: nat)"
  by simp

text \<open>An entry depends on its slot and on its page table only.\<close>

lemma cloned_entry_frame:
  assumes "cloned_entry s0 F k0 s F' i" "F' \<subseteq> F''" "pmem t (1024 * k0 + i) = pmem s (1024 * k0 + i)"
    and "\<And>n. n div 1024 \<in> F' \<Longrightarrow> n div 1024 \<noteq> k0 \<Longrightarrow> pmem t n = pmem s n"
  shows "cloned_entry s0 F k0 t F'' i"
  using assms by (auto simp: cloned_entry_def Let_def slot_div split: if_splits)

lemma clone_inv_extend:
  assumes inv: "clone_inv pinv s0 F k0 P s F'" and i: "i \<notin> P" "i < 1024" and P: "P \<subseteq> {..<1024}" and k0: "k0 \<notin> F"
    and F'': "F' \<subseteq> F''" "pinv (pages t) F''" and cr: "cr3 t = cr3 s"
    and mem: "\<And>n. n div 1024 \<in> F' \<Longrightarrow> n \<noteq> 1024 * k0 + i \<Longrightarrow> pmem t n = pmem s n"
    and entry: "cloned_entry s0 F k0 t F'' i"
    and fresh: "is_table (pde_at s0 i) \<Longrightarrow> frame (word_pde (pmem t (1024 * k0 + i))) \<notin> F'"
  shows "clone_inv pinv s0 F k0 (insert i P) t F''"
proof -
  note I = inv[unfolded clone_inv_def]
  have k0': "k0 \<in> F'" "F \<subseteq> F'" using I by auto
  have slot: "pmem t (1024 * k0 + j) = pmem s (1024 * k0 + j)" if "j < 1024" "j \<noteq> i" for j
    using mem[of "1024 * k0 + j"] k0' that by (simp add: slot_div)
  have old: "pmem t n = pmem s0 n" if "n div 1024 \<in> F" for n
  proof -
    have "n \<noteq> 1024 * k0 + i" using that k0 i(2) by (auto simp: slot_div)
    then show ?thesis using mem[of n] that k0'(2) I by auto
  qed
  have ent: "cloned_entry s0 F k0 t F'' j" if "j \<in> P" for j
  proof (rule cloned_entry_frame[OF _ F''(1)])
    show "cloned_entry s0 F k0 s F' j" using I that by blast
    show "pmem t (1024 * k0 + j) = pmem s (1024 * k0 + j)" using slot that P i(1) by auto
    show "pmem t n = pmem s n" if "n div 1024 \<in> F'" "n div 1024 \<noteq> k0" for n
      using mem[OF that(1)] that(2) i(2) by (auto simp: slot_div)
  qed
  have fr: "frame (word_pde (pmem t (1024 * k0 + j))) \<in> F'" if "j \<in> P" "is_table (pde_at s0 j)" for j
  proof -
    have "cloned_entry s0 F k0 s F' j" "j < 1024" "j \<noteq> i" using I that(1) P i(1) by auto
    then show ?thesis using that(2) slot[of j] by (auto simp: cloned_entry_def Let_def is_table_def)
  qed
  have inj: "a = b" if "a \<in> insert i P" "b \<in> insert i P" "is_table (pde_at s0 a)" "is_table (pde_at s0 b)"
    "frame (word_pde (pmem t (1024 * k0 + a))) = frame (word_pde (pmem t (1024 * k0 + b)))" for a b
  proof (cases "a = i \<or> b = i")
    case True
    then show ?thesis using that fr[of a] fr[of b] fresh by auto
  next
    case False
    then have "a \<in> P" "b \<in> P" "pmem t (1024 * k0 + a) = pmem s (1024 * k0 + a)" "pmem t (1024 * k0 + b) = pmem s (1024 * k0 + b)"
      using that(1,2) P slot by auto
    then show ?thesis using I that(3-5) by metis
  qed
  show ?thesis unfolding clone_inv_def
  proof (intro conjI ballI impI allI)
    show "pinv (pages t) F''" "F \<subseteq> F''" "k0 \<in> F''" "cr3 t = cr3 s0" using F'' k0' cr I by auto
    show "pmem t n = pmem s0 n" if "n div 1024 \<in> F" for n using old[OF that] .
    show "pmem t (1024 * k0 + j) = 0" if "j < 1024" "j \<notin> insert i P" for j
      using slot[of j] that I by simp
    show "cloned_entry s0 F k0 t F'' j" if "j \<in> insert i P" for j using that ent entry by blast
    show "a = b" if "a \<in> insert i P" "b \<in> insert i P" "is_table (pde_at s0 a)" "is_table (pde_at s0 b)"
      "frame (word_pde (pmem t (1024 * k0 + a))) = frame (word_pde (pmem t (1024 * k0 + b)))" for a b
      by (rule inj[OF that])
  qed
qed

context page_source
begin

lemma clone_entry_step:
  assumes inv: "clone_inv pinv s0 F k0 P s F'" and i: "i \<notin> P" "i < 1024" and P: "P \<subseteq> {..<1024}" and k0: "k0 \<notin> F" "k0 < 0x3DC00"
    and ok: "pt_ok s0 F" and nq: "unat nq = 0xC0000000 + 4096 * k0" and pd: "elem pd (of_nat i) = 1024 * root s0 + i"
    and ce: "clone_entry newp pd nq (of_nat i) s = Some t"
  shows "\<exists>F''. clone_inv pinv s0 F k0 (insert i P) t F''"
proof -
  note I = inv[unfolded clone_inv_def]
  let ?e = "pde_at s0 i"
  have ui: "unat (of_nat i :: u32) = i" using i(2) by (simp add: unat_of_nat_small)
  have "root s0 \<in> F" using ok by (simp add: pt_ok_def)
  then have w: "pmem s (elem pd (of_nat i)) = pmem s0 (1024 * root s0 + i)" using I i(2) pd by (simp add: slot_div)
  then have we: "word_pde (pmem s (elem pd (of_nat i))) = ?e" by (simp add: pde_at_def)
  have el: "elem nq (of_nat i) = 1024 * k0 + i" using frame_pointer(1)[OF nq k0(2)] ui by simp
  consider (absent) "\<not> pde_p ?e" | (huge) "pde_p ?e" "pde_ps ?e" | (table) "is_table ?e" by (auto simp: is_table_def)
  then show ?thesis
  proof cases
    case absent
    then have t: "t = s" using ce we by (simp add: clone_entry_def Let_def)
    have "pmem s (1024 * k0 + i) = 0" using I i by blast
    then have "clone_inv pinv s0 F k0 (insert i P) t F'"
      by (intro clone_inv_extend[OF inv i P k0(1)]) (use I absent t in \<open>auto simp: cloned_entry_def is_table_def\<close>)
    then show ?thesis ..
  next
    case huge
    then have t: "t = set_word (1024 * k0 + i) (pmem s0 (1024 * root s0 + i)) s"
      using ce we w el by (simp add: clone_entry_def Let_def)
    have "clone_inv pinv s0 F k0 (insert i P) t F'"
      by (intro clone_inv_extend[OF inv i P k0(1)])
        (use I huge t in \<open>auto simp: cloned_entry_def is_table_def set_word_def\<close>)
    then show ?thesis ..
  next
    case table
    then obtain q h' src phys where q: "newp (pages s) = Some (q, h')" "q \<noteq> 0" "table_of ?e = Some src" "hhdm_to_direct q = Some phys"
      "t = set_word (1024 * k0 + i) (pde_word (?e\<lparr>pde_addr := ucast (drop_bit 12 phys)\<rparr>)) (copy_page q src (s\<lparr>pages := h'\<rparr>))"
      using ce we el by (auto simp: clone_entry_def Let_def is_table_def split: bind_splits if_splits)
    obtain k where k: "unat q = 0xC0000000 + 4096 * k" "k < 0x3DC00" "k \<notin> F'" "pinv h' (insert k F')"
      using newp_page[OF _ q(1,2)] I by blast
    have fk: "unat (ucast (drop_bit 12 phys) :: 20 word) = k" using frame_pointer(2)[OF k(1,2)] q(4) by auto
    have src: "elem src 0 = 1024 * frame ?e" using table_elem[OF q(3), of 0] by simp
    have dst: "elem q 0 = 1024 * k" using frame_pointer(1)[OF k(1,2), of 0] by simp
    have kk: "k0 \<noteq> k" "k0 \<in> F'" "F \<subseteq> F'" using k(3) I by auto
    have fe: "frame ?e \<in> F" using ok table i(2) by (auto simp: pt_ok_def)
    have mt: "pmem t n = (if n = 1024 * k0 + i then pde_word (?e\<lparr>pde_addr := ucast (drop_bit 12 phys)\<rparr>)
        else if n div 1024 = k then pmem s (1024 * frame ?e + n mod 1024) else pmem s n)" for n
    proof -
      have "(1024 * k \<le> n \<and> n < 1024 * k + 1024) = (n div 1024 = k)" by auto
      moreover have "n div 1024 = k \<Longrightarrow> 1024 * frame ?e + n - 1024 * k = 1024 * frame ?e + n mod 1024"
        using mult_div_mod_eq[of 1024 n] by linarith
      ultimately show ?thesis by (simp add: q(5) set_word_def copy_page_def src dst cong: if_cong)
    qed
    have cp: "pmem t (1024 * k + j) = pmem s0 (1024 * frame ?e + j)" if "j < 1024" for j
      using mt[of "1024 * k + j"] that kk(1) slot_eq[OF that i(2), of k k0] I fe by (simp add: slot_div)
    have "cloned_entry s0 F k0 t (insert k F') i"
      using table cp fk k kk mt[of "1024 * k0 + i"] by (auto simp: cloned_entry_def is_table_def Let_def)
    moreover have "pages t = h'" "cr3 t = cr3 s" by (simp_all add: q(5) set_word_def copy_page_def)
    moreover have "pmem t n = pmem s n" if "n div 1024 \<in> F'" "n \<noteq> 1024 * k0 + i" for n
      using mt[of n] that k(3) by auto
    moreover have "frame (word_pde (pmem t (1024 * k0 + i))) = k" using mt[of "1024 * k0 + i"] fk by simp
    ultimately have "clone_inv pinv s0 F k0 (insert i P) t (insert k F')"
      by (intro clone_inv_extend[OF inv i P k0(1)]) (use k(3,4) in auto)
    then show ?thesis ..
  qed
qed

lemma clone_loop_inv:
  assumes "clone_inv pinv s0 F k0 P s F'" "set is \<inter> P = {}" "distinct is" "set is \<union> P \<subseteq> {..<1024}" "k0 \<notin> F" "k0 < 0x3DC00"
    "pt_ok s0 F" "unat nq = 0xC0000000 + 4096 * k0" "\<forall>i < 1024. elem pd (of_nat i) = 1024 * root s0 + i"
    "clone_loop newp pd nq is s = Some t"
  shows "\<exists>F''. clone_inv pinv s0 F k0 (set is \<union> P) t F''"
  using assms
proof (induction "is" arbitrary: P s F')
  case (Cons i "is")
  then obtain s1 where s1: "clone_entry newp pd nq (of_nat i) s = Some s1" "clone_loop newp pd nq is s1 = Some t"
    by (auto split: bind_splits)
  obtain F1 where F1: "clone_inv pinv s0 F k0 (insert i P) s1 F1"
    using clone_entry_step[OF Cons.prems(1) _ _ _ Cons.prems(5-8) _ s1(1)] Cons.prems(2,4,9) by auto
  have "\<exists>F''. clone_inv pinv s0 F k0 (set is \<union> insert i P) t F''"
    by (rule Cons.IH[OF F1]) (use Cons.prems s1(2) in auto)
  then show ?case by (simp add: Un_left_commute)
qed auto

end

lemma translate_frame:
  assumes ok: "pt_ok s F" and cr: "cr3 t = cr3 s" and mem: "\<forall>n. n div 1024 \<in> F \<longrightarrow> pmem t n = pmem s n"
  shows "translate t v = translate s v" "F \<subseteq> F' \<Longrightarrow> pt_ok t F'"
proof -
  have r: "root t = root s" "root s \<in> F" using ok by (simp_all add: root_def cr pt_ok_def)
  have pd: "pmem t (1024 * root s + i) = pmem s (1024 * root s + i)" if "i < 1024" for i using mem r that by (simp add: slot_div)
  then have e: "pde_at t i = pde_at s i" if "i < 1024" for i using that by (simp add: pde_at_def r)
  show "pt_ok t F'" if "F \<subseteq> F'" using ok e r cr that by (auto simp: pt_ok_def)
  have "pmem t (1024 * frame (pde_at s (unat (pd_index v))) + unat (pt_index v)) =
      pmem s (1024 * frame (pde_at s (unat (pd_index v))) + unat (pt_index v))"
    if "is_table (pde_at s (unat (pd_index v)))"
    using mem ok that pd_index_less[of v] pt_index_less[of v] by (simp add: pt_ok_def slot_div)
  then show "translate t v = translate s v"
    using pd[OF pd_index_less[of v]] e[OF pd_index_less[of v]] by (simp add: translate_pde Let_def is_table_def r)
qed

lemma pd_index_half: "768 \<le> unat (pd_index v) \<longleftrightarrow> hhdm_start \<le> v"
proof -
  have "unat (pd_index v) = unat v div 4194304" by (simp add: pd_index_def unat_drop_bit_div div_mult2_eq[symmetric])
  then show ?thesis by (simp add: memdefs word_le_nat_alt less_eq_div_iff_mult_less_eq)
qed

text \<open>The finished directory: kernel addresses translate as before, user addresses not at all.\<close>

lemma clone_inv_translate:
  assumes ok: "pt_ok s0 F" and inv: "clone_inv pinv s0 F k0 {768..<1024} t F'" and k0: "k0 \<notin> F" "k0 < 0x3DC00"
    and u: "unat (cr3 u) = 4096 * k0" "pmem u = pmem t" "pages u = pages t"
  shows "vm_ok pinv u F'" "translate u v = (if hhdm_start \<le> v then translate s0 v else None)"
    "\<And>i. i < 1024 \<Longrightarrow> is_table (pde_at u i) \<Longrightarrow> frame (pde_at u i) \<notin> F"
proof -
  note I = inv[unfolded clone_inv_def]
  have ru: "root u = k0" by (simp add: root_def u(1))
  have low: "\<not> pde_p (pde_at u i)" if "i < 768" for i
    using I that by (simp add: pde_at_def ru u(2) word_pde_def)
  have hi: "cloned_entry s0 F k0 t F' i" if "768 \<le> i" "i < 1024" for i using I that by simp
  have tab: "768 \<le> i \<and> is_table (pde_at s0 i) \<and> frame (pde_at u i) \<in> F' - F \<and> frame (pde_at u i) \<noteq> k0 \<and>
      frame (pde_at u i) < 0x3DC00" if "i < 1024" "is_table (pde_at u i)" for i
  proof -
    have "768 \<le> i" using low[of i] that(2) by (cases "i < 768") (auto simp: is_table_def)
    then show ?thesis using hi[OF _ that(1)] that(2)
      by (auto simp: cloned_entry_def Let_def is_table_def pde_at_def ru u(2) word_pde_def split: if_splits)
  qed
  then show "\<And>i. i < 1024 \<Longrightarrow> is_table (pde_at u i) \<Longrightarrow> frame (pde_at u i) \<notin> F" by blast
  have "pt_ok u F'" unfolding pt_ok_def
  proof (intro conjI allI impI)
    show "unat (cr3 u) mod 4096 = 0" "unat (cr3 u) < 0x3DC00000" "root u \<in> F'" using u(1) k0(2) I ru by auto
    show "frame (pde_at u i) \<in> F'" "frame (pde_at u i) \<noteq> root u" "frame (pde_at u i) < 0x3DC00"
      if "i < 1024" "is_table (pde_at u i)" for i using tab[OF that] ru by auto
    show "i = j" if "i < 1024" "j < 1024" "is_table (pde_at u i)" "is_table (pde_at u j)"
      "frame (pde_at u i) = frame (pde_at u j)" for i j
      using I tab[OF that(1,3)] tab[OF that(2,4)] that(1,2,5) by (simp add: pde_at_def ru u(2))
  qed
  then show "vm_ok pinv u F'" using I u(3) by (simp add: vm_ok_def)
  show "translate u v = (if hhdm_start \<le> v then translate s0 v else None)"
  proof (cases "hhdm_start \<le> v")
    case False
    then show ?thesis using low[of "unat (pd_index v)"] pd_index_half[of v] by (simp add: translate_pde)
  next
    case True
    let ?i = "unat (pd_index v)"
    have ce: "cloned_entry s0 F k0 t F' ?i" using hi True pd_index_half pd_index_less by blast
    show ?thesis
    proof (cases "is_table (pde_at s0 ?i)")
      case T: True
      then have *: "pde_at u ?i = (pde_at s0 ?i)\<lparr>pde_addr := pde_addr (pde_at u ?i)\<rparr>"
        "pmem u (1024 * frame (pde_at u ?i) + unat (pt_index v)) = pmem s0 (1024 * frame (pde_at s0 ?i) + unat (pt_index v))"
        using ce pt_index_less[of v] by (auto simp: cloned_entry_def Let_def is_table_def pde_at_def ru u(2))
      have "pde_p (pde_at u ?i)" "\<not> pde_ps (pde_at u ?i)" "pde_r_w (pde_at u ?i) = pde_r_w (pde_at s0 ?i)"
        "pde_u_s (pde_at u ?i) = pde_u_s (pde_at s0 ?i)"
        using T by (subst *(1), simp add: is_table_def)+
      then show ?thesis using T True *(2) by (simp add: translate_pde Let_def is_table_def leaf_def)
    next
      case False
      then show ?thesis using ce True unfolding translate_pde[of u] translate_pde[of s0]
        by (auto simp: cloned_entry_def Let_def is_table_def pde_at_def ru u(2) word_pde_def split: if_splits)
    qed
  qed
qed

end
