(* ===== verification/Virtual_Memory.thy ===== *)
theory Virtual_Memory
  imports Page_Table
begin

text \<open>
  The properties of the kernel's virtual memory operations over the kernel heap: mapping and unmapping
  against the processor's translation, cloning of an address space and the I/O window.
\<close>

section \<open>A concrete address space\<close>

definition demo_heap0 :: "(simple_pfa, pfd list) kheap" where
  "demo_heap0 = \<lparr>arena = 0, heap_pfa = Some demo_pfa, heap_pages = demo_pages\<rparr>"

definition demo_heap :: "(simple_pfa, pfd list) kheap" where
  "demo_heap = snd (the (kernel_newp demo_heap0))"

definition demo_mmu :: "(simple_pfa, pfd list) kheap mmu" where
  "demo_mmu = \<lparr>pmem = \<lambda>_. 0, cr3 = 0x1000, invlpg = [], pages = demo_heap\<rparr>"

lemma demo_newp: "kernel_newp demo_heap0 = Some (0xC0001000, demo_heap)" "map_option fst (kernel_newp demo_heap) = Some 0xC0002000"
proof -
  have "map_option fst (kernel_newp demo_heap0) = Some 0xC0001000" by code_simp
  then show "kernel_newp demo_heap0 = Some (0xC0001000, demo_heap)" by (auto simp: demo_heap_def)
  show "map_option fst (kernel_newp demo_heap) = Some 0xC0002000" by code_simp
qed

lemma demo_newp_twice:
  obtains h1 h2 where "kernel_newp demo_heap = Some (0xC0002000, h1)" "kernel_newp h1 = Some (0xC0003000, h2)"
proof -
  obtain h1 where h1: "kernel_newp demo_heap = Some (0xC0002000, h1)" using demo_newp(2) by auto
  have "map_option fst (kernel_newp demo_heap \<bind> (\<lambda>(q, h). kernel_newp h)) = Some 0xC0003000" by code_simp
  then show thesis using h1 that by auto
qed

lemma demo_vm_ok: "vm_ok heap_frames demo_mmu {1}"
proof -
  have "hhdm_pfa_inv demo_pfa demo_pages" using demo_pfa_inv by (simp add: hhdm_pfa_inv_def demo_pfa_def)
  then have "heap_frames demo_heap0 {}" by (auto simp: heap_frames_def heap_ok_def demo_heap0_def)
  from kernel_vm.newp_page[OF this demo_newp(1)] have "heap_frames demo_heap {1}" by auto
  then show ?thesis by (simp add: vm_ok_def pt_ok_def demo_mmu_def pde_at_def is_table_def word_pde_def root_def)
qed

lemma demo_newp_pages: "\<exists>q h'. kernel_newp (pages demo_mmu) = Some (q, h') \<and> q \<noteq> 0"
  using demo_newp(2) by (auto simp: demo_mmu_def)

lemma demo_pde: "pde_p (pde_at demo_mmu i) = False" "translate demo_mmu v = None"
  unfolding translate_pde by (simp_all add: Let_def pde_at_def demo_mmu_def word_pde_def)

text \<open>
  An address space as the boot loader leaves it, in frames 6 and 7 of its memory: the page table of low
  memory, a huge page of the direct map, and a page table of the I/O window that the kernel has since
  allocated from the heap (frame 1), which maps the page of a device.
\<close>

definition demo_boot :: "(simple_pfa, pfd list) kheap mmu" where
  "demo_boot = \<lparr>pmem = (\<lambda>_. 0)(6144 := 0x7003, 6912 := 0x183, 7159 := 0x1003, 7169 := 0x1003, 1024 := 0xFEC00013),
     cr3 = 0x6000, invlpg = [], pages = demo_heap\<rparr>"

lemma demo_boot_frames: "heap_frames demo_heap {1, 6, 7}"
proof -
  let ?H = "{0xC0006000..<0xC0008000} :: nat set"
  have inv: "hhdm_pfa_inv demo_pfa demo_pages" using demo_pfa_inv by (simp add: hhdm_pfa_inv_def demo_pfa_def)
  have pg: "0xC0000000 \<le> v \<and> heap_page v \<in> {6, 7}" if "v \<in> ?H" for v
  proof -
    have "0x6000 \<le> v - 0xC0000000" "v - 0xC0000000 < 0x8000" using that by auto
    then have "6 \<le> heap_page v" "heap_page v < 8"
      by (simp_all add: heap_page_def less_eq_div_iff_mult_less_eq div_less_iff_less_mult)
    then show ?thesis using that by auto
  qed
  have "{6, 7} \<subseteq> pfa_used demo_pfa demo_pages"
    by (simp add: pfa_used_def demo_pages_def demo_page_def usable_def)
  then have "\<forall>v \<in> ?H. 0xC0000000 \<le> v \<and> heap_page v \<in> pfa_used demo_pfa demo_pages" using pg by blast
  then have "heap_ok hhdm_pfa_inv pfa_used demo_heap0 ?H"
    using inv unfolding heap_ok_def demo_heap0_def by simp
  then have "heap_frames demo_heap0 {6, 7}" unfolding heap_frames_def by (intro exI[of _ ?H]) auto
  from kernel_vm.newp_page[OF this demo_newp(1)] show ?thesis by auto
qed

lemma demo_boot_pde:
  "root demo_boot = 6"
  "pde_at demo_boot i = word_pde (if i = 0 then 0x7003 else if i = 768 then 0x183 else if i = 1015 then 0x1003
     else pmem demo_boot (6144 + i))"
  "i < 1024 \<Longrightarrow> i \<notin> {0, 768, 1015} \<Longrightarrow> pmem demo_boot (6144 + i) = 0"
  by (auto simp: root_def pde_at_def demo_boot_def)

lemma demo_boot_ok: "vm_ok heap_frames demo_boot {1, 6, 7}"
proof -
  have e: "pde_at demo_boot i = word_pde (if i = 0 then 0x7003 else if i = 768 then 0x183 else if i = 1015 then 0x1003 else 0)"
    if "i < 1024" for i using demo_boot_pde(2,3)[of i] that by auto
  have f: "is_table (word_pde 0x7003)" "frame (word_pde 0x7003) = 7" "\<not> is_table (word_pde 0x183)"
    "is_table (word_pde 0x1003)" "frame (word_pde 0x1003) = 1" "\<not> is_table (word_pde 0)"
    by (simp_all add: is_table_def word_pde_def field_def)
  have t: "is_table (pde_at demo_boot i) \<longleftrightarrow> i = 0 \<or> i = 1015" if "i < 1024" for i
    using e[OF that] f by (auto split: if_splits)
  have g: "frame (pde_at demo_boot 0) = 7" "frame (pde_at demo_boot 1015) = 1" using e f by simp_all
  have "pt_ok demo_boot {1, 6, 7}" unfolding pt_ok_def
    using t g demo_boot_pde(1) by (auto simp: demo_boot_def)
  then show ?thesis using demo_boot_frames by (simp add: vm_ok_def demo_boot_def)
qed

section \<open>Claims\<close>

lemma frame_of_phys:
  assumes "PG_ALIGNED (phys :: u64)"
  shows "push_bit 12 (ucast (ucast (drop_bit 12 phys) :: 20 word)) = (ucast phys :: u32)"
proof (rule bit_word_eqI)
  fix n assume n: "n < LENGTH(32)"
  have m: "(0xFFF :: u64) = mask 12" by (simp add: mask_eq_exp_minus_1)
  have "\<not> bit phys n" if "n < 12"
  proof -
    have "bit (phys AND mask 12) n = False" using assms unfolding PG_ALIGNED_def m by simp
    then show ?thesis using that by (simp only: bit_and_iff bit_mask_iff) simp
  qed
  then show "bit (push_bit 12 (ucast (ucast (drop_bit 12 phys) :: 20 word)) :: u32) n = bit (ucast phys :: u32) n"
    using n by (cases "n < 12") (auto simp: bit_push_bit_iff bit_ucast_iff bit_drop_bit_eq)
qed

text \<open>
  C3. Mapping a page never halts on aligned addresses outside huge pages. It succeeds exactly when the
  page is not mapped and a page table exists or can be allocated; then the processor translates the
  page to the given frame (its address modulo 4 GiB) with the given permissions, and every other
  address as before. When it fails no translation changes.
\<close>

theorem map_page_exact:
  assumes "vm_ok heap_frames s F" "PG_ALIGNED phys" "PG_ALIGNED virt" "e = pde_at s (unat (pd_index virt))"
    "\<not> (pde_p e \<and> pde_ps e)"
  shows "\<exists>r s' F'. map_page kernel_newp phys virt u_s r_w uc s = Some (r, s') \<and> vm_ok heap_frames s' F' \<and>
    (r \<longleftrightarrow> translate s virt = None \<and> (pde_p e \<or> (\<exists>q h'. kernel_newp (pages s) = Some (q, h') \<and> q \<noteq> 0))) \<and>
    (\<forall>v. translate s' v =
      (if r \<and> drop_bit 12 v = drop_bit 12 virt
       then Some (ucast phys OR (v AND mask 12), (pde_p e \<longrightarrow> pde_r_w e) \<and> r_w, (pde_p e \<longrightarrow> pde_u_s e) \<and> u_s)
       else translate s v))"
proof -
  obtain r s' F' where "map_page kernel_newp phys virt u_s r_w uc s = Some (r, s')" "vm_ok heap_frames s' F'"
    "r \<longleftrightarrow> translate s virt = None \<and> (pde_p e \<or> (\<exists>q h'. kernel_newp (pages s) = Some (q, h') \<and> q \<noteq> 0))"
    "\<forall>v. translate s' v = (if r \<and> drop_bit 12 v = drop_bit 12 virt
       then Some (push_bit 12 (ucast (ucast (drop_bit 12 phys) :: 20 word)) OR (v AND mask 12),
              (pde_p e \<longrightarrow> pde_r_w e) \<and> r_w, (pde_p e \<longrightarrow> pde_u_s e) \<and> u_s) else translate s v)"
    using kernel_vm.map_page_spec[OF assms(1,2,3) refl, folded assms(4), OF assms(5)] by blast
  then show ?thesis unfolding frame_of_phys[OF assms(2)] by blast
qed

theorem map_page_exact_witness:
  "\<exists>s'. map_page kernel_newp 0x5000 0x400000 True True False demo_mmu = Some (True, s') \<and>
     translate s' 0x400123 = Some (0x5123, True, True)"
proof -
  have a: "PG_ALIGNED (0x5000 :: u64)" "PG_ALIGNED (0x400000 :: u32)" by (simp_all add: PG_ALIGNED_def)
  obtain r s' F' where m: "map_page kernel_newp 0x5000 0x400000 True True False demo_mmu = Some (r, s')"
    "r \<longleftrightarrow> (\<exists>q h'. kernel_newp (pages demo_mmu) = Some (q, h') \<and> q \<noteq> 0)"
    "\<forall>v. translate s' v = (if r \<and> drop_bit 12 v = drop_bit 12 (0x400000 :: u32)
       then Some (ucast (0x5000 :: u64) OR (v AND mask 12), True, True) else None)"
    using map_page_exact[OF demo_vm_ok a refl, of True True False] by (auto simp: demo_pde)
  have r: r using m(2) demo_newp_pages by simp
  have "drop_bit 12 (0x400123 :: u32) = drop_bit 12 0x400000" by simp
  with r have "translate s' 0x400123 = Some (ucast (0x5000 :: u64) OR (0x400123 AND mask 12), True, True)"
    using m(3) by metis
  then show ?thesis using m(1) r by (simp add: mask_numeral)
qed

text \<open>
  C29. Unmapping undoes mapping: after a successful \<open>map\<close> of a page, \<open>unmap\<close> of it succeeds, invalidates the
  page's TLB entry and restores every translation; unmapping again reports that nothing was mapped.
\<close>

theorem map_unmap:
  assumes "vm_ok heap_frames s F" "PG_ALIGNED phys" "PG_ALIGNED virt" "e = pde_at s (unat (pd_index virt))"
    "\<not> (pde_p e \<and> pde_ps e)" "map_page kernel_newp phys virt u_s r_w uc s = Some (True, s1)"
  shows "\<exists>s2. unmap virt s1 = Some (True, s2) \<and> hd (invlpg s2) = virt \<and> (\<forall>v. translate s2 v = translate s v) \<and>
    unmap virt s2 = Some (False, s2)"
proof -
  obtain F' where M: "vm_ok heap_frames s1 F'" "translate s virt = None"
    "\<not> (pde_p (pde_at s1 (unat (pd_index virt))) \<and> pde_ps (pde_at s1 (unat (pd_index virt))))"
    "\<forall>v. drop_bit 12 v \<noteq> drop_bit 12 virt \<longrightarrow> translate s1 v = translate s v" "translate s1 virt \<noteq> None"
    using kernel_vm.map_page_spec[OF assms(1,2,3) refl, folded assms(4), OF assms(5), of u_s r_w uc] assms(6) by auto
  let ?e = "pde_at s1 (unat (pd_index virt))"
  define i where "i = 1024 * frame ?e + unat (pt_index virt)"
  define w where "w = pte_word (word_pte (pmem s1 i)\<lparr>pte_p := False\<rparr>)"
  have ok1: "pt_ok s1 F'" using M(1) by (simp add: vm_ok_def)
  have U: "is_table ?e" "unmap virt s1 = Some (True, set_word i w s1\<lparr>invlpg := virt # invlpg s1\<rparr>)"
    using update_pte_spec(2)[OF ok1 assms(3) refl M(3) i_def M(5)] by (auto simp: w_def)
  define s2 where "s2 = set_word i w s1\<lparr>invlpg := virt # invlpg s1\<rparr>"
  note S = set_pte[OF ok1 U(1) refl, folded i_def]
  have none: "translate s v = None" if "drop_bit 12 v = drop_bit 12 virt" for v
    using M(2) that[unfolded same_page_index] by (auto simp: translate_pde leaf_def Let_def split: if_splits)
  have "translate s2 v = translate s v" for v
    using S(2)[of w v] M(4) none[of v] by (simp add: s2_def leaf_def w_def split: if_splits)
  moreover have "pt_ok s2 F'" "pde_at s2 (unat (pd_index virt)) = ?e"
    using S(1)[of w] S(4)[OF pd_index_less, of w] by (simp_all add: s2_def pt_ok_invlpg)
  then have "unmap virt s2 = Some (False, s2)"
    using update_pte_spec(1)[of s2 F' virt ?e] assms(3) M(2,3) \<open>\<And>v. translate s2 v = translate s v\<close> by simp
  ultimately show ?thesis using U(2) by (auto simp: s2_def)
qed

theorem map_unmap_witness:
  "\<exists>s1 s2. map_page kernel_newp 0x5000 0x400000 True True False demo_mmu = Some (True, s1) \<and>
     unmap 0x400000 s1 = Some (True, s2) \<and> translate s2 0x400000 = None"
proof -
  have a: "PG_ALIGNED (0x5000 :: u64)" "PG_ALIGNED (0x400000 :: u32)" by (simp_all add: PG_ALIGNED_def)
  have h: "\<not> (pde_p (pde_at demo_mmu (unat (pd_index 0x400000))) \<and> pde_ps (pde_at demo_mmu (unat (pd_index 0x400000))))"
    by (simp add: demo_pde)
  obtain s1 where s1: "map_page kernel_newp 0x5000 0x400000 True True False demo_mmu = Some (True, s1)"
    using kernel_vm.map_page_spec[OF demo_vm_ok a refl h, of True True False] demo_newp_pages demo_pde(2)
    by auto
  show ?thesis using map_unmap[OF demo_vm_ok a refl h s1] s1 by (auto simp: demo_pde)
qed

text \<open>
  C10. A cloned page directory is a separate address space: after switching to it every kernel address
  translates as in the original and no user address is mapped; its page tables are frames the original
  does not use, and the original still translates every address as before. The original may be the boot
  loader's directory, whose frames are not the heap's; the heap never hands them out.
\<close>

theorem clone_separate_space:
  assumes "vm_ok heap_frames s F" "clone_kernel_page_directory kernel_newp s = Some (new_pd, t)"
  shows "\<exists>u F'. set_page_directory new_pd t = Some u \<and> vm_ok heap_frames u F' \<and> F \<subseteq> F' \<and>
    (\<forall>v. translate u v = (if hhdm_start \<le> v then translate s v else None)) \<and>
    (\<forall>i < 1024. is_table (pde_at u i) \<longrightarrow> frame (pde_at u i) \<notin> F) \<and>
    (\<forall>v. translate t v = translate s v)"
proof -
  have ok: "pt_ok s F" and pin: "heap_frames (pages s) F" using assms(1) by (auto simp: vm_ok_def)
  obtain pd where pd: "get_page_directory s = Some pd" "\<And>i. elem pd i = 1024 * root s + unat i"
    using get_page_directory_elem[OF ok] by auto
  define ns where "ns = [unat (hhdm_start div HUGE_PG_SZ)..<1024]"
  have "unat (hhdm_start div HUGE_PG_SZ) = 768" by (simp add: memdefs)
  then have ns: "set ns = {768..<1024}" "distinct ns" by (simp_all only: ns_def set_upt distinct_upt)
  obtain h' where q: "kernel_newp (pages s) = Some (new_pd, h')" "new_pd \<noteq> 0"
    "clone_loop kernel_newp pd new_pd ns (clear_page new_pd (s\<lparr>pages := h'\<rparr>)) = Some t"
    using assms(2) pd(1) unfolding clone_kernel_page_directory_def ns_def[symmetric]
    by (auto split: bind_splits if_splits)
  obtain k0 where k0: "unat new_pd = 0xC0000000 + 4096 * k0" "k0 < 0x3DC00" "k0 \<notin> F" "heap_frames h' (insert k0 F)"
    using kernel_vm.newp_page[OF pin q(1,2)] by blast
  have el: "elem new_pd 0 = 1024 * k0" using frame_pointer(1)[OF k0(1,2), of 0] by simp
  have "clone_inv heap_frames s F k0 {} (clear_page new_pd (s\<lparr>pages := h'\<rparr>)) (insert k0 F)"
  proof -
    have "(1024 * k0 \<le> n \<and> n < 1024 * k0 + 1024) = (n div 1024 = k0)" for n by auto
    then show ?thesis using k0(3,4) by (auto simp: clone_inv_def clear_page_def el)
  qed
  then have "\<exists>F'. clone_inv heap_frames s F k0 (set ns \<union> {}) t F'"
    by (rule kernel_vm.clone_loop_inv) (use q(3) k0 ok pd(2) ns in \<open>auto simp: unat_of_nat_small\<close>)
  then obtain F' where C: "clone_inv heap_frames s F k0 {768..<1024} t F'" using ns(1) by auto
  obtain phys where ph: "hhdm_to_direct new_pd = Some phys" "unat phys = 4096 * k0"
    using k0(1,2) by (auto simp: hhdm_to_direct_def memdefs word_le_nat_alt word_less_nat_alt ASSERT_def unat_sub_if')
  define u where "u = t\<lparr>cr3 := ucast phys\<rparr>"
  have u: "unat (cr3 u) = 4096 * k0" "pmem u = pmem t" "pages u = pages t" using ph(2) k0(2) by (simp_all add: u_def)
  have "translate t v = translate s v" for v
    by (rule translate_frame(1)[OF ok]) (use C in \<open>auto simp: clone_inv_def\<close>)
  moreover have "F \<subseteq> F'" using C by (simp add: clone_inv_def)
  moreover have "set_page_directory new_pd t = Some u" by (simp add: set_page_directory_def ph(1) u_def)
  ultimately show ?thesis using clone_inv_translate[OF ok C k0(3,2) u] by blast
qed

text \<open>Cloning the boot loader's directory, which takes the second and the third page of the heap.\<close>

lemma clone_loop_absent:
  "\<forall>i \<in> set is. pmem s (elem pd (of_nat i)) = 0 \<Longrightarrow> clone_loop newp pd new_pd is s = Some s"
  by (induction "is") (auto simp: clone_entry_def word_pde_def)

lemma clone_loop_append:
  "clone_loop newp pd new_pd (is @ js) s = clone_loop newp pd new_pd is s \<bind> clone_loop newp pd new_pd js"
  by (induction "is" arbitrary: s) (auto intro: arg_cong2[where f = Option.bind])

lemma demo_boot_clone: "\<exists>t. clone_kernel_page_directory kernel_newp demo_boot = Some (0xC0002000, t)"
proof -
  obtain h1 h2 where h1: "kernel_newp demo_heap = Some (0xC0002000, h1)" and h2: "kernel_newp h1 = Some (0xC0003000, h2)"
    by (rule demo_newp_twice)
  have pd: "get_page_directory demo_boot = Some 0xC0006000"
    by (simp add: get_page_directory_def direct_to_hhdm_def demo_boot_def memdefs)
  have el: "elem 0xC0006000 (of_nat i) = 6144 + i" "elem 0xC0002000 (of_nat i) = 2048 + i" if "i < 1024" for i
    using that by (simp_all add: elem_def memdefs unat_of_nat_small)
  define s0 where "s0 = clear_page 0xC0002000 (demo_boot\<lparr>pages := h1\<rparr>)"
  have m0: "pmem s0 (6144 + i) = pmem demo_boot (6144 + i)" "pages s0 = h1" for i
    using el(2)[of 0] by (simp_all add: s0_def clear_page_def)
  define s1 where "s1 = set_word 2816 0x183 s0"
  have e768: "clone_entry kernel_newp 0xC0006000 0xC0002000 (of_nat 768) s0 = Some s1"
    using m0(1)[of 768] el[of 768] by (simp add: clone_entry_def demo_boot_def word_pde_def s1_def)
  have m1: "pmem s1 (6144 + i) = pmem demo_boot (6144 + i)" "pages s1 = h1" for i
    by (simp_all add: s1_def set_word_def m0)
  obtain s2 where s2: "clone_entry kernel_newp 0xC0006000 0xC0002000 (of_nat 1015) s1 = Some s2"
    "\<And>i. pmem s2 (6144 + i) = pmem s1 (6144 + i)"
    using m1(1)[of 1015] el[of 1015] h2 m1(2)
    by (auto simp: clone_entry_def demo_boot_def word_pde_def field_def Let_def table_of_def direct_to_hhdm_def
        hhdm_to_direct_def memdefs set_word_def copy_page_def elem_def)
  have ns: "[unat (hhdm_start div HUGE_PG_SZ)..<1024] = 768 # [769..<1015] @ 1015 # [1016..<1024]"
    by (simp add: memdefs)
  have z: "pmem s1 (elem 0xC0006000 (of_nat i)) = 0" "pmem s2 (elem 0xC0006000 (of_nat i)) = 0"
    if "768 < i" "i < 1024" "i \<noteq> 1015" for i
    using that demo_boot_pde(3)[of i] by (simp_all add: el m1 s2(2))
  have z1: "clone_loop kernel_newp 0xC0006000 0xC0002000 [769..<1015] s1 = Some s1"
    by (rule clone_loop_absent) (unfold set_upt, use z(1) in force)
  have z2: "clone_loop kernel_newp 0xC0006000 0xC0002000 [1016..<1024] s2 = Some s2"
    by (rule clone_loop_absent) (unfold set_upt, use z(2) in force)
  have "clone_loop kernel_newp 0xC0006000 0xC0002000 [unat (hhdm_start div HUGE_PG_SZ)..<1024] s0 = Some s2"
    by (simp only: ns clone_loop.simps clone_loop_append e768 z1 s2(1) z2 Option.bind.bind_lunit)
  then show ?thesis
    using pd h1 unfolding clone_kernel_page_directory_def s0_def by (simp add: demo_boot_def)
qed

lemma demo_boot_translate:
  "translate demo_boot 0xFDC00010 \<noteq> None" "translate demo_boot 0xC0001234 \<noteq> None" "translate demo_boot 0x1000 \<noteq> None"
  unfolding translate_pde
  by (simp_all add: pde_at_def root_def demo_boot_def word_pde_def word_pte_def field_def Let_def pd_index_def pt_index_def leaf_def)

theorem clone_separate_space_witness:
  "\<exists>t u. clone_kernel_page_directory kernel_newp demo_boot = Some (0xC0002000, t) \<and>
     set_page_directory 0xC0002000 t = Some u \<and>
     translate demo_boot 0xFDC00010 \<noteq> None \<and> translate u 0xFDC00010 = translate demo_boot 0xFDC00010 \<and>
     translate u 0xC0001234 = translate demo_boot 0xC0001234 \<and>
     translate demo_boot 0x1000 \<noteq> None \<and> translate u 0x1000 = None"
proof -
  obtain t where t: "clone_kernel_page_directory kernel_newp demo_boot = Some (0xC0002000, t)"
    using demo_boot_clone by blast
  obtain u where u: "set_page_directory 0xC0002000 t = Some u"
    "\<forall>v. translate u v = (if hhdm_start \<le> v then translate demo_boot v else None)"
    using clone_separate_space[OF demo_boot_ok t] by auto
  then show ?thesis using t demo_boot_translate by (intro exI[of _ t] exI[of _ u]) (simp add: memdefs)
qed

text \<open>
  C30. \<open>io_alloc\<close> hands out consecutive, hence disjoint, regions of the I/O window, and null exactly when a
  request does not fit, as long as the request is below 2^20 - 2^10 pages. A request of 2^20 pages wraps
  around to no bytes: it succeeds and reserves nothing.
\<close>

theorem io_alloc_regions:
  assumes "unat off \<le> 0x400000"
  shows "(\<forall>pg. unat pg < 0xFFC00 \<longrightarrow>
      io_alloc pg off = (if unat off + 4096 * unat pg \<le> 0x400000
        then (io_map_start + off, off + push_bit 12 pg) else (0, off)) \<and>
      (unat off + 4096 * unat pg \<le> 0x400000 \<longrightarrow>
        unat (off + push_bit 12 pg) = unat off + 4096 * unat pg \<and>
        unat (io_map_start + off) + 4096 * unat pg \<le> unat kernel_map_start)) \<and>
    io_alloc 0x100000 off = (io_map_start + off, off)"
proof (intro conjI allI impI)
  fix pg :: u32 assume pg: "unat pg < 0xFFC00"
  have s: "unat (push_bit 12 pg) = 4096 * unat pg" using pg by (simp add: push_bit_eq_mult unat_word_ariths)
  have a: "unat (off + push_bit 12 pg) = (unat off + 4096 * unat pg) mod 2 ^ 32"
    by (simp only: unat_word_ariths s) simp
  show "unat (off + push_bit 12 pg) = unat off + 4096 * unat pg" if "unat off + 4096 * unat pg \<le> 0x400000"
    using a that by simp
  show "unat (io_map_start + off) + 4096 * unat pg \<le> unat kernel_map_start" if "unat off + 4096 * unat pg \<le> 0x400000"
    using that by (simp add: memdefs unat_word_ariths)
  show "io_alloc pg off = (if unat off + 4096 * unat pg \<le> 0x400000
        then (io_map_start + off, off + push_bit 12 pg) else (0, off))"
    using a pg assms by (simp only: io_alloc_def word_less_nat_alt) (simp add: memdefs)
next
  have "push_bit 12 (0x100000 :: u32) = 0" by simp
  then show "io_alloc 0x100000 off = (io_map_start + off, off)"
    unfolding io_alloc_def using assms by (simp only: word_less_nat_alt) (simp add: memdefs)
qed

theorem io_alloc_regions_witness: "io_alloc 2 0x1000 = (0xFDC01000, 0x3000)"
  using io_alloc_regions[of "0x1000"] by (auto simp: memdefs dest!: spec[of _ "2 :: u32"])

end
