(* ===== verification/Intrusive_List.thy ===== *)
theory Intrusive_List
  imports HmmOS_Prelude
begin

text \<open>
  The circular intrusive list of \<^verbatim>\<open>src/src/kernel/util/intrusive_list.h\<close>. The state holds the
  \<^verbatim>\<open>_next\<close> and \<^verbatim>\<open>_prev\<close> pointer of every node; a node that is in no list points to itself, and so does
  the sentinel of an empty list. Nodes are the elements of an arbitrary type. \<open>ring s xs\<close> relates the
  pointers to the cyclic list of nodes they form.
\<close>

section \<open>Definitions\<close>

record 'n links =
  nxt :: "'n \<Rightarrow> 'n"
  prv :: "'n \<Rightarrow> 'n"

text \<open>Construction: \<^verbatim>\<open>_next\<close> and \<^verbatim>\<open>_prev\<close> are initialised to the node itself.\<close>

definition init_node :: "'n \<Rightarrow> 'n links \<Rightarrow> 'n links" where
  "init_node x s = s\<lparr>nxt := (nxt s)(x := x), prv := (prv s)(x := x)\<rparr>"

definition set_nxt :: "'n \<Rightarrow> 'n \<Rightarrow> 'n links \<Rightarrow> 'n links" where
  "set_nxt x y s = s\<lparr>nxt := (nxt s)(x := y)\<rparr>"

definition set_prv :: "'n \<Rightarrow> 'n \<Rightarrow> 'n links \<Rightarrow> 'n links" where
  "set_prv x y s = s\<lparr>prv := (prv s)(x := y)\<rparr>"

definition il_begin :: "'n links \<Rightarrow> 'n \<Rightarrow> 'n" where "il_begin s x = nxt s x"

definition il_end :: "'n links \<Rightarrow> 'n \<Rightarrow> 'n" where "il_end s x = x"

definition il_empty :: "'n links \<Rightarrow> 'n \<Rightarrow> bool" where
  "il_empty s x \<longleftrightarrow> nxt s x = x"

text \<open>Each assignment of the source is one update, in the same order.\<close>

definition il_erase :: "'n \<Rightarrow> 'n links \<Rightarrow> 'n \<times> 'n links" where
  "il_erase x s =
     (if il_empty s x then (il_begin s x, s)
      else let s1 = set_prv (nxt s x) (prv s x) s;
               rval = nxt s1 x;
               s2 = set_nxt (prv s1 x) rval s1;
               s3 = set_nxt x x s2;
               s4 = set_prv x x s3
           in (rval, s4))"

definition il_push_front :: "'n \<Rightarrow> 'n \<Rightarrow> 'n links \<Rightarrow> 'n links" where
  "il_push_front x p s =
     (let s1 = snd (il_erase p s);
          s2 = set_prv p x s1;
          s3 = set_nxt p (nxt s2 x) s2;
          s4 = set_prv (nxt s3 x) p s3
      in set_nxt x p s4)"

definition il_push_back :: "'n \<Rightarrow> 'n \<Rightarrow> 'n links \<Rightarrow> 'n links" where
  "il_push_back x p s =
     (let s1 = snd (il_erase p s);
          s2 = set_prv p (prv s1 x) s1;
          s3 = set_nxt p x s2;
          s4 = set_nxt (prv s3 x) p s3
      in set_prv x p s4)"

fun il_insert_back :: "'n \<Rightarrow> 'n list \<Rightarrow> 'n links \<Rightarrow> 'n links" where
  "il_insert_back x [] s = s"
| "il_insert_back x (p # ps) s = il_insert_back x ps (il_push_back x p s)"

text \<open>The loops run along the pointers and need not end on pointers that do not form a ring.\<close>

partial_function (option) size_loop :: "'n links \<Rightarrow> 'n \<Rightarrow> 'n \<Rightarrow> u32 \<Rightarrow> u32 option" where
  "size_loop s start ptr rval =
     (if nxt s ptr = start then Some rval else size_loop s start (nxt s ptr) (rval + 1))"

definition il_size :: "'n links \<Rightarrow> 'n \<Rightarrow> u32 option" where
  "il_size s x = size_loop s x x 0"

partial_function (option) clear_loop :: "'n links \<Rightarrow> 'n \<Rightarrow> 'n links option" where
  "clear_loop s it =
     (if il_empty s it then Some s
      else case il_erase it s of (it', s') \<Rightarrow> clear_loop s' it')"

definition il_clear :: "'n links \<Rightarrow> 'n \<Rightarrow> 'n links option" where
  "il_clear s x = clear_loop s (il_begin s x)"

definition il_at :: "'n links \<Rightarrow> 'n \<Rightarrow> int \<Rightarrow> 'n" where
  "il_at s x n = (if n > 0 then (nxt s ^^ nat n) x else (prv s ^^ nat (- n)) x)"

section \<open>Rings\<close>

fun linked :: "'n links \<Rightarrow> 'n list \<Rightarrow> bool" where
  "linked s (a # b # xs) \<longleftrightarrow> nxt s a = b \<and> prv s b = a \<and> linked s (b # xs)"
| "linked s xs \<longleftrightarrow> True"

definition ring :: "'n links \<Rightarrow> 'n list \<Rightarrow> bool" where
  "ring s xs \<longleftrightarrow> xs \<noteq> [] \<and> distinct xs \<and> linked s (xs @ [hd xs])"

lemma links_simps [simp]:
  "nxt (set_nxt x y s) = (nxt s)(x := y)" "prv (set_nxt x y s) = prv s"
  "nxt (set_prv x y s) = nxt s" "prv (set_prv x y s) = (prv s)(x := y)"
  by (simp_all add: set_nxt_def set_prv_def)

lemma linked_append:
  "linked s (xs @ a # ys) \<longleftrightarrow> linked s (xs @ [a]) \<and> linked s (a # ys)"
  by (induction s xs rule: linked.induct) (auto split: list.splits)

lemma linked_snoc:
  "xs \<noteq> [] \<Longrightarrow> linked s (xs @ [b]) \<longleftrightarrow> linked s xs \<and> nxt s (last xs) = b \<and> prv s b = last xs"
  by (induction s xs rule: linked.induct) auto

lemma linked_cong:
  assumes "\<And>a. a \<in> set (butlast xs) \<Longrightarrow> nxt t a = nxt s a" and "\<And>a. a \<in> set (tl xs) \<Longrightarrow> prv t a = prv s a"
  shows "linked t xs \<longleftrightarrow> linked s xs"
  using assms by (induction s xs rule: linked.induct) auto

lemma ring_Cons:
  "ring s (x # ys) \<longleftrightarrow> x \<notin> set ys \<and> distinct ys \<and>
     (case ys of [] \<Rightarrow> nxt s x = x \<and> prv s x = x
      | y # zs \<Rightarrow> nxt s x = y \<and> prv s y = x \<and> linked s ys \<and> nxt s (last ys) = x \<and> prv s x = last ys)"
proof (cases ys)
  case (Cons y zs)
  have "linked s (y # zs @ [x]) \<longleftrightarrow> linked s (y # zs) \<and> nxt s (last (y # zs)) = x \<and> prv s x = last (y # zs)"
    using linked_snoc[of "y # zs" s x] by simp
  then show ?thesis by (auto simp: ring_def Cons)
qed (auto simp: ring_def)

lemma ring_rotate: "ring s (xs @ ys) \<Longrightarrow> ring s (ys @ xs)"
proof (cases xs; cases ys)
  fix a as b bs
  assume r: "ring s (xs @ ys)" and c: "xs = a # as" "ys = b # bs"
  have l: "linked s ((a # as) @ b # (bs @ [a]))" using r by (simp add: ring_def c)
  then have "linked s ((a # as) @ [b])" "linked s ((b # bs) @ [a])"
    using linked_append[of s "a # as" b "bs @ [a]"] by simp_all
  then have "linked s ((b # bs) @ a # (as @ [b]))" using linked_append[of s "b # bs" a "as @ [b]"] by simp
  then show ?thesis using r by (auto simp: ring_def c)
qed simp_all

lemma ring_rotate_to:
  assumes "ring s xs" and "x \<in> set xs"
  obtains as bs where "xs = as @ x # bs" "ring s (x # bs @ as)"
proof -
  obtain as bs where xs: "xs = as @ x # bs" using assms(2) by (auto simp: in_set_conv_decomp)
  then show thesis using that ring_rotate[of s as "x # bs"] assms(1) by simp
qed

text \<open>A ring only depends on the pointers of its own nodes.\<close>

lemma ring_frame:
  assumes "ring s xs" and "\<And>a. a \<in> set xs \<Longrightarrow> nxt t a = nxt s a" and "\<And>a. a \<in> set xs \<Longrightarrow> prv t a = prv s a"
  shows "ring t xs"
proof -
  have "linked t (xs @ [hd xs]) \<longleftrightarrow> linked s (xs @ [hd xs])"
    by (rule linked_cong) (use assms in \<open>auto simp: ring_def butlast_append dest: list.set_sel(2)\<close>)
  then show ?thesis using assms(1) by (simp add: ring_def)
qed

lemma ring_singleton: "ring s [x] \<longleftrightarrow> nxt s x = x \<and> prv s x = x"
  by (simp add: ring_Cons)

lemma ring_init: "ring (init_node x s) [x]"
  by (simp add: ring_singleton init_node_def)

lemma ring_empty_iff: "ring s (x # ys) \<Longrightarrow> il_empty s x \<longleftrightarrow> ys = []"
  by (cases ys) (auto simp: ring_Cons il_empty_def)

section \<open>Operations on rings\<close>

definition same_outside :: "'n set \<Rightarrow> 'n links \<Rightarrow> 'n links \<Rightarrow> bool" where
  "same_outside A s t \<longleftrightarrow> (\<forall>a. a \<notin> A \<longrightarrow> nxt t a = nxt s a \<and> prv t a = prv s a)"

lemma ring_same_outside: "ring s xs \<Longrightarrow> same_outside A s t \<Longrightarrow> set xs \<inter> A = {} \<Longrightarrow> ring t xs"
  by (rule ring_frame[of s]) (auto simp: same_outside_def)

lemma same_outside_trans: "same_outside A s t \<Longrightarrow> same_outside A t u \<Longrightarrow> same_outside A s u"
  by (simp add: same_outside_def)

lemma same_outside_mono: "same_outside A s t \<Longrightarrow> A \<subseteq> B \<Longrightarrow> same_outside B s t"
  by (auto simp: same_outside_def)

lemma erase_head:
  assumes r: "ring s (x # y # zs)"
  obtains t where "il_erase x s = (y, t)" "ring t (y # zs)" "ring t [x]"
    "same_outside (set (x # y # zs)) s t"
proof -
  let ?ys = "y # zs" and ?w = "last (y # zs)"
  let ?t = "set_prv x x (set_nxt x x (set_nxt ?w y (set_prv y ?w s)))"
  have f: "x \<notin> set ?ys" "distinct ?ys" "nxt s x = y" "prv s x = ?w" "linked s ?ys"
    using r by (auto simp: ring_Cons)
  have "x \<noteq> y" using f(1) by auto
  then have e: "il_erase x s = (y, ?t)" by (simp add: il_erase_def il_empty_def f(3,4) Let_def)
  have wx: "?w \<noteq> x" using f(1) last_in_set[of ?ys] by (metis list.distinct(1))
  have "nxt ?t a = nxt s a" if "a \<in> set (butlast ?ys)" for a
  proof -
    have "a \<in> set ?ys" using that by (rule in_set_butlastD)
    moreover have "?ys = butlast ?ys @ [?w]" by simp
    then have "?w \<notin> set (butlast ?ys)" using f(2) by (metis distinct_append disjoint_iff list.set_intros(1))
    ultimately show ?thesis using f(1) that by (auto simp: fun_upd_def)
  qed
  moreover have "prv ?t a = prv s a" if "a \<in> set (tl ?ys)" for a
    using that f(1,2) by auto
  ultimately have "linked ?t ?ys" using f(5) linked_cong[of ?ys ?t s] by blast
  then have "linked ?t (?ys @ [y])"
    using wx \<open>x \<noteq> y\<close> by (subst linked_snoc) auto
  then have "ring ?t ?ys" using f(2) by (simp add: ring_def)
  moreover have "ring ?t [x]" by (simp add: ring_singleton)
  moreover have "same_outside (set (x # y # zs)) s ?t"
    using last_in_set[of ?ys] by (auto simp: same_outside_def simp del: last.simps)
  ultimately show thesis using that[OF e] by blast
qed

lemma erase_member:
  assumes r: "ring s (h # ys)" and p: "p \<in> set ys"
  obtains q t where "il_erase p s = (q, t)" "ring t (h # remove1 p ys)" "ring t [p]"
    "same_outside (set (h # ys)) s t" "q = nxt s p"
proof -
  obtain as bs where ys: "ys = as @ p # bs" "p \<notin> set as" using p by (metis split_list_first)
  have ne: "bs @ h # as = hd (bs @ h # as) # tl (bs @ h # as)" by (cases bs) auto
  have rot: "ring s (p # bs @ h # as)" using ring_rotate[of s "h # as" "p # bs"] r ys by simp
  then have rot': "ring s (p # hd (bs @ h # as) # tl (bs @ h # as))" using ne by simp
  obtain t where t: "il_erase p s = (hd (bs @ h # as), t)" "ring t (bs @ h # as)" "ring t [p]"
    "same_outside (set (p # bs @ h # as)) s t"
    using erase_head[OF rot'] ne by (metis)
  have "ring t (h # remove1 p ys)" using ring_rotate[OF t(2)] ys by (simp add: remove1_append)
  moreover have "same_outside (set (h # ys)) s t"
    using t(4) by (rule same_outside_mono) (auto simp: ys)
  moreover have "hd (bs @ h # as) = nxt s p" using rot by (cases bs) (simp_all add: ring_Cons)
  ultimately show thesis using that t(1,3) by metis
qed

lemma erase_alone: "ring s [p] \<Longrightarrow> il_erase p s = (p, s)"
  by (simp add: ring_singleton il_erase_def il_empty_def il_begin_def)

text \<open>Insertion of a node that is in no list.\<close>

lemma insert_after:
  assumes r: "ring s (x # ys)" and p: "ring s [p]" "p \<notin> set (x # ys)"
  shows "ring (il_push_front x p s) (x # p # ys)"
    and "same_outside (set (x # ys) \<union> {p}) s (il_push_front x p s)"
proof -
  have e: "il_push_front x p s = set_nxt x p (set_prv (nxt s x) p (set_nxt p (nxt s x) (set_prv p x s)))"
    using p by (simp add: il_push_front_def erase_alone Let_def)
  have nx: "nxt s x \<in> set (x # ys)" using r by (cases ys) (auto simp: ring_Cons)
  then show "same_outside (set (x # ys) \<union> {p}) s (il_push_front x p s)"
    unfolding e same_outside_def by auto
  show "ring (il_push_front x p s) (x # p # ys)"
  proof (cases ys)
    case Nil
    then show ?thesis using r p unfolding e by (auto simp: ring_Cons)
  next
    case (Cons y zs)
    have f: "x \<notin> set ys" "distinct ys" "nxt s x = y" "nxt s (last ys) = x" "prv s x = last ys" "linked s ys"
      using r by (auto simp: ring_Cons Cons)
    let ?t = "il_push_front x p s"
    have a: "linked ?t ys \<longleftrightarrow> linked s ys"
      by (rule linked_cong) (use f p(2) in \<open>auto simp: e Cons dest: in_set_butlastD split: if_splits\<close>)
    have "last ys \<in> set ys" using Cons by simp
    then have b: "last ys \<noteq> x" "last ys \<noteq> p" using f(1) p(2) by auto
    show ?thesis
      using a b f p(2) unfolding ring_Cons by (auto simp: Cons e)
  qed
qed

lemma insert_before:
  assumes r: "ring s (x # ys)" and p: "ring s [p]" "p \<notin> set (x # ys)"
  shows "ring (il_push_back x p s) (x # ys @ [p])"
    and "same_outside (set (x # ys) \<union> {p}) s (il_push_back x p s)"
proof -
  have e: "il_push_back x p s = set_prv x p (set_nxt (prv s x) p (set_nxt p x (set_prv p (prv s x) s)))"
    using p by (auto simp: il_push_back_def erase_alone Let_def)
  have px: "prv s x \<in> set (x # ys)" using r by (cases ys) (auto simp: ring_Cons)
  then show "same_outside (set (x # ys) \<union> {p}) s (il_push_back x p s)"
    unfolding e same_outside_def by auto
  show "ring (il_push_back x p s) (x # ys @ [p])"
  proof (cases ys)
    case Nil
    then show ?thesis using r p unfolding e by (auto simp: ring_Cons)
  next
    case (Cons y zs)
    have f: "x \<notin> set ys" "distinct ys" "nxt s x = y" "prv s y = x" "prv s x = last ys" "linked s ys"
      using r by (auto simp: ring_Cons Cons)
    let ?t = "il_push_back x p s"
    have li: "last ys \<in> set ys" "last ys \<notin> set (butlast ys)"
      using f(2) Cons by (simp, metis append_butlast_last_id distinct_append disjoint_iff list.distinct(1) list.set_intros(1))
    then have b: "last ys \<noteq> x" "last ys \<noteq> p" using f(1) p(2) by auto
    have "linked ?t ys \<longleftrightarrow> linked s ys"
      by (rule linked_cong) (use f(1,5) p(2) b li in \<open>auto simp: e Cons dest: in_set_butlastD list.set_sel(2)\<close>)
    then have a: "linked ?t (ys @ [p])"
      using f(5,6) b p(2) by (subst linked_snoc) (auto simp: Cons e)
    show ?thesis
      using a b f p(2) unfolding ring_Cons by (auto simp: Cons e)
  qed
qed

text \<open>Pushing a node first takes it out of the list it is in.\<close>

lemma push_takes_out:
  "il_push_front x p s = il_push_front x p (snd (il_erase p s))"
  "il_push_back x p s = il_push_back x p (snd (il_erase p s))"
  if "ring (snd (il_erase p s)) [p]"
  using erase_alone[OF that] by (simp_all add: il_push_front_def il_push_back_def)

lemma push_member:
  assumes r: "ring s (h # ys)" and p: "p \<in> set ys"
  shows "ring (il_push_front h p s) (h # p # remove1 p ys)"
    "ring (il_push_back h p s) (h # remove1 p ys @ [p])"
    "same_outside (set (h # ys)) s (il_push_front h p s)"
    "same_outside (set (h # ys)) s (il_push_back h p s)"
proof -
  obtain q t where t: "il_erase p s = (q, t)" "ring t (h # remove1 p ys)" "ring t [p]"
    "same_outside (set (h # ys)) s t"
    using erase_member[OF r p] by metis
  have np: "p \<notin> set (h # remove1 p ys)" using r p by (auto simp: ring_def)
  have eq: "il_push_front h p s = il_push_front h p t" "il_push_back h p s = il_push_back h p t"
    using push_takes_out[of p s h] t(1,3) by simp_all
  have sub: "set (h # remove1 p ys) \<union> {p} \<subseteq> set (h # ys)" using p set_remove1_subset[of p ys] by auto
  show "ring (il_push_front h p s) (h # p # remove1 p ys)"
    "ring (il_push_back h p s) (h # remove1 p ys @ [p])"
    using insert_after(1)[OF t(2,3) np] insert_before(1)[OF t(2,3) np] eq by simp_all
  show "same_outside (set (h # ys)) s (il_push_front h p s)"
    "same_outside (set (h # ys)) s (il_push_back h p s)"
    using same_outside_mono[OF insert_after(2)[OF t(2,3) np] sub]
      same_outside_mono[OF insert_before(2)[OF t(2,3) np] sub] same_outside_trans[OF t(4)] eq by simp_all
qed

lemma push_from_other:
  assumes r: "ring s (h # ys)" and o: "ring s (k # zs)" "set (h # ys) \<inter> set (k # zs) = {}" and p: "p \<in> set zs"
  shows "ring (il_push_front h p s) (h # p # ys)" "ring (il_push_front h p s) (k # remove1 p zs)"
    "ring (il_push_back h p s) (h # ys @ [p])" "ring (il_push_back h p s) (k # remove1 p zs)"
proof -
  obtain q t where t: "il_erase p s = (q, t)" "ring t (k # remove1 p zs)" "ring t [p]"
    "same_outside (set (k # zs)) s t"
    using erase_member[OF o(1) p] by metis
  have rt: "ring t (h # ys)" by (rule ring_same_outside[OF r t(4) o(2)])
  have np: "p \<notin> set (h # ys)" using o(2) p by auto
  have eq: "il_push_front h p s = il_push_front h p t" "il_push_back h p s = il_push_back h p t"
    using push_takes_out[of p s h] t(1,3) by simp_all
  have dj: "set (k # remove1 p zs) \<inter> (set (h # ys) \<union> {p}) = {}"
    using o p set_remove1_subset[of p zs] by (auto simp: ring_def)
  show "ring (il_push_front h p s) (h # p # ys)" "ring (il_push_back h p s) (h # ys @ [p])"
    using insert_after(1)[OF rt t(3) np] insert_before(1)[OF rt t(3) np] eq by simp_all
  show "ring (il_push_front h p s) (k # remove1 p zs)" "ring (il_push_back h p s) (k # remove1 p zs)"
    using ring_same_outside[OF t(2) insert_after(2)[OF rt t(3) np] dj]
      ring_same_outside[OF t(2) insert_before(2)[OF rt t(3) np] dj] eq by simp_all
qed

section \<open>The loops\<close>

lemma size_loop_linked:
  assumes "linked s (p # ys @ [h])" and "h \<notin> set ys"
  shows "size_loop s h p n = Some (n + of_nat (length ys))"
  using assms
proof (induction ys arbitrary: p n)
  case Nil
  then show ?case by (subst size_loop.simps) simp
next
  case (Cons y ys)
  then have "size_loop s h p n = size_loop s h y (n + 1)" by (subst size_loop.simps) auto
  then show ?case using Cons by (simp add: add.assoc)
qed

lemma clear_loop_ring:
  assumes "ring s (y # zs @ [h])" 
  shows "\<exists>t. clear_loop s y = Some t \<and> ring t [h] \<and> (\<forall>z \<in> set (y # zs). ring t [z]) \<and>
    same_outside (set (y # zs @ [h])) s t"
  using assms
proof (induction zs arbitrary: s y)
  case Nil
  obtain t where t: "il_erase y s = (h, t)" "ring t [h]" "ring t [y]" "same_outside {y, h} s t"
    using erase_head[of s y h "[]"] Nil by (metis append_Nil list.simps(15) empty_set)
  have "\<not> il_empty s y" using ring_empty_iff Nil by fastforce
  then have "clear_loop s y = clear_loop t h" by (subst clear_loop.simps) (simp add: t(1))
  also have "\<dots> = Some t" using t(2) by (subst clear_loop.simps) (simp add: il_empty_def ring_singleton)
  finally show ?case using t by simp
next
  case (Cons z zs)
  obtain t where t: "il_erase y s = (z, t)" "ring t (z # zs @ [h])" "ring t [y]"
    "same_outside (set (y # z # zs @ [h])) s t"
    using erase_head[of s y z "zs @ [h]"] Cons.prems by (metis append_Cons)
  have "\<not> il_empty s y" using ring_empty_iff Cons.prems by fastforce
  then have "clear_loop s y = clear_loop t z" by (subst clear_loop.simps) (simp add: t(1))
  moreover obtain u where u: "clear_loop t z = Some u" "ring u [h]" "\<forall>w \<in> set (z # zs). ring u [w]"
    "same_outside (set (z # zs @ [h])) t u"
    using Cons.IH[OF t(2)] by blast
  moreover have "ring u [y]"
    using Cons.prems by (intro ring_same_outside[OF t(3) u(4)]) (auto simp: ring_def)
  moreover have "same_outside (set (y # (z # zs) @ [h])) s u"
    using same_outside_trans[OF t(4) same_outside_mono[OF u(4)]] by auto
  ultimately show ?case by auto
qed

section \<open>The interface of a list with a sentinel\<close>

text \<open>
  \<open>holds s h ys\<close>: the list with sentinel \<open>h\<close> has the elements \<open>ys\<close>; \<open>alone s p\<close>: node \<open>p\<close> is in no list.
\<close>

locale list_head =
  fixes holds :: "'s \<Rightarrow> 'n \<Rightarrow> 'n list \<Rightarrow> bool"
    and alone :: "'s \<Rightarrow> 'n \<Rightarrow> bool"
    and push_front :: "'n \<Rightarrow> 'n \<Rightarrow> 's \<Rightarrow> 's"
    and push_back :: "'n \<Rightarrow> 'n \<Rightarrow> 's \<Rightarrow> 's"
    and erase :: "'n \<Rightarrow> 's \<Rightarrow> 's"
  assumes holds_distinct: "holds s h ys \<Longrightarrow> distinct (h # ys)"
    and front_alone: "\<lbrakk>holds s h ys; alone s p; p \<notin> set (h # ys)\<rbrakk> \<Longrightarrow> holds (push_front h p s) h (p # ys)"
    and back_alone: "\<lbrakk>holds s h ys; alone s p; p \<notin> set (h # ys)\<rbrakk> \<Longrightarrow> holds (push_back h p s) h (ys @ [p])"
    and front_member: "\<lbrakk>holds s h ys; p \<in> set ys\<rbrakk> \<Longrightarrow> holds (push_front h p s) h (p # remove1 p ys)"
    and back_member: "\<lbrakk>holds s h ys; p \<in> set ys\<rbrakk> \<Longrightarrow> holds (push_back h p s) h (remove1 p ys @ [p])"
    and erase_removes: "\<lbrakk>holds s h ys; p \<in> set ys\<rbrakk> \<Longrightarrow> holds (erase p s) h (remove1 p ys) \<and> alone (erase p s) p"
begin

text \<open>Re-queueing the first element rotates the list, so every element comes to the front.\<close>

primrec requeue :: "'n \<Rightarrow> nat \<Rightarrow> 'n list \<Rightarrow> 's \<Rightarrow> 's" where
  "requeue h 0 ys s = s"
| "requeue h (Suc k) ys s = requeue h k (rotate1 ys) (push_back h (hd ys) s)"

lemma requeue_once: "holds s h (x # xs) \<Longrightarrow> holds (push_back h x s) h (xs @ [x])"
  using back_member[of s h "x # xs" x] by simp

lemma requeue_rotates: "holds s h ys \<Longrightarrow> ys \<noteq> [] \<Longrightarrow> holds (requeue h k ys s) h (rotate k ys)"
proof (induction k arbitrary: ys s)
  case (Suc k)
  obtain x xs where ys: "ys = x # xs" using Suc.prems(2) by (cases ys) auto
  have "holds (push_back h x s) h (rotate1 ys)" using requeue_once Suc.prems(1) by (simp add: ys)
  from Suc.IH[OF this] show ?case by (simp add: ys rotate1_rotate_swap)
qed simp

lemma every_element_reaches_front:
  assumes "holds s h ys" and "p \<in> set ys"
  shows "\<exists>k < length ys. \<exists>zs. holds (requeue h k ys s) h (p # zs)"
proof -
  obtain k where k: "k < length ys" "ys ! k = p" using assms(2) by (auto simp: in_set_conv_nth)
  have ne: "ys \<noteq> []" using assms(2) by auto
  have "rotate k ys = p # tl (rotate k ys)"
    using k hd_rotate_conv_nth[OF ne, of k] by (metis hd_Cons_tl mod_less ne rotate_is_Nil_conv)
  then show ?thesis using requeue_rotates[OF assms(1) ne, of k] k(1) by metis
qed

end

interpretation il: list_head "\<lambda>s h ys. ring s (h # ys)" "\<lambda>s p. ring s [p]" il_push_front il_push_back
  "\<lambda>p s. snd (il_erase p s)"
proof
  fix s :: "'b links" and h ys p
  assume r: "ring s (h # ys)"
  show "distinct (h # ys)" using r by (simp add: ring_def)
  show "ring (il_push_front h p s) (h # p # ys)" "ring (il_push_back h p s) (h # ys @ [p])"
    if "ring s [p]" "p \<notin> set (h # ys)"
    using insert_after(1)[OF r that] insert_before(1)[OF r that] by auto
  assume p: "p \<in> set ys"
  show "ring (il_push_front h p s) (h # p # remove1 p ys)"
    "ring (il_push_back h p s) (h # remove1 p ys @ [p])"
    using push_member[OF r p] by auto
  show "ring (snd (il_erase p s)) (h # remove1 p ys) \<and> ring (snd (il_erase p s)) [p]"
    using erase_member[OF r p] by (metis snd_conv)
qed

section \<open>Properties\<close>

text \<open>
  C23. Pushing a node on a list puts it at the front (or back), whether the node was in no list, further
  down in the same list, or in another list; in the last case the other list loses exactly that node.
\<close>

theorem il_push_spec:
  assumes "ring s (h # ys)" and "p \<noteq> h"
  shows "(ring s [p] \<and> p \<notin> set ys \<longrightarrow>
      ring (il_push_front h p s) (h # p # ys) \<and> ring (il_push_back h p s) (h # ys @ [p])) \<and>
    (p \<in> set ys \<longrightarrow> ring (il_push_front h p s) (h # p # remove1 p ys) \<and>
      ring (il_push_back h p s) (h # remove1 p ys @ [p])) \<and>
    (\<forall>k zs. ring s (k # zs) \<and> p \<in> set zs \<and> set (h # ys) \<inter> set (k # zs) = {} \<longrightarrow>
      ring (il_push_front h p s) (h # p # ys) \<and> ring (il_push_front h p s) (k # remove1 p zs) \<and>
      ring (il_push_back h p s) (h # ys @ [p]) \<and> ring (il_push_back h p s) (k # remove1 p zs))"
proof (intro conjI allI impI)
  assume "ring s [p] \<and> p \<notin> set ys"
  then have "ring s [p]" "p \<notin> set (h # ys)" using assms(2) by auto
  then show "ring (il_push_front h p s) (h # p # ys)" "ring (il_push_back h p s) (h # ys @ [p])"
    by (rule il.front_alone[OF assms(1)], rule il.back_alone[OF assms(1)])
next
  assume "p \<in> set ys"
  then show "ring (il_push_front h p s) (h # p # remove1 p ys)"
    "ring (il_push_back h p s) (h # remove1 p ys @ [p])"
    by (rule il.front_member[OF assms(1)], rule il.back_member[OF assms(1)])
next
  fix k zs assume "ring s (k # zs) \<and> p \<in> set zs \<and> set (h # ys) \<inter> set (k # zs) = {}"
  then have o: "ring s (k # zs)" "set (h # ys) \<inter> set (k # zs) = {}" "p \<in> set zs" by auto
  show "ring (il_push_front h p s) (h # p # ys)" "ring (il_push_front h p s) (k # remove1 p zs)"
    "ring (il_push_back h p s) (h # ys @ [p])" "ring (il_push_back h p s) (k # remove1 p zs)"
    by (rule push_from_other[OF assms(1) o])+
qed

theorem il_push_spec_witness:
  "ring (il_push_front (0 :: nat) 2 \<lparr>nxt = (\<lambda>x. x)(0 := 1, 1 := 2, 2 := 0), prv = (\<lambda>x. x)(0 := 2, 1 := 0, 2 := 1)\<rparr>)
     [0, 2, 1]"
  using il_push_spec[of "\<lparr>nxt = (\<lambda>x. x)(0 := 1, 1 := 2, 2 := 0), prv = (\<lambda>x. x)(0 := 2, 1 := 0, 2 := 1)\<rparr>"
      "0 :: nat" "[1, 2]" 2]
  by (simp add: ring_def)

text \<open>
  Erasing a node removes exactly it from its list, leaves it in no list and returns its successor;
  \<open>size\<close> returns the number of elements; \<open>clear\<close> returns and leaves the sentinel and every former
  element in no list.
\<close>

theorem il_erase_size_clear:
  assumes "ring s (h # ys)"
  shows "(\<forall>p \<in> set ys. \<exists>t. il_erase p s = (nxt s p, t) \<and> ring t (h # remove1 p ys) \<and> ring t [p]) \<and>
    il_size s h = Some (of_nat (length ys)) \<and>
    (\<exists>t. il_clear s h = Some t \<and> ring t [h] \<and> (\<forall>p \<in> set ys. ring t [p]))"
proof (intro conjI ballI)
  fix p assume "p \<in> set ys"
  then show "\<exists>t. il_erase p s = (nxt s p, t) \<and> ring t (h # remove1 p ys) \<and> ring t [p]"
    using erase_member[OF assms] by metis
next
  have "linked s (h # ys @ [h])" "h \<notin> set ys" using assms by (auto simp: ring_def)
  then show "il_size s h = Some (of_nat (length ys))" using size_loop_linked[of s h ys h 0] by (simp add: il_size_def)
next
  show "\<exists>t. il_clear s h = Some t \<and> ring t [h] \<and> (\<forall>p \<in> set ys. ring t [p])"
  proof (cases ys)
    case Nil
    then have "il_clear s h = Some s"
      using assms by (simp add: il_clear_def clear_loop.simps[of s h] il_begin_def il_empty_def ring_singleton)
    then show ?thesis using assms Nil by simp
  next
    case (Cons y zs)
    have "ring s (y # zs @ [h])" using ring_rotate[of s "[h]" "y # zs"] assms Cons by simp
    moreover have "il_begin s h = y" using assms Cons by (simp add: il_begin_def ring_Cons)
    ultimately show ?thesis using clear_loop_ring[of s y zs h] Cons by (auto simp: il_clear_def)
  qed
qed

theorem il_erase_size_clear_witness:
  "il_size \<lparr>nxt = (\<lambda>x. x)(0 := 1, 1 := 2, 2 := 0 :: nat), prv = (\<lambda>x. x)(0 := 2, 1 := 0, 2 := 1)\<rparr> 0 = Some 2"
  using il_erase_size_clear[of "\<lparr>nxt = (\<lambda>x. x)(0 := 1, 1 := 2, 2 := 0), prv = (\<lambda>x. x)(0 := 2, 1 := 0, 2 := 1)\<rparr>"
      "0 :: nat" "[1, 2]"]
  by (simp add: ring_def)

end
