(* ===== verification/Lru.thy ===== *)
theory Lru
  imports Intrusive_List "HOL-Library.AList"
begin

text \<open>
  The LRU cache of \<^verbatim>\<open>src/src/kernel/util/lru.h\<close>. A node is named by its key; the evictable list is an
  intrusive list whose sentinel is \<open>None\<close> and whose nodes are \<open>Some key\<close>. The map \<^verbatim>\<open>lookup\<close> is an
  association list. The two callbacks are arguments that act on a world \<open>world\<close> of the client. A lease
  is the key of its node, or \<open>None\<close> when it is empty; following the pointer of a lease whose node is
  gone is undefined, which is the outer \<open>None\<close>. The reference count is a C++ \<^verbatim>\<open>int\<close>: an increment or a
  decrement that leaves the 32-bit range is undefined, so it is \<open>None\<close> as well.
\<close>

section \<open>Definitions\<close>

record ('k, 'v) lru_node =
  refcount :: int
  key :: 'k
  val :: 'v

record ('k, 'v, 'w) lru_cache =
  lookup :: "('k \<times> ('k, 'v) lru_node) list"
  lru :: "'k option links"
  world :: 'w

type_synonym 'k lease = "'k option"

definition lru_size :: "('k, 'v, 'w) lru_cache \<Rightarrow> nat" where
  "lru_size c = length (lookup c)"

definition evictable :: "('k, 'v, 'w) lru_cache \<Rightarrow> u32 option" where
  "evictable c = il_size (lru c) None"

definition lease_empty :: "'k lease \<Rightarrow> bool" where
  "lease_empty l \<longleftrightarrow> l = None"

definition lease_value :: "('k, 'v, 'w) lru_cache \<Rightarrow> 'k lease \<Rightarrow> 'v option" where
  "lease_value c l = do { k \<leftarrow> l; n \<leftarrow> map_of (lookup c) k; Some (val n) }"

definition active_leases :: "('k, 'v, 'w) lru_cache \<Rightarrow> 'k lease \<Rightarrow> int option" where
  "active_leases c l = do { k \<leftarrow> l; n \<leftarrow> map_of (lookup c) k; Some (refcount n) }"

abbreviation INT_MAX :: int where
  "INT_MAX \<equiv> 2147483647"

abbreviation INT_MIN :: int where
  "INT_MIN \<equiv> -2147483648"

definition inc_leases :: "'k \<Rightarrow> ('k, 'v, 'w) lru_cache \<Rightarrow> ('k, 'v, 'w) lru_cache option" where
  "inc_leases k c = do {
     n \<leftarrow> map_of (lookup c) k;
     ASSERT (refcount n < INT_MAX);
     let rc = refcount n + 1;
     let c' = c\<lparr>lookup := AList.update k (n\<lparr>refcount := rc\<rparr>) (lookup c)\<rparr>;
     Some (if rc = 1 then c'\<lparr>lru := snd (il_erase (Some k) (lru c'))\<rparr> else c')
   }"

definition dec_leases :: "'k \<Rightarrow> ('k, 'v, 'w) lru_cache \<Rightarrow> ('k, 'v, 'w) lru_cache option" where
  "dec_leases k c = do {
     n \<leftarrow> map_of (lookup c) k;
     ASSERT (INT_MIN < refcount n);
     let rc = refcount n - 1;
     let c' = c\<lparr>lookup := AList.update k (n\<lparr>refcount := rc\<rparr>) (lookup c)\<rparr>;
     Some (if rc = 0 then c'\<lparr>lru := il_push_front None (Some k) (lru c')\<rparr> else c')
   }"

text \<open>
  The destructor of a lease: the pair is what it leaves in the lease object, whose node pointer it does
  not write, and the cache. A lease that goes out of scope runs it once; the object is gone then.
\<close>

definition lease_dtor ::
  "'k lease \<Rightarrow> ('k, 'v, 'w) lru_cache \<Rightarrow> ('k lease \<times> ('k, 'v, 'w) lru_cache) option" where
  "lease_dtor l c = (case l of
       None \<Rightarrow> Some (l, c)
     | Some k \<Rightarrow> do { c' \<leftarrow> dec_leases k c; Some (l, c') })"

definition lease_drop :: "'k lease \<Rightarrow> ('k, 'v, 'w) lru_cache \<Rightarrow> ('k, 'v, 'w) lru_cache option" where
  "lease_drop l c = do { (_, c') \<leftarrow> lease_dtor l c; Some c' }"

text \<open>Moving a lease swaps the node pointers: the pair is the target and the source afterwards.\<close>

definition lease_move :: "'k lease \<Rightarrow> 'k lease \<Rightarrow> 'k lease \<times> 'k lease" where
  "lease_move target source = (source, target)"

definition LRUCache :: "'w \<Rightarrow> 'k option links \<Rightarrow> ('k, 'v, 'w) lru_cache" where
  "LRUCache w ls = \<lparr>lookup = [], lru = init_node None ls, world = w\<rparr>"

definition lru_get ::
  "('k \<Rightarrow> 'w \<Rightarrow> 'v \<times> 'w) \<Rightarrow> 'k \<Rightarrow> bool \<Rightarrow> ('k, 'v, 'w) lru_cache
     \<Rightarrow> ('k lease \<times> ('k, 'v, 'w) lru_cache) option" where
  "lru_get populate_cache k insert_if_missing c =
     (case map_of (lookup c) k of
        Some n \<Rightarrow> do { c' \<leftarrow> inc_leases k c; Some (Some k, c') }
      | None \<Rightarrow>
          if insert_if_missing then
            case populate_cache k (world c) of
              (v, w) \<Rightarrow> do {
                let c1 = c\<lparr>lookup := AList.update k \<lparr>refcount = 0, key = k, val = v\<rparr> (lookup c),
                           lru := init_node (Some k) (lru c), world := w\<rparr>;
                c2 \<leftarrow> inc_leases k c1;
                Some (Some k, c2)
              }
          else Some (None, c))"

definition evict_one_node ::
  "('k \<Rightarrow> 'v \<Rightarrow> 'w \<Rightarrow> 'w) \<Rightarrow> 'k \<Rightarrow> ('k, 'v, 'w) lru_cache \<Rightarrow> ('k, 'v, 'w) lru_cache option" where
  "evict_one_node on_evict k c = do {
     n \<leftarrow> map_of (lookup c) k;
     ASSERT (refcount n = 0);
     Some (c\<lparr>world := on_evict (key n) (val n) (world c),
             lru := snd (il_erase (Some k) (lru c)),
             lookup := AList.delete (key n) (lookup c)\<rparr>)
   }"

partial_function (option) evict_loop ::
  "('k \<Rightarrow> 'v \<Rightarrow> 'w \<Rightarrow> 'w) \<Rightarrow> nat \<Rightarrow> nat \<Rightarrow> ('k, 'v, 'w) lru_cache
     \<Rightarrow> (nat \<times> ('k, 'v, 'w) lru_cache) option" where
  "evict_loop on_evict size_hint evicted c =
     (if lru_size c > size_hint \<and> \<not> il_empty (lru c) None then
        case prv (lru c) None of
          None \<Rightarrow> None
        | Some k \<Rightarrow> do {
            c' \<leftarrow> evict_one_node on_evict k c;
            evict_loop on_evict size_hint (Suc evicted) c'
          }
      else Some (evicted, c))"

definition evict ::
  "('k \<Rightarrow> 'v \<Rightarrow> 'w \<Rightarrow> 'w) \<Rightarrow> nat \<Rightarrow> ('k, 'v, 'w) lru_cache \<Rightarrow> (nat \<times> ('k, 'v, 'w) lru_cache) option" where
  "evict on_evict size_hint c = evict_loop on_evict size_hint 0 c"

text \<open>
  Eviction through a lease, passed by reference: the result is the returned flag, the lease object as
  the call leaves it, and the cache. The destructor is called explicitly on the caller's object.
\<close>

definition evict_one ::
  "('k \<Rightarrow> 'v \<Rightarrow> 'w \<Rightarrow> 'w) \<Rightarrow> 'k lease \<Rightarrow> ('k, 'v, 'w) lru_cache
     \<Rightarrow> (bool \<times> 'k lease \<times> ('k, 'v, 'w) lru_cache) option" where
  "evict_one on_evict l c = do {
     k \<leftarrow> l;
     n \<leftarrow> map_of (lookup c) k;
     if refcount n \<noteq> 1 then Some (False, l, c)
     else do {
       (l', c') \<leftarrow> lease_dtor l c;
       c'' \<leftarrow> evict_one_node on_evict k c';
       Some (True, l', c'')
     }
   }"

section \<open>The invariant\<close>

text \<open>\<open>ys\<close>: the evictable keys, the most recently released first.\<close>

definition lru_inv :: "('k, 'v, 'w) lru_cache \<Rightarrow> 'k list \<Rightarrow> bool" where
  "lru_inv c ys \<longleftrightarrow> distinct (map fst (lookup c)) \<and> ring (lru c) (None # map Some ys) \<and>
     (\<forall>k n. map_of (lookup c) k = Some n \<longrightarrow> key n = k \<and> 0 \<le> refcount n \<and>
        (refcount n = 0 \<longleftrightarrow> k \<in> set ys) \<and> (refcount n > 0 \<longrightarrow> ring (lru c) [Some k])) \<and>
     (\<forall>k \<in> set ys. map_of (lookup c) k \<noteq> None)"

lemma lru_invD:
  assumes "lru_inv c ys"
  shows "distinct (map fst (lookup c))" "ring (lru c) (None # map Some ys)" "distinct ys"
    "map_of (lookup c) k = Some n \<Longrightarrow> key n = k"
    "map_of (lookup c) k = Some n \<Longrightarrow> 0 \<le> refcount n"
    "map_of (lookup c) k = Some n \<Longrightarrow> refcount n = 0 \<longleftrightarrow> k \<in> set ys"
    "map_of (lookup c) k = Some n \<Longrightarrow> refcount n > 0 \<Longrightarrow> ring (lru c) [Some k]"
    "k \<in> set ys \<Longrightarrow> map_of (lookup c) k \<noteq> None"
  using assms by (auto simp: lru_inv_def ring_def distinct_map)

lemma remove1_Some: "remove1 (Some k) (map Some ys) = map Some (remove1 k ys)"
  by (induction ys) auto

lemma ring_alone_frame:
  assumes "ring s [Some k]" and "same_outside A s t" and "Some k \<notin> A"
  shows "ring t [Some k]"
  by (rule ring_same_outside[OF assms(1,2)]) (use assms(3) in simp)

lemma LRUCache_inv: "lru_inv (LRUCache w ls) []"
  by (simp add: lru_inv_def LRUCache_def ring_init)

lemmas alist_simps = AList.update_conv' AList.delete_conv'

lemma alist_update_length: "map_of al k \<noteq> None \<Longrightarrow> length (AList.update k v al) = length al"
  by (induction al) auto

lemma alist_delete_length:
  "distinct (map fst al) \<Longrightarrow> map_of al k \<noteq> None \<Longrightarrow> Suc (length (AList.delete k al)) = length al"
proof (induction al)
  case (Cons p al)
  show ?case
  proof (cases "fst p = k")
    case True
    then have "k \<notin> fst ` set al" using Cons.prems(1) by auto
    then have "AList.delete k al = al" by (rule AList.delete_id)
    then show ?thesis using True by (cases p) simp
  next
    case False
    then show ?thesis using Cons by (cases p) simp
  qed
qed simp

lemma lease_drop_simps [simp]:
  "lease_drop None c = Some c" "lease_drop (Some k) c = dec_leases k c"
  by (simp_all add: lease_drop_def lease_dtor_def)

lemma inc_leases_inv:
  assumes inv: "lru_inv c ys" and n: "map_of (lookup c) k = Some n" and max: "refcount n < INT_MAX"
  obtains c' where "inc_leases k c = Some c'" "lru_inv c' (remove1 k ys)"
    "map_of (lookup c') = (map_of (lookup c))(k \<mapsto> n\<lparr>refcount := refcount n + 1\<rparr>)"
    "world c' = world c" "lru_size c' = lru_size c"
proof -
  note I = lru_invD[OF inv]
  let ?l = "AList.update k (n\<lparr>refcount := refcount n + 1\<rparr>) (lookup c)"
  have ml: "map_of ?l = (map_of (lookup c))(k \<mapsto> n\<lparr>refcount := refcount n + 1\<rparr>)"
    by (simp add: alist_simps)
  have dl: "distinct (map fst ?l)" using I(1) by (rule distinct_update)
  have ll: "length ?l = length (lookup c)"
    using n by (simp add: alist_update_length)
  have st: "\<exists>s'. (if refcount n + 1 = 1 then snd (il_erase (Some k) (lru c)) else lru c) = s' \<and>
    ring s' (None # map Some (remove1 k ys)) \<and> ring s' [Some k] \<and>
    (\<forall>j. j \<notin> set ys \<longrightarrow> ring (lru c) [Some j] \<longrightarrow> ring s' [Some j])"
  proof (cases "k \<in> set ys")
    case True
    then have m: "Some k \<in> set (map Some ys)" by simp
    obtain q t where t: "il_erase (Some k) (lru c) = (q, t)"
      "ring t (None # remove1 (Some k) (map Some ys))" "ring t [Some k]"
      "same_outside (set (None # map Some ys)) (lru c) t"
      using erase_member[OF I(2) m] by metis
    have "refcount n = 0" using I(6)[OF n] True by simp
    then show ?thesis using t ring_alone_frame[OF _ t(4)] by (auto simp: remove1_Some)
  next
    case False
    then have "refcount n > 0" using I(5,6)[OF n] by force
    then show ?thesis using I(2) I(7)[OF n] False by (auto simp: remove1_idem)
  qed
  then obtain s' where s': "(if refcount n + 1 = 1 then snd (il_erase (Some k) (lru c)) else lru c) = s'"
    "ring s' (None # map Some (remove1 k ys))" "ring s' [Some k]"
    "\<forall>j. j \<notin> set ys \<longrightarrow> ring (lru c) [Some j] \<longrightarrow> ring s' [Some j]" by blast
  let ?c = "c\<lparr>lookup := ?l, lru := s'\<rparr>"
  have e: "inc_leases k c = Some ?c" using n max s'(1) by (auto simp: inc_leases_def Let_def)
  have "key m = j \<and> 0 \<le> refcount m \<and> (refcount m = 0 \<longleftrightarrow> j \<in> set (remove1 k ys)) \<and>
      (refcount m > 0 \<longrightarrow> ring s' [Some j])"
    if "map_of ?l j = Some m" for j m
  proof (cases "j = k")
    case True
    then show ?thesis using that I(3) I(4)[OF n] I(5)[OF n] s'(3) by (auto simp: ml)
  next
    case False
    then have m: "map_of (lookup c) j = Some m" using that by (simp add: ml)
    then show ?thesis using False I(4-7)[OF m] s'(4) I(3) by (auto simp: set_remove1_eq)
  qed
  moreover have "\<forall>j \<in> set (remove1 k ys). map_of ?l j \<noteq> None"
    using I(8) set_remove1_subset[of k ys] by (auto simp: ml)
  ultimately have "lru_inv ?c (remove1 k ys)" unfolding lru_inv_def using dl s'(2) by simp
  then show thesis using that[OF e] ml ll by (simp add: lru_size_def)
qed

lemma dec_leases_inv:
  assumes inv: "lru_inv c ys" and n: "map_of (lookup c) k = Some n" and pos: "refcount n > 0"
  obtains c' where "dec_leases k c = Some c'" "lru_inv c' (if refcount n = 1 then k # ys else ys)"
    "map_of (lookup c') = (map_of (lookup c))(k \<mapsto> n\<lparr>refcount := refcount n - 1\<rparr>)"
    "world c' = world c"
proof -
  note I = lru_invD[OF inv]
  let ?l = "AList.update k (n\<lparr>refcount := refcount n - 1\<rparr>) (lookup c)"
  let ?ys = "if refcount n = 1 then k # ys else ys"
  let ?s = "if refcount n - 1 = 0 then il_push_front None (Some k) (lru c) else lru c"
  have ml: "map_of ?l = (map_of (lookup c))(k \<mapsto> n\<lparr>refcount := refcount n - 1\<rparr>)"
    by (simp add: alist_simps)
  have dl: "distinct (map fst ?l)" using I(1) by (rule distinct_update)
  have kn: "k \<notin> set ys" using I(6)[OF n] pos by simp
  have al: "ring (lru c) [Some k]" by (rule I(7)[OF n pos])
  have out: "Some k \<notin> set (None # map Some ys)" using kn by auto
  have r: "ring ?s (None # map Some ?ys)"
    using insert_after(1)[OF I(2) al out] I(2) by auto
  have o: "ring ?s [Some j]" if "ring (lru c) [Some j]" "j \<notin> set ?ys" for j
    using that ring_alone_frame[OF that(1) insert_after(2)[OF I(2) al out]] by (auto split: if_splits)
  let ?c = "c\<lparr>lookup := ?l, lru := ?s\<rparr>"
  have e: "dec_leases k c = Some ?c" using n pos by (auto simp: dec_leases_def Let_def)
  have "key m = j \<and> 0 \<le> refcount m \<and> (refcount m = 0 \<longleftrightarrow> j \<in> set ?ys) \<and> (refcount m > 0 \<longrightarrow> ring ?s [Some j])"
    if "map_of ?l j = Some m" for j m
  proof (cases "j = k")
    case True
    then have m: "m = n\<lparr>refcount := refcount n - 1\<rparr>" using that by (simp add: ml)
    show ?thesis using True I(4)[OF n] pos kn o[OF al] by (auto simp: m)
  next
    case False
    then have m: "map_of (lookup c) j = Some m" using that by (simp add: ml)
    then show ?thesis using False I(4-7)[OF m] o[of j] by auto
  qed
  moreover have "\<forall>j \<in> set ?ys. map_of ?l j \<noteq> None" using I(8) by (auto simp: ml)
  ultimately have "lru_inv ?c ?ys" unfolding lru_inv_def using dl r by simp
  then show thesis using that[OF e] ml by simp
qed

lemma evict_one_node_inv:
  assumes inv: "lru_inv c ys" and k: "k \<in> set ys"
  obtains c' n where "evict_one_node f k c = Some c'" "lru_inv c' (remove1 k ys)"
    "map_of (lookup c) k = Some n" "world c' = f k (val n) (world c)"
    "map_of (lookup c') = (map_of (lookup c))(k := None)" "Suc (lru_size c') = lru_size c"
proof -
  note I = lru_invD[OF inv]
  obtain n where n: "map_of (lookup c) k = Some n" using I(8)[OF k] by blast
  have n0: "refcount n = 0" "key n = k" using I(4,6)[OF n] k by auto
  have m: "Some k \<in> set (map Some ys)" using k by simp
  obtain q t where t: "il_erase (Some k) (lru c) = (q, t)"
    "ring t (None # remove1 (Some k) (map Some ys))" "ring t [Some k]"
    "same_outside (set (None # map Some ys)) (lru c) t"
    using erase_member[OF I(2) m] by metis
  let ?l = "AList.delete k (lookup c)"
  have ml: "map_of ?l = (map_of (lookup c))(k := None)" by (simp add: alist_simps)
  have dl: "distinct (map fst ?l)" using I(1) by (rule distinct_delete)
  let ?c = "c\<lparr>world := f k (val n) (world c), lru := t, lookup := ?l\<rparr>"
  have e: "evict_one_node f k c = Some ?c" using n n0 t(1) by (simp add: evict_one_node_def)
  have "key m = j \<and> 0 \<le> refcount m \<and> (refcount m = 0 \<longleftrightarrow> j \<in> set (remove1 k ys)) \<and>
      (refcount m > 0 \<longrightarrow> ring t [Some j])" if "map_of ?l j = Some m" for j m
  proof -
    have j: "j \<noteq> k" "map_of (lookup c) j = Some m" using that by (auto simp: ml split: if_splits)
    have "ring t [Some j]" if "refcount m > 0"
      using ring_alone_frame[OF I(7)[OF j(2) that] t(4)] I(6)[OF j(2)] that by auto
    then show ?thesis using I(3) I(4-6)[OF j(2)] j(1) by (auto simp: set_remove1_eq)
  qed
  moreover have "\<forall>j \<in> set (remove1 k ys). map_of ?l j \<noteq> None"
    using I(3,8) by (auto simp: ml set_remove1_eq)
  ultimately have i': "lru_inv ?c (remove1 k ys)" unfolding lru_inv_def using dl t(2) by (simp add: remove1_Some)
  have "Suc (length ?l) = length (lookup c)" using alist_delete_length[OF I(1)] n by simp
  then show thesis using that[OF e i' n] ml n0 by (simp add: lru_size_def)
qed

text \<open>The least recently released key is the last one, the sentinel's predecessor.\<close>

lemma lru_prev:
  assumes "lru_inv c ys"
  shows "il_empty (lru c) None \<longleftrightarrow> ys = []" "ys \<noteq> [] \<Longrightarrow> prv (lru c) None = Some (last ys)"
proof -
  note r = lru_invD(2)[OF assms]
  show "il_empty (lru c) None \<longleftrightarrow> ys = []" using ring_empty_iff[OF r] by simp
  show "prv (lru c) None = Some (last ys)" if "ys \<noteq> []"
    using r that by (cases ys) (auto simp: ring_Cons last_map)
qed

lemma evict_loop_spec:
  assumes "lru_inv c ys"
  shows "\<exists>c'. let n = min (lru_size c - hint) (length ys) in
    evict_loop f hint e c = Some (e + n, c') \<and> lru_inv c' (take (length ys - n) ys) \<and>
    lru_size c' = lru_size c - n \<and>
    map_of (lookup c') = (map_of (lookup c)) |` (- set (drop (length ys - n) ys))"
  using assms
proof (induction "length ys" arbitrary: c ys e)
  case 0
  then have "evict_loop f hint e c = Some (e, c)"
    using lru_prev(1)[OF 0(2)] by (subst evict_loop.simps) auto
  then show ?case using 0 by (simp add: restrict_map_def)
next
  case (Suc m)
  have ne: "ys \<noteq> []" using Suc.hyps(2) by auto
  note P = lru_prev[OF Suc.prems] and D = lru_invD(3)[OF Suc.prems]
  show ?case
  proof (cases "lru_size c > hint")
    case False
    then have "evict_loop f hint e c = Some (e, c)" by (subst evict_loop.simps) auto
    then show ?thesis using False Suc.prems by (simp add: restrict_map_def)
  next
    case True
    obtain zs x where zs: "ys = zs @ [x]" using ne by (cases ys rule: rev_cases) auto
    have x: "last ys = x" "x \<in> set ys" using zs by simp_all
    have rm: "remove1 x ys = zs" using D zs by (simp add: remove1_append)
    obtain c1 where c1: "evict_one_node f x c = Some c1" "lru_inv c1 zs"
      "map_of (lookup c1) = (map_of (lookup c))(x := None)" "Suc (lru_size c1) = lru_size c"
      using evict_one_node_inv[OF Suc.prems x(2)] rm by metis
    have step: "evict_loop f hint e c = evict_loop f hint (Suc e) c1"
      using True P(1) P(2)[OF ne] ne c1(1) x(1) by (subst evict_loop.simps) simp
    have len: "m = length zs" "length ys = Suc (length zs)" using Suc.hyps(2) zs by simp_all
    let ?n = "min (lru_size c1 - hint) (length zs)"
    obtain c' where c': "evict_loop f hint (Suc e) c1 = Some (Suc e + ?n, c')"
      "lru_inv c' (take (length zs - ?n) zs)" "lru_size c' = lru_size c1 - ?n"
      "map_of (lookup c') = (map_of (lookup c1)) |` (- set (drop (length zs - ?n) zs))"
      using Suc.hyps(1)[OF len(1) c1(2), of "Suc e"] by (auto simp: Let_def)
    have n: "min (lru_size c - hint) (length ys) = Suc ?n" using True c1(4) len(2) by auto
    have tk: "take (length ys - Suc ?n) ys = take (length zs - ?n) zs"
      "drop (length ys - Suc ?n) ys = drop (length zs - ?n) zs @ [x]"
      by (simp_all add: zs)
    have "map_of (lookup c') = (map_of (lookup c)) |` (- set (drop (length zs - ?n) zs @ [x]))"
      unfolding c'(4) c1(3) by (auto simp: restrict_map_def fun_eq_iff)
    moreover have "lru_size c' = lru_size c - Suc ?n" using c1(4) c'(3) by linarith
    moreover have "evict_loop f hint e c = Some (e + Suc ?n, c')" using step c'(1) by simp
    ultimately show ?thesis unfolding Let_def n tk using c'(2) by blast
  qed
qed

lemma lru_get_spec:
  assumes "lru_inv c ys" and "lru_get pop k True c = Some (l, c')"
  shows "l = Some k \<and> lru_inv c' (remove1 k ys) \<and> (\<exists>n. map_of (lookup c') k = Some n \<and>
    (case map_of (lookup c) k of
       Some m \<Rightarrow> n = m\<lparr>refcount := refcount m + 1\<rparr> \<and> world c' = world c
     | None \<Rightarrow> n = \<lparr>refcount = 1, key = k, val = fst (pop k (world c))\<rparr> \<and> world c' = snd (pop k (world c)))) \<and>
    (\<forall>j. j \<noteq> k \<longrightarrow> map_of (lookup c') j = map_of (lookup c) j)"
proof (cases "map_of (lookup c) k")
  case (Some n)
  have "refcount n < INT_MAX"
    using assms(2) Some by (auto simp: lru_get_def inc_leases_def split: bind_splits if_splits)
  then obtain d where d: "inc_leases k c = Some d" "lru_inv d (remove1 k ys)"
    "map_of (lookup d) = (map_of (lookup c))(k \<mapsto> n\<lparr>refcount := refcount n + 1\<rparr>)" "world d = world c"
    using inc_leases_inv[OF assms(1) Some] by metis
  then show ?thesis using assms(2) Some by (simp add: lru_get_def)
next
  case None
  note I = lru_invD[OF assms(1)]
  let ?n = "\<lparr>refcount = 0, key = k, val = fst (pop k (world c))\<rparr>"
  let ?l = "AList.update k ?n (lookup c)"
  let ?c1 = "c\<lparr>lookup := ?l, lru := init_node (Some k) (lru c), world := snd (pop k (world c))\<rparr>"
  have ml: "map_of ?l = (map_of (lookup c))(k \<mapsto> ?n)" by (simp add: alist_simps)
  have ky: "k \<notin> set ys" using I(8)[of k] None by blast
  have r: "ring (init_node (Some k) (lru c)) (None # map Some ys)"
    using I(2) by (rule ring_frame) (use ky in \<open>auto simp: init_node_def\<close>)
  \<comment> \<open>for one step the new node has count 0 and is in no list; \<open>inc_leases\<close> leaves it there\<close>
  have e: "il_erase (Some k) (init_node (Some k) (lru c)) = (Some k, init_node (Some k) (lru c))"
    by (rule erase_alone[OF ring_init])
  let ?d = "?c1\<lparr>lookup := AList.update k (?n\<lparr>refcount := 1\<rparr>) ?l\<rparr>"
  have inc: "inc_leases k ?c1 = Some ?d" using e ml by (simp add: inc_leases_def Let_def)
  have md: "map_of (lookup ?d) = (map_of (lookup c))(k \<mapsto> ?n\<lparr>refcount := 1\<rparr>)" by (simp add: alist_simps)
  have "lru_inv ?d ys"
    unfolding lru_inv_def
  proof (intro conjI allI impI)
    show "distinct (map fst (lookup ?d))" using I(1) by (simp add: distinct_update)
    show "ring (lru ?d) (None # map Some ys)" using r by simp
    fix j m assume m: "map_of (lookup ?d) j = Some m"
    have "key m = j \<and> 0 \<le> refcount m \<and> (refcount m = 0 \<longleftrightarrow> j \<in> set ys) \<and>
      (refcount m > 0 \<longrightarrow> ring (lru ?d) [Some j])"
    proof (cases "j = k")
      case True then show ?thesis using m ky by (auto simp: alist_simps ring_init)
    next
      case False
      then have mj: "map_of (lookup c) j = Some m" using m by (simp add: alist_simps)
      show ?thesis using I(4-7)[OF mj] False by (auto simp: ring_singleton init_node_def)
    qed
    then show "key m = j" "0 \<le> refcount m" "(refcount m = 0) = (j \<in> set ys)"
      "0 < refcount m \<Longrightarrow> ring (lru ?d) [Some j]" by auto
  qed (use I(8) in \<open>auto simp: alist_simps\<close>)
  moreover have "lru_get pop k True c = Some (Some k, ?d)"
    using None inc by (simp add: lru_get_def case_prod_beta Let_def)
  ultimately show ?thesis using assms(2) None ky md by (simp add: remove1_idem)
qed

section \<open>A cache with one evictable item\<close>

definition demo_lru :: "(nat, nat, nat) lru_cache" where
  "demo_lru = \<lparr>lookup = [(3, \<lparr>refcount = 0, key = 3, val = 13\<rparr>)],
               lru = \<lparr>nxt = (\<lambda>x. x)(None := Some 3, Some 3 := None),
                      prv = (\<lambda>x. x)(None := Some 3, Some 3 := None)\<rparr>, world = 0\<rparr>"

lemma demo_lru_inv: "lru_inv demo_lru [3]"
  by (simp add: lru_inv_def demo_lru_def ring_def)

section \<open>Properties\<close>

text \<open>
  C24. \<open>get\<close> and the destruction of a lease keep the cache consistent: the evictable list holds exactly
  the cached keys without a lease, the most recently released first. A hit returns the cached value
  without calling \<^verbatim>\<open>populate_cache\<close>; a miss calls it once and caches the result; no other entry changes.
\<close>

theorem lru_get_drop:
  assumes "lru_inv c ys" and "lru_get populate_cache k True c = Some (l, c')"
  shows "l = Some k \<and> lru_inv c' (remove1 k ys) \<and>
    lease_value c' l = Some (case map_of (lookup c) k of Some n \<Rightarrow> val n | None \<Rightarrow> fst (populate_cache k (world c))) \<and>
    world c' = (case map_of (lookup c) k of Some n \<Rightarrow> world c | None \<Rightarrow> snd (populate_cache k (world c))) \<and>
    (\<forall>j. j \<noteq> k \<longrightarrow> map_of (lookup c') j = map_of (lookup c) j) \<and>
    (\<exists>n c''. map_of (lookup c') k = Some n \<and> lease_drop l c' = Some c'' \<and>
       lru_inv c'' (if refcount n = 1 then k # remove1 k ys else remove1 k ys))"
proof -
  note S = lru_get_spec[OF assms]
  obtain n where n: "map_of (lookup c') k = Some n"
    "case map_of (lookup c) k of
       Some m \<Rightarrow> n = m\<lparr>refcount := refcount m + 1\<rparr> \<and> world c' = world c
     | None \<Rightarrow> n = \<lparr>refcount = 1, key = k, val = fst (populate_cache k (world c))\<rparr> \<and>
         world c' = snd (populate_cache k (world c))"
    using S by blast
  have "0 < refcount n"
    using n(2) lru_invD(5)[OF assms(1)] by (auto split: option.splits intro: le_less_trans)
  then obtain c'' where "dec_leases k c' = Some c''"
    "lru_inv c'' (if refcount n = 1 then k # remove1 k ys else remove1 k ys)"
    using dec_leases_inv[of c' "remove1 k ys" k n] S n(1) by metis
  then show ?thesis
    using S n by (auto simp: lease_value_def split: option.splits)
qed

theorem lru_get_drop_witness:
  "\<exists>c' :: (nat, nat, nat) lru_cache.
     lru_get (\<lambda>k w. (k + 10, w + 1)) 3 True (LRUCache 0 \<lparr>nxt = \<lambda>x. x, prv = \<lambda>x. x\<rparr>) = Some (Some 3, c') \<and>
     lru_inv c' [] \<and> lease_value c' (Some 3) = Some 13"
proof -
  let ?c = "LRUCache 0 \<lparr>nxt = \<lambda>x. x, prv = \<lambda>x. x\<rparr> :: (nat, nat, nat) lru_cache"
  obtain c' where c': "lru_get (\<lambda>k w. (k + 10, w + 1)) 3 True ?c = Some (Some 3, c')"
    by (auto simp: lru_get_def LRUCache_def inc_leases_def alist_simps)
  from lru_get_drop[OF LRUCache_inv c'] show ?thesis
    using c' by (auto simp: LRUCache_def)
qed

text \<open>
  C25. \<open>evict\<close> returns. It evicts the least recently released items first, and stops when at most
  \<open>size_hint\<close> items are left or every item is leased: an item with a lease is never evicted, and the
  number returned is the number of items removed.
\<close>

theorem evict_spec:
  assumes "lru_inv c ys" and "n = min (lru_size c - size_hint) (length ys)"
  shows "\<exists>c'. evict on_evict size_hint c = Some (n, c') \<and> lru_inv c' (take (length ys - n) ys) \<and>
    lru_size c' = lru_size c - n \<and>
    (\<forall>k. map_of (lookup c') k = (if k \<in> set (drop (length ys - n) ys) then None else map_of (lookup c) k)) \<and>
    (\<forall>k m. map_of (lookup c) k = Some m \<longrightarrow> refcount m > 0 \<longrightarrow> map_of (lookup c') k = Some m)"
proof -
  obtain c' where c': "evict on_evict size_hint c = Some (n, c')" "lru_inv c' (take (length ys - n) ys)"
    "lru_size c' = lru_size c - n"
    "map_of (lookup c') = (map_of (lookup c)) |` (- set (drop (length ys - n) ys))"
    using evict_loop_spec[OF assms(1), where hint = size_hint and f = on_evict and e = 0] assms(2)
    by (auto simp: evict_def Let_def)
  have "map_of (lookup c') k = Some m" if "map_of (lookup c) k = Some m" "refcount m > 0" for k m
  proof -
    have "k \<notin> set ys" using lru_invD(6)[OF assms(1) that(1)] that(2) by simp
    then have "k \<notin> set (drop (length ys - n) ys)" using in_set_dropD by metis
    then show ?thesis using that(1) by (simp add: c'(4))
  qed
  then show ?thesis using c' by (auto simp: restrict_map_def)
qed

theorem evict_spec_witness:
  "\<exists>c'. evict (\<lambda>k v w. w) 0 demo_lru = Some (1, c') \<and> lru_inv c' [] \<and> lru_size c' = 0"
  using evict_spec[OF demo_lru_inv, where n = 1 and size_hint = 0 and on_evict = "\<lambda>k v w. w"]
  by (auto simp: demo_lru_def lru_size_def)

text \<open>
  C26. \<open>evict_one\<close> through a lease. When the lease is not the only one, it returns false and changes
  nothing. When it is, it removes the item and returns true, and the lease object it leaves to the
  caller still points to the node, which is gone: the destructor that runs when the caller's lease goes
  out of scope follows a dangling pointer.
\<close>

theorem evict_one_dangling_lease:
  assumes "lru_inv c ys" and "map_of (lookup c) k = Some n"
  shows "(refcount n \<noteq> 1 \<longrightarrow> evict_one on_evict (Some k) c = Some (False, Some k, c)) \<and>
    (refcount n = 1 \<longrightarrow> (\<exists>l c'. evict_one on_evict (Some k) c = Some (True, l, c') \<and> lru_inv c' ys \<and>
       map_of (lookup c') = (map_of (lookup c))(k := None) \<and> \<not> lease_empty l \<and> lease_drop l c' = None))"
proof (cases "refcount n = 1")
  case True
  then have pos: "refcount n > 0" by simp
  obtain d where d: "dec_leases k c = Some d" "lru_inv d (if refcount n = 1 then k # ys else ys)"
    "map_of (lookup d) = (map_of (lookup c))(k \<mapsto> n\<lparr>refcount := refcount n - 1\<rparr>)"
    by (rule dec_leases_inv[OF assms pos])
  have d2: "lru_inv d (k # ys)" using d(2) True by simp
  obtain c' where c': "evict_one_node on_evict k d = Some c'" "lru_inv c' (remove1 k (k # ys))"
    "map_of (lookup c') = (map_of (lookup d))(k := None)"
    by (rule evict_one_node_inv[OF d2, of k on_evict]) simp
  have e: "evict_one on_evict (Some k) c = Some (True, Some k, c')"
    using assms(2) True d(1) c'(1) by (simp add: evict_one_def lease_dtor_def)
  have "map_of (lookup c') = (map_of (lookup c))(k := None)" using c'(3) d(3) by simp
  moreover have "lease_drop (Some k) c' = None" using c'(3) by (simp add: dec_leases_def)
  ultimately show ?thesis using True e c'(2) by (simp add: lease_empty_def)
qed (use assms(2) in \<open>simp add: evict_one_def\<close>)

theorem evict_one_dangling_lease_witness:
  "\<exists>l l' c. \<exists>c' :: (nat, nat, nat) lru_cache.
     lru_get (\<lambda>k w. (k + 10, w + 1)) 3 True (LRUCache 0 \<lparr>nxt = \<lambda>x. x, prv = \<lambda>x. x\<rparr>) = Some (l, c) \<and>
     evict_one (\<lambda>k v w. w) l c = Some (True, l', c') \<and> lease_drop l' c' = None"
proof -
  let ?c = "LRUCache 0 \<lparr>nxt = \<lambda>x. x, prv = \<lambda>x. x\<rparr> :: (nat, nat, nat) lru_cache"
  obtain c where c: "lru_get (\<lambda>k w. (k + 10, w + 1)) 3 True ?c = Some (Some 3, c)"
    by (auto simp: lru_get_def LRUCache_def inc_leases_def alist_simps)
  have "lru_inv c []" and n: "map_of (lookup c) 3 = Some \<lparr>refcount = 1, key = 3, val = 13\<rparr>"
    using lru_get_spec[OF LRUCache_inv c] by (auto simp: LRUCache_def)
  from evict_one_dangling_lease[OF this(1) n, of "\<lambda>k v w. w"] c show ?thesis by auto
qed

end
