(* ===== verification/Hash_Bytes.thy ===== *)
theory Hash_Bytes
  imports HmmOS_Prelude
begin

text \<open>
  The hash functions of \<^verbatim>\<open>src/src/kernel/nonstd/hash_bytes.h\<close> and \<^verbatim>\<open>src/src/kernel/nonstd/hash_bytes.cc\<close>:
  the 32-bit Murmur hash of a byte sequence, the identity hash of integers and pointers and the
  combination of hashes. A memory block is the list of its bytes, loads are little-endian.
\<close>

section \<open>Definitions\<close>

definition unaligned_load :: "u8 \<Rightarrow> u8 \<Rightarrow> u8 \<Rightarrow> u8 \<Rightarrow> u32" where
  "unaligned_load b0 b1 b2 b3 =
     ucast b0 OR push_bit 8 (ucast b1) OR push_bit 16 (ucast b2) OR push_bit 24 (ucast b3)"

definition murmur_m :: u32 where "murmur_m = 0x5bd1e995"

definition xor_shift :: "nat \<Rightarrow> u32 \<Rightarrow> u32" where "xor_shift s x = x XOR drop_bit s x"

fun hash_tail :: "u8 list \<Rightarrow> u32 \<Rightarrow> u32" where
  "hash_tail [b0, b1, b2] h = (((h XOR push_bit 16 (ucast b2)) XOR push_bit 8 (ucast b1)) XOR ucast b0) * murmur_m"
| "hash_tail [b0, b1] h = ((h XOR push_bit 8 (ucast b1)) XOR ucast b0) * murmur_m"
| "hash_tail [b0] h = (h XOR ucast b0) * murmur_m"
| "hash_tail _ h = h"

fun hash_mix :: "u8 list \<Rightarrow> u32 \<Rightarrow> u32" where
  "hash_mix (b0 # b1 # b2 # b3 # bs) h =
     (let k = unaligned_load b0 b1 b2 b3 * murmur_m;
          k = xor_shift 24 k;
          k = k * murmur_m
      in hash_mix bs ((h * murmur_m) XOR k))"
| "hash_mix bs h = hash_tail bs h"

definition hash_bytes :: "u8 list \<Rightarrow> u32 \<Rightarrow> u32" where
  "hash_bytes buf seed =
     (let h = hash_mix buf (seed XOR of_nat (length buf))
      in xor_shift 15 (xor_shift 13 h * murmur_m))"

definition hash_int :: "u32 \<Rightarrow> u32" where "hash_int key = key"

definition hash_combine1 :: "u32 \<Rightarrow> u32 \<Rightarrow> u32" where
  "hash_combine1 seed h = seed XOR (h + 0x9e3779b9 + push_bit 6 seed + drop_bit 2 seed)"

definition hash_combine :: "u32 list \<Rightarrow> u32" where
  "hash_combine hs = foldl hash_combine1 0xDEADBEEF hs"

section \<open>Every step of the hash is invertible\<close>

lemma murmur_m_inv: "x * murmur_m = y * murmur_m \<longleftrightarrow> x = y"
proof
  assume "x * murmur_m = y * murmur_m"
  then have "x * (murmur_m * 0xe59b19bd) = y * (murmur_m * 0xe59b19bd)" by (simp only: mult.assoc[symmetric])
  moreover have "murmur_m * 0xe59b19bd = 1" by (simp add: murmur_m_def)
  ultimately show "x = y" by (simp only: mult_1_right)
qed simp

lemma xor_shift_inj:
  assumes "0 < s" "xor_shift s x = xor_shift s y"
  shows "x = y"
proof (rule bit_word_eqI)
  fix n assume "n < LENGTH(32)"
  have *: "bit (xor_shift s z) n \<longleftrightarrow> bit z n \<noteq> bit z (s + n)" for z n
    by (auto simp: xor_shift_def bit_simps)
  have "bit x n = bit y n" for n
  proof (induction "32 - n" arbitrary: n rule: less_induct)
    case less
    show ?case
    proof (cases "n < 32")
      case True
      then have "bit x (s + n) = bit y (s + n)" using less assms(1) by simp
      then show ?thesis using *[of x n] *[of y n] assms(2) by auto
    next
      case False
      then show ?thesis by (simp add: impossible_bit)
    qed
  qed
  then show "bit x n = bit y n" .
qed

lemma xor_shift_iff: "0 < s \<Longrightarrow> xor_shift s x = xor_shift s y \<longleftrightarrow> x = y"
  using xor_shift_inj by blast

lemma xor_right_inj: "a XOR x = a XOR y \<longleftrightarrow> x = (y :: u32)"
  by (metis xor.assoc xor.left_neutral xor_self_eq)

lemma unaligned_load_bit:
  "bit (unaligned_load b0 b1 b2 b3) n \<longleftrightarrow>
    (if n < 8 then bit b0 n else if n < 16 then bit b1 (n - 8) else if n < 24 then bit b2 (n - 16)
     else n < 32 \<and> bit b3 (n - 24))"
  by (auto simp: unaligned_load_def bit_simps dest: bit_imp_le_length)

lemma unaligned_load_inj:
  "unaligned_load a0 a1 a2 a3 = unaligned_load b0 b1 b2 b3 \<longleftrightarrow> a0 = b0 \<and> a1 = b1 \<and> a2 = b2 \<and> a3 = b3"
proof
  assume "unaligned_load a0 a1 a2 a3 = unaligned_load b0 b1 b2 b3"
  then have *: "bit (unaligned_load a0 a1 a2 a3) n = bit (unaligned_load b0 b1 b2 b3) n" for n by simp
  have "bit a0 n = bit b0 n" "bit a1 n = bit b1 n" "bit a2 n = bit b2 n" "bit a3 n = bit b3 n" if "n < 8" for n
    using that *[of n] *[of "n + 8"] *[of "n + 16"] *[of "n + 24"] by (simp_all add: unaligned_load_bit)
  then show "a0 = b0 \<and> a1 = b1 \<and> a2 = b2 \<and> a3 = b3" by (auto intro!: bit_word_eqI)
qed simp

section \<open>Claims\<close>

text \<open>
  No collisions within a word: for the same seed, two different blocks of four bytes have different
  Murmur hashes; and combining a hash into an accumulated one loses nothing of the combined hash.
\<close>

theorem hash_injective_on_words:
  "(hash_bytes [a0, a1, a2, a3] seed = hash_bytes [b0, b1, b2, b3] seed \<longleftrightarrow> [a0, a1, a2, a3] = [b0, b1, b2, b3]) \<and>
   (hash_combine (hs @ [x]) = hash_combine (hs @ [y]) \<longleftrightarrow> x = y)"
proof
  show "hash_bytes [a0, a1, a2, a3] seed = hash_bytes [b0, b1, b2, b3] seed \<longleftrightarrow> [a0, a1, a2, a3] = [b0, b1, b2, b3]"
    by (simp add: hash_bytes_def Let_def murmur_m_inv xor_shift_iff xor_right_inj unaligned_load_inj)
  show "hash_combine (hs @ [x]) = hash_combine (hs @ [y]) \<longleftrightarrow> x = y"
    by (simp add: hash_combine_def hash_combine1_def xor_right_inj)
qed

end
