(* ===== verification/Node_List.thy ===== *)
theory Node_List
  imports Intrusive_List
begin

text \<open>
  \<^verbatim>\<open>nonstd::list\<close> of \<^verbatim>\<open>src/src/kernel/nonstd/list.h\<close>. The two members \<^verbatim>\<open>_back\<close> and \<^verbatim>\<open>_front\<close> of a list are
  laid out as the \<^verbatim>\<open>prev\<close> and \<^verbatim>\<open>next\<close> of a node, and the address of the pair is the end iterator; so
  the list object is one more node of the ring, and \<open>prv s L\<close>, \<open>nxt s L\<close> are \<^verbatim>\<open>_back\<close>, \<^verbatim>\<open>_front\<close> of list
  \<open>L\<close>. An iterator is the address of a node. The address of a new node is an argument.
\<close>

section \<open>Definitions\<close>

record ('n, 'v) lists =
  ptrs :: "'n links"
  nval :: "'n \<Rightarrow> 'v"
  lsize :: "'n \<Rightarrow> u32"

definition nl_init :: "'n \<Rightarrow> ('n, 'v) lists \<Rightarrow> ('n, 'v) lists" where
  "nl_init L s = s\<lparr>ptrs := init_node L (ptrs s), lsize := (lsize s)(L := 0)\<rparr>"

definition nl_size :: "'n \<Rightarrow> ('n, 'v) lists \<Rightarrow> u32" where "nl_size L s = lsize s L"

definition nl_empty :: "'n \<Rightarrow> ('n, 'v) lists \<Rightarrow> bool" where "nl_empty L s \<longleftrightarrow> lsize s L = 0"

definition nl_end :: "'n \<Rightarrow> ('n, 'v) lists \<Rightarrow> 'n" where "nl_end L s = L"

definition nl_begin :: "'n \<Rightarrow> ('n, 'v) lists \<Rightarrow> 'n" where
  "nl_begin L s = (if nl_empty L s then nl_end L s else nxt (ptrs s) L)"

definition nl_front :: "'n \<Rightarrow> ('n, 'v) lists \<Rightarrow> 'v" where "nl_front L s = nval s (nxt (ptrs s) L)"

definition nl_back :: "'n \<Rightarrow> ('n, 'v) lists \<Rightarrow> 'v" where "nl_back L s = nval s (prv (ptrs s) L)"

definition nl_emplace :: "'n \<Rightarrow> 'n \<Rightarrow> 'n \<Rightarrow> 'v \<Rightarrow> ('n, 'v) lists \<Rightarrow> 'n \<times> ('n, 'v) lists" where
  "nl_emplace L pos new_node v s =
     (let prev = prv (ptrs s) pos;
          p1 = set_prv new_node prev (ptrs s);
          p2 = set_nxt new_node pos p1;
          p3 = set_prv pos new_node p2;
          p4 = set_nxt prev new_node p3
      in (new_node, s\<lparr>ptrs := p4, nval := (nval s)(new_node := v), lsize := (lsize s)(L := lsize s L + 1)\<rparr>))"

definition nl_erase :: "'n \<Rightarrow> 'n \<Rightarrow> ('n, 'v) lists \<Rightarrow> 'n \<times> ('n, 'v) lists" where
  "nl_erase L pos s =
     (let next = nxt (ptrs s) pos;
          p1 = set_prv next (prv (ptrs s) pos) (ptrs s);
          p2 = set_nxt (prv p1 pos) next p1
      in (next, s\<lparr>ptrs := p2, lsize := (lsize s)(L := lsize s L - 1)\<rparr>))"

definition nl_emplace_back :: "'n \<Rightarrow> 'n \<Rightarrow> 'v \<Rightarrow> ('n, 'v) lists \<Rightarrow> ('n, 'v) lists" where
  "nl_emplace_back L new_node v s = snd (nl_emplace L (nl_end L s) new_node v s)"

definition nl_emplace_front :: "'n \<Rightarrow> 'n \<Rightarrow> 'v \<Rightarrow> ('n, 'v) lists \<Rightarrow> ('n, 'v) lists" where
  "nl_emplace_front L new_node v s = snd (nl_emplace L (nl_begin L s) new_node v s)"

definition nl_pop_back :: "'n \<Rightarrow> ('n, 'v) lists \<Rightarrow> ('n, 'v) lists" where
  "nl_pop_back L s = snd (nl_erase L (prv (ptrs s) (nl_end L s)) s)"

definition nl_pop_front :: "'n \<Rightarrow> ('n, 'v) lists \<Rightarrow> ('n, 'v) lists" where
  "nl_pop_front L s = snd (nl_erase L (nl_begin L s) s)"

fun nl_insert_loop :: "'n \<Rightarrow> 'n \<Rightarrow> ('n \<times> 'v) list \<Rightarrow> 'n \<Rightarrow> ('n, 'v) lists \<Rightarrow> 'n \<times> ('n, 'v) lists" where
  "nl_insert_loop L pos [] rv s = (rv, s)"
| "nl_insert_loop L pos ((p, v) # pvs) rv s =
     (case nl_emplace L pos p v s of (tmp, s') \<Rightarrow>
        nl_insert_loop L pos pvs (if rv = pos then tmp else rv) s')"

definition nl_insert_range :: "'n \<Rightarrow> 'n \<Rightarrow> ('n \<times> 'v) list \<Rightarrow> ('n, 'v) lists \<Rightarrow> 'n \<times> ('n, 'v) lists" where
  "nl_insert_range L pos pvs s = nl_insert_loop L pos pvs pos s"

definition nl_insert_count :: "'n \<Rightarrow> 'n \<Rightarrow> 'n list \<Rightarrow> 'v \<Rightarrow> ('n, 'v) lists \<Rightarrow> 'n \<times> ('n, 'v) lists" where
  "nl_insert_count L pos ps v s = nl_insert_loop L pos (map (\<lambda>p. (p, v)) ps) pos s"

partial_function (option) nl_clear_loop :: "'n \<Rightarrow> 'n \<Rightarrow> ('n, 'v) lists \<Rightarrow> ('n, 'v) lists option" where
  "nl_clear_loop L it s =
     (if it = nl_end L s then Some s
      else case nl_erase L it s of (it', s') \<Rightarrow> nl_clear_loop L it' s')"

definition nl_clear :: "'n \<Rightarrow> ('n, 'v) lists \<Rightarrow> ('n, 'v) lists option" where
  "nl_clear L s = nl_clear_loop L (nl_begin L s) s"

definition swap_prv :: "'n \<Rightarrow> 'n \<Rightarrow> 'n links \<Rightarrow> 'n links" where
  "swap_prv a b s = set_prv b (prv s a) (set_prv a (prv s b) s)"

definition swap_nxt :: "'n \<Rightarrow> 'n \<Rightarrow> 'n links \<Rightarrow> 'n links" where
  "swap_nxt a b s = set_nxt b (nxt s a) (set_nxt a (nxt s b) s)"

definition nl_move_assign :: "'n \<Rightarrow> 'n \<Rightarrow> ('n, 'v) lists \<Rightarrow> ('n, 'v) lists" where
  "nl_move_assign A B s =
     (let p = ptrs s;
          b1 = prv p A; b2 = prv p B;
          p1 = swap_prv (nxt p A) (nxt p B) p;
          p2 = swap_nxt b1 b2 p1;
          p3 = swap_nxt A B p2;
          p4 = swap_prv A B p3
      in s\<lparr>ptrs := p4, lsize := (lsize s)(A := lsize s B, B := lsize s A)\<rparr>)"

definition splice_impl :: "'n \<Rightarrow> 'n \<Rightarrow> 'n \<Rightarrow> 'n \<Rightarrow> 'n \<Rightarrow> u32 \<Rightarrow> ('n, 'v) lists \<Rightarrow> ('n, 'v) lists" where
  "splice_impl L pos other first last' n s =
     (let p = ptrs s;
          prev = prv p pos; first_prev = prv p first; last_prev = prv p last';
          p1 = swap_prv first pos p;
          p2 = swap_nxt last_prev prev p1;
          p3 = swap_nxt prev first_prev p2;
          p4 = swap_prv pos last' p3;
          z1 = (lsize s)(L := lsize s L + n);
          z2 = z1(other := z1 other - n)
      in s\<lparr>ptrs := p4, lsize := z2\<rparr>)"

definition splice_one :: "'n \<Rightarrow> 'n \<Rightarrow> 'n \<Rightarrow> 'n \<Rightarrow> ('n, 'v) lists \<Rightarrow> ('n, 'v) lists" where
  "splice_one L pos other it s = splice_impl L pos other it (nxt (ptrs s) it) 1 s"

definition splice_all :: "'n \<Rightarrow> 'n \<Rightarrow> 'n \<Rightarrow> ('n, 'v) lists \<Rightarrow> ('n, 'v) lists" where
  "splice_all L pos other s = splice_impl L pos other (nl_begin other s) (nl_end other s) (nl_size other s) s"

section \<open>Rings in two parts\<close>

definition link :: "'n links \<Rightarrow> 'n \<Rightarrow> 'n \<Rightarrow> bool" where
  "link s a b \<longleftrightarrow> nxt s a = b \<and> prv s b = a"

lemma linked_append2:
  "xs \<noteq> [] \<Longrightarrow> ys \<noteq> [] \<Longrightarrow>
   linked s (xs @ ys) \<longleftrightarrow> linked s xs \<and> link s (last xs) (hd ys) \<and> linked s ys"
  by (induction s xs rule: linked.induct) (auto simp: link_def neq_Nil_conv)

lemma ring_parts:
  assumes "xs \<noteq> []" "ys \<noteq> []"
  shows "ring s (xs @ ys) \<longleftrightarrow> distinct (xs @ ys) \<and> linked s xs \<and> linked s ys \<and>
    link s (last xs) (hd ys) \<and> link s (last ys) (hd xs)"
  using assms linked_append2[of "xs @ ys" "[hd xs]" s] linked_append2[of xs ys s]
  by (auto simp: ring_def)

lemma ring_whole:
  assumes "xs \<noteq> []"
  shows "ring s xs \<longleftrightarrow> distinct xs \<and> linked s xs \<and> link s (last xs) (hd xs)"
  using assms linked_append2[of xs "[hd xs]" s] by (auto simp: ring_def)

lemma swap_simps [simp]:
  "nxt (swap_prv a b s) = nxt s" "prv (swap_nxt a b s) = prv s"
  "nxt (swap_nxt a b s) = (nxt s)(a := nxt s b, b := nxt s a)"
  "prv (swap_prv a b s) = (prv s)(a := prv s b, b := prv s a)"
  by (simp_all add: swap_prv_def swap_nxt_def)

lemma linked_same:
  assumes "linked s xs" "distinct xs"
    and "\<And>a. a \<in> set xs \<Longrightarrow> a \<noteq> last xs \<Longrightarrow> nxt t a = nxt s a"
    and "\<And>a. a \<in> set xs \<Longrightarrow> a \<noteq> hd xs \<Longrightarrow> prv t a = prv s a"
  shows "linked t xs"
proof (cases "xs = []")
  case False
  have "a \<in> set xs \<and> a \<noteq> last xs" if "a \<in> set (butlast xs)" for a
    using that assms(2) False
    by (metis append_butlast_last_id distinct_append disjoint_iff in_set_butlastD list.set_intros(1))
  moreover have "a \<in> set xs \<and> a \<noteq> hd xs" if "a \<in> set (tl xs)" for a
    using that assms(2) False by (cases xs) auto
  ultimately show ?thesis using linked_cong[of xs t s] assms by blast
qed simp

section \<open>Lists\<close>

text \<open>List \<open>L\<close> consists of the nodes \<open>ps\<close>; its values are \<open>map (nval s) ps\<close>.\<close>

definition nlist :: "('n, 'v) lists \<Rightarrow> 'n \<Rightarrow> 'n list \<Rightarrow> bool" where
  "nlist s L ps \<longleftrightarrow> ring (ptrs s) (L # ps) \<and> lsize s L = of_nat (length ps) \<and> length ps < 2 ^ 32"

lemma nlist_empty: "nlist s L ps \<Longrightarrow> nl_empty L s \<longleftrightarrow> ps = []"
  using unat_of_nat_small[where 'a = 32, of "length ps"]
  by (auto simp: nlist_def nl_empty_def word_unat_eq_iff)

lemma nlist_begin: "nlist s L ps \<Longrightarrow> nl_begin L s = hd (ps @ [L])"
  using nlist_empty[of s L ps]
  by (cases ps) (auto simp: nl_begin_def nl_end_def nlist_def ring_Cons)

lemma nlist_back: "nlist s L ps \<Longrightarrow> prv (ptrs s) L = last (L # ps)"
  by (cases ps) (auto simp: nlist_def ring_Cons)

text \<open>Linking a node in before \<open>pos\<close>, and unlinking it.\<close>

lemma ring_link_in:
  assumes r: "ring s (L # us @ ws)" and p: "p \<notin> set (L # us @ ws)"
    and pos: "pos = hd (ws @ [L])"
    and t: "nxt t = (nxt s)(p := pos, last (L # us) := p)" "prv t = (prv s)(p := last (L # us), pos := p)"
  shows "ring t (L # us @ p # ws)" "prv s pos = last (L # us)"
proof -
  let ?xs = "L # us"
  have d: "distinct (?xs @ ws)" using r by (simp add: ring_def)
  have lst: "last ?xs \<in> set ?xs" by (rule last_in_set) simp
  have P: "linked s ?xs \<and> link s (last ?xs) pos"
  proof (cases ws)
    case Nil
    then show ?thesis using r pos ring_whole[of ?xs s] by simp
  next
    case (Cons w ws')
    then show ?thesis using r pos ring_parts[of ?xs ws s] by simp
  qed
  then show pv: "prv s pos = last ?xs" by (simp add: link_def)
  have "linked s ?xs" using P by blast
  then have lx: "linked t ?xs"
  proof (rule linked_same)
    show "prv t a = prv s a" if "a \<in> set ?xs" "a \<noteq> hd ?xs" for a
      using that p d pos by (cases ws) (auto simp: t)
  qed (use d p in \<open>auto simp: t\<close>)
  show "ring t (L # us @ p # ws)"
  proof (cases ws)
    case Nil
    have "linked t [p]" by simp
    moreover have "link t (last ?xs) p" "link t p L"
      using p pos Nil lst by (auto simp: link_def t)
    ultimately show ?thesis
      using ring_parts[of ?xs "[p]" t] lx d p Nil by auto
  next
    case (Cons w ws')
    have "linked s ws" "link s (last ws) L" using r Cons ring_parts[of ?xs ws s] by auto
    moreover have "last ws \<in> set ws" using Cons by simp
    then have lw: "last ws \<noteq> last ?xs" "last ws \<noteq> p" using lst d p by auto
    moreover have "linked t ws"
      by (rule linked_same[OF \<open>linked s ws\<close>]) (use d p lst pos Cons in \<open>auto simp: t\<close>)
    ultimately have "linked t ws" "link t (last ws) L" using d p pos Cons by (auto simp: link_def t)
    moreover have "link t p w" using p pos Cons lst by (auto simp: link_def t)
    ultimately have "linked t (p # ws)" "link t (last (p # ws)) L"
      using Cons by (auto simp: link_def)
    moreover have "link t (last ?xs) p" using p pos Cons d lst by (auto simp: link_def t)
    ultimately show ?thesis using ring_parts[of ?xs "p # ws" t] lx d p by auto
  qed
qed

lemma ring_unlink:
  assumes r: "ring s (L # us @ p # ws)" and nx: "nx = hd (ws @ [L])"
    and t: "nxt t = (nxt s)(last (L # us) := nx)" "prv t = (prv s)(nx := last (L # us))"
  shows "ring t (L # us @ ws)" "nxt s p = nx" "prv s p = last (L # us)"
proof -
  let ?xs = "L # us"
  have d: "distinct (?xs @ p # ws)" using r by (simp add: ring_def)
  have lst: "last ?xs \<in> set ?xs" by (rule last_in_set) simp
  have P: "linked s ?xs" "linked s (p # ws)" "link s (last ?xs) p" "link s (last (p # ws)) L"
    using r ring_parts[of ?xs "p # ws" s] by auto
  show "prv s p = last ?xs" using P(3) by (simp add: link_def)
  show "nxt s p = nx" using P(2,4) nx by (cases ws) (auto simp: link_def)
  have lx: "linked t ?xs"
  proof (rule linked_same[OF P(1)])
    show "prv t a = prv s a" if "a \<in> set ?xs" "a \<noteq> hd ?xs" for a
      using that d nx by (cases ws) (auto simp: t)
  qed (use d in \<open>auto simp: t\<close>)
  show "ring t (L # us @ ws)"
  proof (cases ws)
    case Nil
    then have "link t (last ?xs) L" using nx by (simp add: link_def t)
    then show ?thesis using lx d Nil by (simp add: ring_whole)
  next
    case (Cons w ws')
    have "linked s ws" using P(2) Cons by (cases ws') auto
    then have "linked t ws"
      by (rule linked_same) (use d lst nx Cons in \<open>auto simp: t\<close>)
    moreover have "last ws \<in> set ws" using Cons by simp
    then have "last ws \<noteq> last ?xs" using lst d by auto
    then have "link t (last ws) L" using P(4) Cons nx d by (auto simp: link_def t)
    moreover have "link t (last ?xs) w" using nx Cons by (simp add: link_def t)
    ultimately show ?thesis using ring_parts[of ?xs ws t] lx d Cons by auto
  qed
qed

lemma emplace_nlist:
  assumes "nlist s L (us @ ws)" and "p \<notin> set (L # us @ ws)" and "Suc (length (us @ ws)) < 2 ^ 32"
    and "nl_emplace L (hd (ws @ [L])) p v s = (q, t)"
  shows "q = p \<and> nlist t L (us @ p # ws) \<and> nval t = (nval s)(p := v)"
proof -
  let ?pos = "hd (ws @ [L])"
  have r: "ring (ptrs s) (L # us @ ws)" using assms(1) by (simp add: nlist_def)
  have "prv (ptrs s) ?pos = last (L # us)"
    by (rule ring_link_in(2)[OF r assms(2) refl, of "\<lparr>nxt = _, prv = _\<rparr>"]) simp_all
  then have "nxt (ptrs t) = (nxt (ptrs s))(p := ?pos, last (L # us) := p)"
    "prv (ptrs t) = (prv (ptrs s))(p := last (L # us), ?pos := p)"
    using assms(4) by (auto simp: nl_emplace_def Let_def)
  from ring_link_in(1)[OF r assms(2) refl this]
  show ?thesis using assms by (auto simp: nlist_def nl_emplace_def Let_def)
qed

lemma erase_nlist:
  assumes "nlist s L (us @ p # ws)" and "nl_erase L p s = (q, t)"
  shows "q = hd (ws @ [L]) \<and> nlist t L (us @ ws) \<and> nval t = nval s"
proof -
  have r: "ring (ptrs s) (L # us @ p # ws)" using assms(1) by (simp add: nlist_def)
  note U = ring_unlink(2,3)[OF r refl, of "\<lparr>nxt = _, prv = _\<rparr>", simplified]
  have "p \<noteq> hd (ws @ [L])" using r by (cases ws) (auto simp: ring_def)
  then have "nxt (ptrs t) = (nxt (ptrs s))(last (L # us) := hd (ws @ [L]))"
    "prv (ptrs t) = (prv (ptrs s))(hd (ws @ [L]) := last (L # us))" "q = hd (ws @ [L])"
    using assms(2) U by (auto simp: nl_erase_def Let_def)
  from ring_unlink(1)[OF r refl this(1,2)] this(3)
  show ?thesis using assms by (auto simp: nlist_def nl_erase_def Let_def)
qed

section \<open>Splicing and moving\<close>

text \<open>
  Cut \<open>seg\<close> out of the ring of \<open>y\<close> and put it before \<open>x\<close>: three links change.
\<close>

lemma ring_splice:
  assumes rx: "ring s (x # us)" and ry: "ring s (y # ws @ seg)" and ne: "seg \<noteq> []"
    and dj: "set (x # us) \<inter> set (y # ws @ seg) = {}"
    and t: "nxt t = (nxt s)(last seg := x, last (x # us) := hd seg, last (y # ws) := y)"
      "prv t = (prv s)(hd seg := last (x # us), x := last seg, y := last (y # ws))"
  shows "ring t (x # us @ seg)" "ring t (y # ws)"
proof -
  let ?xs = "x # us" and ?ys = "y # ws"
  have dx: "distinct ?xs" and lx: "linked s ?xs" using rx ring_whole[of ?xs s] by auto
  have ry': "ring s (?ys @ seg)" using ry by simp
  have dy: "distinct (?ys @ seg)" and ly: "linked s ?ys" "linked s seg"
    using ry' ring_parts[of ?ys seg s] ne by auto
  have m: "last ?xs \<in> set ?xs" "last ?ys \<in> set ?ys" "last seg \<in> set seg" "hd seg \<in> set seg"
    using ne by (simp_all only: last_in_set hd_in_set list.distinct not_False_eq_True)
  have sep: "set ?xs \<inter> set ?ys = {}" "set ?xs \<inter> set seg = {}" "set ?ys \<inter> set seg = {}"
    using dj dy by auto
  have ne': "last ?xs \<noteq> last seg" "last ?xs \<noteq> last ?ys" "last seg \<noteq> last ?ys"
      "hd seg \<noteq> x" "hd seg \<noteq> y" "x \<noteq> y"
    using m sep by auto
  have X: "linked t ?xs"
    by (rule linked_same[OF lx dx]) (use sep m in \<open>auto simp: t simp del: last.simps\<close>)
  have Y: "linked t ?ys"
    by (rule linked_same[OF ly(1)]) (use dy sep m in \<open>auto simp: t simp del: last.simps\<close>)
  have S: "linked t seg"
    by (rule linked_same[OF ly(2)]) (use dy sep m in \<open>auto simp: t simp del: last.simps\<close>)
  have L: "link t (last ?xs) (hd seg)" "link t (last seg) x" "link t (last ?ys) y"
    using ne' by (auto simp: link_def t simp del: last.simps)
  have "ring t (?xs @ seg)" using ring_parts[of ?xs seg t] ne X S L(1,2) dx dy sep by auto
  then show "ring t (x # us @ seg)" by simp
  show "ring t (y # ws)" using ring_whole[of ?ys t] Y L(3) dy by auto
qed

text \<open>The four swaps of \<open>splice_impl\<close> set exactly these links.\<close>

lemma splice_pointers:
  assumes rx: "ring s (x # us)" and ry: "ring s (y # ws @ seg)" and ne: "seg \<noteq> []"
    and dj: "set (x # us) \<inter> set (y # ws @ seg) = {}"
    and t: "t = swap_prv x y (swap_nxt (last (x # us)) (last (y # ws))
                (swap_nxt (last seg) (last (x # us)) (swap_prv (hd seg) x s)))"
  shows "nxt t = (nxt s)(last seg := x, last (x # us) := hd seg, last (y # ws) := y)"
    "prv t = (prv s)(hd seg := last (x # us), x := last seg, y := last (y # ws))"
    "prv s x = last (x # us)" "prv s (hd seg) = last (y # ws)" "prv s y = last seg"
proof -
  let ?xs = "x # us" and ?ys = "y # ws"
  have "link s (last ?xs) x" using rx ring_whole[of ?xs s] by simp
  moreover have "link s (last ?ys) (hd seg)" "link s (last seg) y"
    using ry ring_parts[of ?ys seg s] ne by auto
  ultimately have E: "nxt s (last ?xs) = x" "prv s x = last ?xs" "nxt s (last ?ys) = hd seg"
    "prv s (hd seg) = last ?ys" "nxt s (last seg) = y" "prv s y = last seg"
    by (simp_all only: link_def)
  have m: "last ?xs \<in> set ?xs" "last ?ys \<in> set ?ys" "last seg \<in> set seg" "hd seg \<in> set seg"
    using ne by (simp_all only: last_in_set hd_in_set list.distinct not_False_eq_True)
  have dy: "set ?ys \<inter> set seg = {}" using ry by (auto simp: ring_def)
  have ne': "last ?xs \<noteq> last seg" "last ?xs \<noteq> last ?ys" "last seg \<noteq> last ?ys"
      "hd seg \<noteq> x" "hd seg \<noteq> y" "x \<noteq> y"
    using m dj dy by auto
  show "nxt t = (nxt s)(last seg := x, last ?xs := hd seg, last ?ys := y)"
    using E ne' by (auto simp: t fun_eq_iff simp del: last.simps)
  show "prv t = (prv s)(hd seg := last ?xs, x := last seg, y := last ?ys)"
    using E ne' by (auto simp: t fun_eq_iff simp del: last.simps)
  show "prv s x = last ?xs" "prv s (hd seg) = last ?ys" "prv s y = last seg" by (rule E)+
qed

lemma splice_rings:
  assumes rx: "ring (ptrs s) (x # us)" and ry: "ring (ptrs s) (y # ws @ seg)" and ne: "seg \<noteq> []"
    and dj: "set (x # us) \<inter> set (y # ws @ seg) = {}"
  shows "ring (ptrs (splice_impl L x M (hd seg) y n s)) (x # us @ seg)"
    "ring (ptrs (splice_impl L x M (hd seg) y n s)) (y # ws)"
proof -
  let ?p = "ptrs s"
  let ?t = "swap_prv x y (swap_nxt (last (x # us)) (last (y # ws))
                (swap_nxt (last seg) (last (x # us)) (swap_prv (hd seg) x ?p)))"
  note P = splice_pointers[OF assms refl]
  have eq: "ptrs (splice_impl L x M (hd seg) y n s) = ?t"
    using P(3-5) by (simp add: splice_impl_def Let_def del: last.simps)
  show "ring (ptrs (splice_impl L x M (hd seg) y n s)) (x # us @ seg)"
    unfolding eq by (rule ring_splice(1)[OF assms P(1,2)])
  show "ring (ptrs (splice_impl L x M (hd seg) y n s)) (y # ws)"
    unfolding eq by (rule ring_splice(2)[OF assms P(1,2)])
qed

lemma ring_cut:
  assumes "ring s (L # us @ ws)"
  shows "\<exists>vs. ring s (hd (ws @ [L]) # vs) \<and> set (hd (ws @ [L]) # vs) = set (L # us @ ws) \<and>
    (\<forall>t seg. ring t (hd (ws @ [L]) # vs @ seg) \<longrightarrow> ring t (L # us @ seg @ ws))"
proof (cases ws)
  case Nil
  then show ?thesis using assms by (auto intro!: exI[of _ us])
next
  case (Cons w zs)
  let ?vs = "zs @ L # us"
  have "ring s (w # ?vs)" using ring_rotate[of s "L # us" ws] assms Cons by simp
  moreover have "ring t (L # us @ seg @ ws)" if "ring t (w # ?vs @ seg)" for t seg
    using ring_rotate[of t ws "L # us @ seg"] that Cons by simp
  ultimately show ?thesis using Cons by (intro exI[of _ ?vs]) auto
qed

lemma splice_nlist:
  assumes L: "nlist s L (as @ bs)" and M: "nlist s M (cs @ seg @ ds)" and ne: "seg \<noteq> []"
    and dj: "set (L # as @ bs) \<inter> set (M # cs @ seg @ ds) = {}"
    and sz: "length (as @ bs) + length seg < 2 ^ 32"
    and t: "t = splice_impl L (hd (bs @ [L])) M (hd seg) (hd (ds @ [M])) (of_nat (length seg)) s"
  shows "nlist t L (as @ seg @ bs)" "nlist t M (cs @ ds)" "nval t = nval s"
proof -
  have rL: "ring (ptrs s) (L # as @ bs)" and rM: "ring (ptrs s) (M # (cs @ seg) @ ds)"
    using L M by (simp_all add: nlist_def)
  obtain us where us: "ring (ptrs s) (hd (bs @ [L]) # us)" "set (hd (bs @ [L]) # us) = set (L # as @ bs)"
    "\<And>t seg. ring t (hd (bs @ [L]) # us @ seg) \<Longrightarrow> ring t (L # as @ seg @ bs)"
    using ring_cut[OF rL] by blast
  have "\<exists>ws. ring (ptrs s) (hd (ds @ [M]) # ws @ seg) \<and> set (hd (ds @ [M]) # ws @ seg) = set (M # cs @ seg @ ds) \<and>
    (\<forall>t. ring t (hd (ds @ [M]) # ws) \<longrightarrow> ring t (M # cs @ ds))"
  proof (cases ds)
    case Nil
    then show ?thesis using rM by (intro exI[of _ cs]) auto
  next
    case (Cons d es)
    have "ring (ptrs s) (d # (es @ M # cs) @ seg)"
      using ring_rotate[of _ "M # cs @ seg" ds] rM Cons by simp
    moreover have "ring t (M # cs @ ds)" if "ring t (d # es @ M # cs)" for t
      using ring_rotate[of t ds "M # cs"] that Cons by simp
    ultimately show ?thesis using Cons by (intro exI[of _ "es @ M # cs"]) auto
  qed
  then obtain ws where ws: "ring (ptrs s) (hd (ds @ [M]) # ws @ seg)"
    "set (hd (ds @ [M]) # ws @ seg) = set (M # cs @ seg @ ds)"
    "\<And>t. ring t (hd (ds @ [M]) # ws) \<Longrightarrow> ring t (M # cs @ ds)" by blast
  have dj': "set (hd (bs @ [L]) # us) \<inter> set (hd (ds @ [M]) # ws @ seg) = {}"
    using dj us(2) ws(2) by simp
  note R = splice_rings[OF us(1) ws(1) ne dj', of L M "of_nat (length seg)"]
  have LM: "L \<noteq> M" using dj by auto
  show "nlist t L (as @ seg @ bs)"
    using us(3)[OF R(1)] L LM sz by (simp add: nlist_def t) (simp add: splice_impl_def Let_def)
  show "nlist t M (cs @ ds)"
    using ws(3)[OF R(2)] M LM by (simp add: nlist_def t) (simp add: splice_impl_def Let_def)
  show "nval t = nval s" by (simp add: t splice_impl_def Let_def)
qed

lemma ring_ends:
  assumes "ring s (A # xs)"
  obtains f b where "nxt s A = f" "prv s A = b" "prv s f = A" "nxt s b = A" "f \<in> set (A # xs)" "b \<in> set (A # xs)"
    "xs \<noteq> [] \<longrightarrow> f = hd xs \<and> b = last xs" "xs = [] \<longrightarrow> f = A \<and> b = A"
proof (cases xs)
  case Nil
  then show thesis using that[of A A] assms by (simp add: ring_singleton)
next
  case (Cons x zs)
  then have e: "nxt s A = x" "prv s x = A" "nxt s (last xs) = A" "prv s A = last xs"
    using assms by (simp_all add: ring_Cons)
  show thesis by (rule that[of x "last xs", OF e(1) e(4) e(2) e(3)]) (simp_all add: Cons)
qed

lemma move_rings:
  assumes rA: "ring s (A # xs)" and rB: "ring s (B # ys)" and dj: "set (A # xs) \<inter> set (B # ys) = {}"
    and t: "t = swap_prv A B (swap_nxt A B (swap_nxt (prv s A) (prv s B) (swap_prv (nxt s A) (nxt s B) s)))"
  shows "ring t (A # ys)"
proof -
  obtain f1 b1 where 1: "nxt s A = f1" "prv s A = b1" "prv s f1 = A" "nxt s b1 = A"
    "f1 \<in> set (A # xs)" "b1 \<in> set (A # xs)" by (rule ring_ends[OF rA])
  obtain f2 b2 where 2: "nxt s B = f2" "prv s B = b2" "prv s f2 = B" "nxt s b2 = B"
    "f2 \<in> set (B # ys)" "b2 \<in> set (B # ys)" "ys \<noteq> [] \<longrightarrow> f2 = hd ys \<and> b2 = last ys"
    "ys = [] \<longrightarrow> f2 = B \<and> b2 = B" by (rule ring_ends[OF rB])
  define n1 where "n1 = (nxt s)(b1 := nxt s b2, b2 := nxt s b1)"
  define p1 where "p1 = (prv s)(f1 := prv s f2, f2 := prv s f1)"
  have nt: "nxt t = n1(A := n1 B, B := n1 A)" and pt: "prv t = p1(A := p1 B, B := p1 A)"
    by (simp_all add: t 1 \<open>nxt s B = f2\<close> \<open>prv s B = b2\<close> n1_def p1_def)
  have AB: "A \<noteq> B" "A \<notin> set ys" using dj by auto
  show ?thesis
  proof (cases "ys = []")
    case True
    then have "nxt t A = A" "prv t A = A" using 2(8) 1(3,4) AB by (simp_all add: nt pt n1_def p1_def)
    then show ?thesis using True by (simp add: ring_singleton)
  next
    case False
    have fb: "f2 = hd ys" "b2 = last ys" "f2 \<in> set ys" "b2 \<in> set ys" using 2(7) False by auto
    have dy: "distinct ys" "B \<notin> set ys" using rB by (auto simp: ring_def)
    have o: "b1 \<notin> set ys" "f1 \<notin> set ys" "b1 \<noteq> B" "f1 \<noteq> B" using 1(5,6) dj by auto
    have nA: "nxt t A = f2"
    proof -
      have "B \<noteq> b1" "B \<noteq> b2" using o fb dy by auto
      then show ?thesis using AB \<open>nxt s B = f2\<close> by (simp add: nt n1_def)
    qed
    have pA: "prv t A = b2"
    proof -
      have "B \<noteq> f1" "B \<noteq> f2" using o fb dy by auto
      then show ?thesis using AB \<open>prv s B = b2\<close> by (simp add: pt p1_def)
    qed
    have nb: "nxt t a = (if a = b2 then A else nxt s a)" if "a \<in> set ys" for a
    proof -
      have "a \<noteq> A" "a \<noteq> B" "a \<noteq> b1" using that AB dy o by auto
      then show ?thesis using 1(4) by (simp add: nt n1_def)
    qed
    have pb: "prv t a = (if a = f2 then A else prv s a)" if "a \<in> set ys" for a
    proof -
      have "a \<noteq> A" "a \<noteq> B" "a \<noteq> f1" using that AB dy o by auto
      then show ?thesis using 1(3) by (simp add: pt p1_def)
    qed
    have "linked s ys" using rB ring_parts[of "[B]" ys s] False by auto
    then have "linked t ys"
      by (rule linked_same[OF _ dy(1)]) (use nb pb fb in auto)
    moreover have "link t A (hd ys)" "link t (last ys) A"
      using nA pA nb[of b2] pb[of f2] fb by (simp_all add: link_def)
    ultimately show ?thesis using ring_parts[of "[A]" ys t] dy(1) AB(2) False by simp
  qed
qed

lemma swap_commute: "swap_prv a b s = swap_prv b a s" "swap_nxt a b s = swap_nxt b a s"
  by (cases "a = b"; simp add: swap_prv_def swap_nxt_def set_prv_def set_nxt_def fun_upd_twist)+

lemma move_assign_nlist:
  assumes A: "nlist s A xs" and B: "nlist s B ys" and dj: "set (A # xs) \<inter> set (B # ys) = {}"
  shows "nlist (nl_move_assign A B s) A ys" "nlist (nl_move_assign A B s) B xs"
    "nval (nl_move_assign A B s) = nval s"
proof -
  let ?p = "ptrs s" and ?t = "nl_move_assign A B s"
  have rA: "ring ?p (A # xs)" and rB: "ring ?p (B # ys)" using A B by (simp_all add: nlist_def)
  have AB: "A \<noteq> B" using dj by auto
  have t: "ptrs ?t = swap_prv A B (swap_nxt A B (swap_nxt (prv ?p A) (prv ?p B) (swap_prv (nxt ?p A) (nxt ?p B) ?p)))"
    by (simp add: nl_move_assign_def Let_def)
  then have u: "ptrs ?t = swap_prv B A (swap_nxt B A (swap_nxt (prv ?p B) (prv ?p A) (swap_prv (nxt ?p B) (nxt ?p A) ?p)))"
    by (simp add: swap_commute(1)[of A B] swap_commute(2)[of A B] swap_commute(1)[of "nxt ?p A"]
        swap_commute(2)[of "prv ?p A"])
  have z: "lsize ?t A = lsize s B" "lsize ?t B = lsize s A"
    using AB by (simp_all add: nl_move_assign_def Let_def)
  show "nlist ?t A ys" using move_rings[OF rA rB dj t] B z by (simp add: nlist_def)
  have "set (B # ys) \<inter> set (A # xs) = {}" using dj by (simp add: Int_commute)
  from move_rings[OF rB rA this u] show "nlist ?t B xs" using A z by (simp add: nlist_def)
  show "nval ?t = nval s" by (simp add: nl_move_assign_def Let_def)
qed

text \<open>The range constructor and \<^verbatim>\<open>insert\<close> put their elements before \<open>pos\<close>, in order.\<close>

lemma insert_loop_nlist:
  assumes "nlist s L (us @ ws)" and "distinct (map fst pvs)" and "set (map fst pvs) \<inter> set (L # us @ ws) = {}"
    and "length (us @ ws) + length pvs < 2 ^ 32" and "nl_insert_loop L (hd (ws @ [L])) pvs rv s = (q, t)"
  shows "nlist t L (us @ map fst pvs @ ws) \<and> (\<forall>p v. (p, v) \<in> set pvs \<longrightarrow> nval t p = v) \<and>
    (\<forall>p. p \<notin> fst ` set pvs \<longrightarrow> nval t p = nval s p) \<and>
    q = (if rv = hd (ws @ [L]) then hd (map fst pvs @ ws @ [L]) else rv)"
  using assms
proof (induction pvs arbitrary: us rv s)
  case Nil
  then show ?case by auto
next
  case (Cons pv pvs)
  obtain p v where pv: "pv = (p, v)" by (cases pv)
  obtain r s1 where e: "nl_emplace L (hd (ws @ [L])) p v s = (r, s1)" by (cases "nl_emplace L (hd (ws @ [L])) p v s")
  have "r = p \<and> nlist s1 L (us @ p # ws) \<and> nval s1 = (nval s)(p := v)"
    by (rule emplace_nlist[OF Cons.prems(1) _ _ e]) (use Cons.prems pv in auto)
  then have 1: "r = p" "nlist s1 L ((us @ [p]) @ ws)" "nval s1 = (nval s)(p := v)" by auto
  have pne: "p \<noteq> hd (ws @ [L])" using Cons.prems(3) pv by (cases ws) auto
  have "nlist t L ((us @ [p]) @ map fst pvs @ ws) \<and> (\<forall>p v. (p, v) \<in> set pvs \<longrightarrow> nval t p = v) \<and>
    (\<forall>a. a \<notin> fst ` set pvs \<longrightarrow> nval t a = nval s1 a) \<and>
    q = (if (if rv = hd (ws @ [L]) then p else rv) = hd (ws @ [L]) then hd (map fst pvs @ ws @ [L])
         else (if rv = hd (ws @ [L]) then p else rv))"
    by (rule Cons.IH[OF 1(2)]) (use Cons.prems pv e 1(1) in auto)
  then show ?case using 1 pne pv Cons.prems(2) by (auto simp: image_iff)
qed

lemma clear_loop_nlist:
  "nlist s L ps \<Longrightarrow> \<exists>t. nl_clear_loop L (hd (ps @ [L])) s = Some t \<and> nlist t L []"
proof (induction ps arbitrary: s)
  case Nil
  then show ?case by (subst nl_clear_loop.simps) (simp add: nl_end_def)
next
  case (Cons p ps)
  obtain q t where e: "nl_erase L p s = (q, t)" by (cases "nl_erase L p s")
  have "q = hd (ps @ [L]) \<and> nlist t L ps" using erase_nlist[of s L "[]" p ps, OF _ e] Cons.prems by simp
  moreover have "p \<noteq> L" using Cons.prems by (auto simp: nlist_def ring_def)
  ultimately show ?case
    using Cons.IH[of t] by (subst nl_clear_loop.simps) (simp add: nl_end_def e)
qed

lemma clear_nlist: "nlist s L ps \<Longrightarrow> \<exists>t. nl_clear L s = Some t \<and> nlist t L []"
  by (simp add: nl_clear_def nlist_begin clear_loop_nlist)

lemma swap_back [simp]:
  "swap_prv b a (swap_prv a b s) = s" "swap_nxt b a (swap_nxt a b s) = s"
  by (cases "a = b"; simp add: swap_prv_def swap_nxt_def set_prv_def set_nxt_def)+

lemma swap_nxt_prv: "swap_nxt a b (swap_prv c d s) = swap_prv c d (swap_nxt a b s)"
  by (simp add: swap_prv_def swap_nxt_def set_prv_def set_nxt_def)

lemma splice_nothing: "L \<noteq> M \<Longrightarrow> splice_impl L pos M f f 0 s = s"
  by (simp add: splice_impl_def Let_def swap_nxt_prv)

lemma splice_all_range:
  "nlist s M ys \<Longrightarrow> splice_all L pos M s = splice_impl L pos M (hd (ys @ [M])) M (of_nat (length ys)) s"
  by (simp add: splice_all_def nlist_begin nl_end_def nl_size_def) (simp add: nlist_def)

lemma splice_one_range:
  assumes "nlist s M (cs @ p # ds)"
  shows "splice_one L pos M p s = splice_impl L pos M p (hd (ds @ [M])) 1 s"
proof -
  have "ring (ptrs s) (M # cs @ p # ds)" using assms by (simp add: nlist_def)
  from ring_unlink(2)[OF this refl, of "\<lparr>nxt = _, prv = _\<rparr>", simplified]
  show ?thesis by (simp add: splice_one_def)
qed

section \<open>Claims\<close>

text \<open>
  C27. Splicing a range of one list into another, empty or not, at any position: the elements of the range
  stand before the position in their order, the donor keeps the others in order, both sizes are the
  number of elements, and no value is copied. The two short forms of \<open>splice\<close> are such ranges.
\<close>

theorem splice_moves_segment:
  assumes "nlist s L (as @ bs)" "nlist s M (cs @ seg @ ds)"
    and "set (L # as @ bs) \<inter> set (M # cs @ seg @ ds) = {}" "length (as @ bs) + length seg < 2 ^ 32"
    and "t = splice_impl L (hd (bs @ [L])) M (hd (seg @ ds @ [M])) (hd (ds @ [M])) (of_nat (length seg)) s \<or>
      cs = [] \<and> ds = [] \<and> t = splice_all L (hd (bs @ [L])) M s \<or>
      seg = [p] \<and> t = splice_one L (hd (bs @ [L])) M p s"
  shows "nlist t L (as @ seg @ bs) \<and> nlist t M (cs @ ds) \<and> nval t = nval s"
proof -
  have t: "t = splice_impl L (hd (bs @ [L])) M (hd (seg @ ds @ [M])) (hd (ds @ [M])) (of_nat (length seg)) s"
    using assms(5) splice_all_range[of s M seg] splice_one_range[of s M cs p ds] assms(2) by auto
  show ?thesis
  proof (cases "seg = []")
    case True
    then show ?thesis using assms(1-3) t by (auto simp: splice_nothing)
  next
    case False
    then show ?thesis using splice_nlist[OF assms(1,2) False assms(3,4)] t by simp
  qed
qed

definition two_lists :: "(nat, nat) lists" where
  "two_lists = snd (nl_insert_range 1 1 [(20, 7), (21, 8)] (snd (nl_insert_range 0 0 [(10, 5)]
     (nl_init 1 (nl_init 0 \<lparr>ptrs = \<lparr>nxt = id, prv = id\<rparr>, nval = \<lambda>_. 0, lsize = \<lambda>_. 0\<rparr>)))))"

lemma two_lists_ok: "nlist two_lists 0 [10]" "nlist two_lists 1 [20, 21]"
  by (simp_all add: two_lists_def nl_insert_range_def nl_emplace_def Let_def nl_init_def nlist_def
      ring_def init_node_def)

theorem splice_moves_segment_witness: "nlist (splice_all 0 10 1 two_lists) 0 [20, 21, 10]"
  using splice_moves_segment[of two_lists 0 "[]" "[10]" 1 "[]" "[20, 21]" "[]"] two_lists_ok by simp

text \<open>
  Move assignment exchanges the two lists, also when one of them or both are empty; \<open>clear\<close> then
  returns and leaves the list empty.
\<close>

theorem move_assign_swaps:
  assumes "nlist s A xs" "nlist s B ys" "set (A # xs) \<inter> set (B # ys) = {}"
  shows "nlist (nl_move_assign A B s) A ys \<and> nlist (nl_move_assign A B s) B xs \<and>
    nval (nl_move_assign A B s) = nval s \<and> (\<exists>t. nl_clear B (nl_move_assign A B s) = Some t \<and> nlist t B [])"
  using move_assign_nlist[OF assms] clear_nlist[of "nl_move_assign A B s" B xs] by blast

theorem move_assign_swaps_witness: "nlist (nl_move_assign 0 1 two_lists) 0 [20, 21]"
  using move_assign_swaps[of two_lists 0 "[10]" 1 "[20, 21]"] two_lists_ok by simp

end
