(* ===== verification/Hash_Map.thy ===== *)
theory Hash_Map
  imports Node_List
begin

text \<open>
  \<^verbatim>\<open>nonstd::node_hash_map\<close> of \<^verbatim>\<open>src/src/kernel/nonstd/node_hash_map.h\<close>. All nodes are in one list
  \<^verbatim>\<open>_data\<close>; the nodes of a bucket are consecutive and \<^verbatim>\<open>_buckets[i]\<close> is the iterator of the first of them
  or the null iterator. Keys are unique and immutable, so an iterator to a node is named by the key of
  the node. The hash function is an argument.
\<close>

section \<open>Definitions\<close>

datatype 'k iter = NullIt | NodeIt 'k | EndIt

record ('k, 'v) hnode =
  nhash :: u32
  nkey :: 'k
  nvalue :: 'v

record ('k, 'v) node_hash_map =
  bucket_count :: u32
  buckets :: "u32 \<Rightarrow> 'k iter"
  data :: "('k, 'v) hnode list"

definition bucket_candidates :: "u32 list" where
  "bucket_candidates = [17, 37, 79, 163, 331, 673, 1361, 2729, 5471, 10949, 21911, 43853, 87719, 175447,
     350899, 701819, 1403641, 2807303, 5614657, 11229331, 22458671, 44917381, 89834777, 179669557,
     359339171, 718678369, 1437356741, 2874713497]"

definition next_bucket_count :: "u32 \<Rightarrow> u32 option" where
  "next_bucket_count min_buckets = find (\<lambda>candidate. min_buckets \<le> candidate) bucket_candidates"

definition hm_new :: "u32 \<Rightarrow> ('k, 'v) node_hash_map option" where
  "hm_new n = do { c \<leftarrow> next_bucket_count n;
                   Some \<lparr>bucket_count = c, buckets = \<lambda>_. NullIt, data = []\<rparr> }"

definition get_bucket :: "('k, 'v) node_hash_map \<Rightarrow> u32 \<Rightarrow> u32" where
  "get_bucket m h = h mod bucket_count m"

definition hm_size :: "('k, 'v) node_hash_map \<Rightarrow> u32" where "hm_size m = of_nat (length (data m))"

definition hm_empty :: "('k, 'v) node_hash_map \<Rightarrow> bool" where "hm_empty m \<longleftrightarrow> hm_size m = 0"

text \<open>The list operations on iterators: the nodes from an iterator on, \<^verbatim>\<open>begin\<close>, increment, emplace.\<close>

fun nodes_from :: "'k iter \<Rightarrow> ('k, 'v) hnode list \<Rightarrow> ('k, 'v) hnode list" where
  "nodes_from (NodeIt k) d = dropWhile (\<lambda>n. nkey n \<noteq> k) d"
| "nodes_from _ d = []"

definition first_of :: "('k, 'v) hnode list \<Rightarrow> 'k iter" where
  "first_of d = (case d of [] \<Rightarrow> EndIt | n # _ \<Rightarrow> NodeIt (nkey n))"

definition next_of :: "'k iter \<Rightarrow> ('k, 'v) hnode list \<Rightarrow> 'k iter" where
  "next_of it d = first_of (tl (nodes_from it d))"

definition insert_before :: "'k iter \<Rightarrow> ('k, 'v) hnode \<Rightarrow> ('k, 'v) hnode list \<Rightarrow> ('k, 'v) hnode list" where
  "insert_before it n d =
     (case it of NodeIt k \<Rightarrow> takeWhile (\<lambda>n. nkey n \<noteq> k) d @ n # dropWhile (\<lambda>n. nkey n \<noteq> k) d
      | _ \<Rightarrow> d @ [n])"

definition same_bucket :: "('k, 'v) node_hash_map \<Rightarrow> 'k iter \<Rightarrow> u32 \<Rightarrow> bool" where
  "same_bucket m it b \<longleftrightarrow> (case nodes_from it (data m) of [] \<Rightarrow> False | n # _ \<Rightarrow> get_bucket m (nhash n) = b)"

fun bucket_search :: "('k, 'v) node_hash_map \<Rightarrow> u32 \<Rightarrow> 'k \<Rightarrow> ('k, 'v) hnode list \<Rightarrow> 'k iter" where
  "bucket_search m idx k [] = EndIt"
| "bucket_search m idx k (n # ns) =
     (if get_bucket m (nhash n) = idx then
        if nkey n = k then NodeIt (nkey n) else bucket_search m idx k ns
      else EndIt)"

definition hm_find :: "('k \<Rightarrow> u32) \<Rightarrow> 'k \<Rightarrow> ('k, 'v) node_hash_map \<Rightarrow> 'k iter" where
  "hm_find h k m =
     (let idx = get_bucket m (h k); bucket = buckets m idx
      in if bucket = NullIt then EndIt else bucket_search m idx k (nodes_from bucket (data m)))"

fun rehash_loop :: "('k, 'v) hnode list \<Rightarrow> ('k, 'v) node_hash_map \<Rightarrow> ('k, 'v) node_hash_map" where
  "rehash_loop [] tmp = tmp"
| "rehash_loop (n # ns) tmp =
     (let idx = get_bucket tmp (nhash n);
          bucket = (if buckets tmp idx = NullIt then first_of (data tmp) else buckets tmp idx)
      in rehash_loop ns (tmp\<lparr>data := insert_before bucket n (data tmp),
                              buckets := (buckets tmp)(idx := NodeIt (nkey n))\<rparr>))"

definition rehash :: "u32 \<Rightarrow> ('k, 'v) node_hash_map \<Rightarrow> ('k, 'v) node_hash_map option" where
  "rehash cnt m =
     (if cnt \<le> bucket_count m then Some m
      else do { tmp \<leftarrow> hm_new cnt; Some (rehash_loop (data m) tmp) })"

definition hm_reserve :: "u32 \<Rightarrow> ('k, 'v) node_hash_map \<Rightarrow> ('k, 'v) node_hash_map option" where
  "hm_reserve cnt m = rehash cnt m"

definition hm_set_value :: "'k \<Rightarrow> 'v \<Rightarrow> ('k, 'v) node_hash_map \<Rightarrow> ('k, 'v) node_hash_map" where
  "hm_set_value k v m = m\<lparr>data := map (\<lambda>n. if nkey n = k then n\<lparr>nvalue := v\<rparr> else n) (data m)\<rparr>"

definition hm_emplace ::
  "('k \<Rightarrow> u32) \<Rightarrow> 'k \<Rightarrow> 'v \<Rightarrow> ('k, 'v) node_hash_map \<Rightarrow> ('k iter \<times> bool \<times> ('k, 'v) node_hash_map) option" where
  "hm_emplace h k v m =
     (let node = \<lparr>nhash = h k, nkey = k, nvalue = v\<rparr>;
          idx = get_bucket m (nhash node);
          bucket = buckets m idx;
          pos = (if bucket = NullIt then first_of (data m) else bucket);
          found = (if bucket = NullIt then EndIt else bucket_search m idx k (nodes_from bucket (data m)))
      in case found of
           NodeIt k' \<Rightarrow> Some (NodeIt k', False, hm_set_value k' v m)
         | _ \<Rightarrow> do { let m1 = m\<lparr>data := insert_before pos node (data m), buckets := (buckets m)(idx := NodeIt k)\<rparr>;
                     m2 \<leftarrow> rehash (hm_size m1) m1;
                     Some (NodeIt k, True, m2) })"

definition try_emplace ::
  "('k \<Rightarrow> u32) \<Rightarrow> 'k \<Rightarrow> 'v \<Rightarrow> ('k, 'v) node_hash_map \<Rightarrow> ('k iter \<times> bool \<times> ('k, 'v) node_hash_map) option" where
  "try_emplace h k v m =
     (let idx = get_bucket m (h k);
          bucket = buckets m idx;
          pos = (if bucket = NullIt then first_of (data m) else bucket);
          found = (if bucket = NullIt then EndIt else bucket_search m idx k (nodes_from bucket (data m)))
      in case found of
           NodeIt k' \<Rightarrow> Some (NodeIt k', False, m)
         | _ \<Rightarrow> do { let m1 = m\<lparr>data := insert_before pos \<lparr>nhash = h k, nkey = k, nvalue = v\<rparr> (data m),
                                 buckets := (buckets m)(idx := NodeIt k)\<rparr>;
                     m2 \<leftarrow> rehash (hm_size m1) m1;
                     Some (NodeIt k, True, m2) })"

text \<open>Erasing at an iterator; \<open>None\<close> also stands for an iterator that is not in the map.\<close>

definition erase_at :: "'k iter \<Rightarrow> ('k, 'v) node_hash_map \<Rightarrow> ('k iter \<times> ('k, 'v) node_hash_map) option" where
  "erase_at pos m =
     (case nodes_from pos (data m) of
        [] \<Rightarrow> None
      | n # _ \<Rightarrow>
          let idx = get_bucket m (nhash n);
              bucket = buckets m idx
          in do { ASSERT (bucket \<noteq> NullIt);
                  let bucket' = (if bucket = pos
                                 then let b = next_of bucket (data m) in if same_bucket m b idx then b else NullIt
                                 else bucket);
                  Some (next_of pos (data m),
                        m\<lparr>buckets := (buckets m)(idx := bucket'),
                          data := filter (\<lambda>n. NodeIt (nkey n) \<noteq> pos) (data m)\<rparr>) })"

definition hm_erase :: "('k \<Rightarrow> u32) \<Rightarrow> 'k \<Rightarrow> ('k, 'v) node_hash_map \<Rightarrow> ('k iter \<times> ('k, 'v) node_hash_map) option" where
  "hm_erase h k m =
     (let it = hm_find h k m in if it \<noteq> EndIt then erase_at it m else Some (EndIt, m))"

partial_function (option) hm_clear_loop :: "'k iter \<Rightarrow> ('k, 'v) node_hash_map \<Rightarrow> ('k, 'v) node_hash_map option" where
  "hm_clear_loop it m =
     (if it = EndIt then Some m else do { (it', m') \<leftarrow> erase_at it m; hm_clear_loop it' m' })"

definition hm_clear :: "('k, 'v) node_hash_map \<Rightarrow> ('k, 'v) node_hash_map option" where
  "hm_clear m = hm_clear_loop (first_of (data m)) m"

definition value_at :: "'k iter \<Rightarrow> ('k, 'v) node_hash_map \<Rightarrow> 'v option" where
  "value_at it m = (case nodes_from it (data m) of [] \<Rightarrow> None | n # _ \<Rightarrow> Some (nvalue n))"

definition hm_at :: "('k \<Rightarrow> u32) \<Rightarrow> 'k \<Rightarrow> ('k, 'v) node_hash_map \<Rightarrow> 'v option" where
  "hm_at h k m = (let it = hm_find h k m in if it \<noteq> EndIt then value_at it m else None)"

definition hm_index :: "('k \<Rightarrow> u32) \<Rightarrow> 'v \<Rightarrow> 'k \<Rightarrow> ('k, 'v) node_hash_map \<Rightarrow> ('v \<times> ('k, 'v) node_hash_map) option" where
  "hm_index h dflt k m =
     do { (it, _, m') \<leftarrow> try_emplace h k dflt m; v \<leftarrow> value_at it m'; Some (v, m') }"

definition hm_contains :: "('k \<Rightarrow> u32) \<Rightarrow> 'k \<Rightarrow> ('k, 'v) node_hash_map \<Rightarrow> bool" where
  "hm_contains h k m \<longleftrightarrow> hm_find h k m \<noteq> EndIt"

definition hm_count :: "('k \<Rightarrow> u32) \<Rightarrow> 'k \<Rightarrow> ('k, 'v) node_hash_map \<Rightarrow> u32" where
  "hm_count h k m = (if hm_contains h k m then 1 else 0)"

fun hm_insert_all :: "('k \<Rightarrow> u32) \<Rightarrow> ('k \<times> 'v) list \<Rightarrow> ('k, 'v) node_hash_map \<Rightarrow> ('k, 'v) node_hash_map option" where
  "hm_insert_all h [] m = Some m"
| "hm_insert_all h ((k, v) # kvs) m = do { (_, _, m') \<leftarrow> hm_emplace h k v m; hm_insert_all h kvs m' }"

definition hm_of_range :: "('k \<Rightarrow> u32) \<Rightarrow> ('k \<times> 'v) list \<Rightarrow> u32 \<Rightarrow> ('k, 'v) node_hash_map option" where
  "hm_of_range h kvs cnt = do { m \<leftarrow> hm_new cnt; hm_insert_all h kvs m }"

definition hm_copy :: "('k \<Rightarrow> u32) \<Rightarrow> ('k, 'v) node_hash_map \<Rightarrow> ('k, 'v) node_hash_map option" where
  "hm_copy h m = hm_of_range h (map (\<lambda>n. (nkey n, nvalue n)) (data m)) 0"

definition hm_equal :: "('k \<Rightarrow> u32) \<Rightarrow> ('k, 'v) node_hash_map \<Rightarrow> ('k, 'v) node_hash_map \<Rightarrow> bool" where
  "hm_equal h lhs rhs \<longleftrightarrow> hm_size lhs = hm_size rhs \<and>
     list_all (\<lambda>n. let it = hm_find h (nkey n) rhs in it \<noteq> EndIt \<and> value_at it rhs = Some (nvalue n)) (data lhs)"

section \<open>Grouped lists\<close>

text \<open>Equal elements are consecutive.\<close>

fun grouped :: "'a list \<Rightarrow> bool" where
  "grouped [] = True"
| "grouped (x # xs) = (x \<notin> set (dropWhile (\<lambda>y. y = x) xs) \<and> grouped xs)"

lemma grouped_fresh: "x \<notin> set xs \<Longrightarrow> grouped (x # xs) = grouped xs"
  by (auto dest: set_dropWhileD)

lemma grouped_append_fresh: "grouped xs \<Longrightarrow> x \<notin> set xs \<Longrightarrow> grouped (xs @ [x])"
proof (induction xs)
  case (Cons a xs)
  have "set (dropWhile (\<lambda>y. y = a) (xs @ [x])) \<subseteq> insert x (set (dropWhile (\<lambda>y. y = a) xs))" by (induction xs) auto
  then show ?case using Cons by auto
qed simp

lemma set_dropWhile_dup: "x \<noteq> a \<Longrightarrow> set (dropWhile (\<lambda>y. y = a) (as @ x # x # cs)) = set (dropWhile (\<lambda>y. y = a) (as @ x # cs))"
  by (induction as) auto

lemma grouped_dup: "grouped (as @ x # cs) \<Longrightarrow> x \<notin> set as \<Longrightarrow> grouped (as @ x # x # cs)"
  by (induction as) (auto simp: set_dropWhile_dup)

lemma grouped_insert:
  assumes "x \<notin> set as" "grouped (as @ bs)" "bs = [] \<or> x \<notin> set bs \<and> as = [] \<or> hd bs = x"
  shows "grouped (as @ x # bs)"
  using assms grouped_dup[of as x] grouped_fresh[of x bs] grouped_append_fresh[of as x]
  by (cases bs) auto

lemma set_dropWhile_remove: "set (dropWhile P (as @ bs)) \<subseteq> set (dropWhile P (as @ x # bs))"
  by (induction as) (auto dest: set_dropWhileD)

lemma grouped_remove: "grouped (as @ x # bs) \<Longrightarrow> grouped (as @ bs)"
proof (induction as)
  case (Cons a as)
  then show ?case using set_dropWhile_remove[of "\<lambda>y. y = a" as bs x] by auto
qed simp

lemma grouped_takeWhile:
  "grouped (map f xs) \<Longrightarrow> takeWhile (\<lambda>n. f n = i) (dropWhile (\<lambda>n. f n \<noteq> i) xs) = filter (\<lambda>n. f n = i) xs"
proof (induction xs)
  case (Cons x xs)
  have "takeWhile (\<lambda>n. f n = i) xs = filter (\<lambda>n. f n = i) xs" if "i \<notin> set (dropWhile (\<lambda>y. y = i) (map f xs))"
    using that by (induction xs) (auto simp: empty_filter_conv)
  then show ?case using Cons by auto
qed simp

section \<open>The invariant\<close>

abbreviation bucket_of :: "('k, 'v) node_hash_map \<Rightarrow> ('k, 'v) hnode \<Rightarrow> u32" where
  "bucket_of m n \<equiv> get_bucket m (nhash n)"

abbreviation hm_keys :: "('k, 'v) node_hash_map \<Rightarrow> 'k set" where
  "hm_keys m \<equiv> nkey ` set (data m)"

definition head_of :: "('k, 'v) hnode list \<Rightarrow> 'k iter" where
  "head_of ns = (case ns of [] \<Rightarrow> NullIt | n # _ \<Rightarrow> NodeIt (nkey n))"

definition hm_wf :: "('k \<Rightarrow> u32) \<Rightarrow> ('k, 'v) node_hash_map \<Rightarrow> bool" where
  "hm_wf h m \<longleftrightarrow> 0 < bucket_count m \<and> distinct (map nkey (data m)) \<and>
     (\<forall>n \<in> set (data m). nhash n = h (nkey n)) \<and> grouped (map (bucket_of m) (data m)) \<and>
     (\<forall>i < bucket_count m. buckets m i = head_of (filter (\<lambda>n. bucket_of m n = i) (data m)))"

definition hm_inv :: "('k \<Rightarrow> u32) \<Rightarrow> ('k, 'v) node_hash_map \<Rightarrow> bool" where
  "hm_inv h m \<longleftrightarrow> hm_wf h m \<and> length (data m) \<le> unat (bucket_count m)"

definition hm_map :: "('k, 'v) node_hash_map \<Rightarrow> 'k \<rightharpoonup> 'v" where
  "hm_map m = map_of (map (\<lambda>n. (nkey n, nvalue n)) (data m))"

lemma get_bucket_less: "0 < bucket_count m \<Longrightarrow> get_bucket m x < bucket_count m"
  by (simp add: get_bucket_def word_mod_less_divisor)

lemma dropWhile_first:
  "distinct (map nkey d) \<Longrightarrow> filter P d = n # ns \<Longrightarrow>
   dropWhile (\<lambda>a. nkey a \<noteq> nkey n) d = dropWhile (\<lambda>a. \<not> P a) d \<and>
   takeWhile (\<lambda>a. nkey a \<noteq> nkey n) d = takeWhile (\<lambda>a. \<not> P a) d"
proof (induction d)
  case (Cons a d)
  show ?case
  proof (cases "P a")
    case True
    then show ?thesis using Cons.prems by auto
  next
    case False
    then have f: "filter P d = n # ns" using Cons.prems by simp
    then have "n \<in> set d" by (metis filter_is_subset list.set_intros(1) subsetD)
    then have "nkey a \<noteq> nkey n" using Cons.prems(1) by auto
    then show ?thesis using Cons.IH[OF _ f] Cons.prems(1) False by simp
  qed
qed simp

lemma head_of_simps [simp]: "head_of ns = NullIt \<longleftrightarrow> ns = []" "head_of (n # ns) = NodeIt (nkey n)" "head_of [] = NullIt"
  "head_of ns \<noteq> EndIt"
  by (auto simp: head_of_def split: list.splits)

lemma bucket_search_eq:
  "bucket_search m idx k ns = (if k \<in> nkey ` set (takeWhile (\<lambda>n. bucket_of m n = idx) ns) then NodeIt k else EndIt)"
  by (induction ns) auto

text \<open>The search common to \<open>find\<close>, \<open>emplace\<close> and \<open>try_emplace\<close>.\<close>

lemma search_bucket:
  assumes wf: "hm_wf h m" and b: "b = get_bucket m (h k)"
  shows "(if buckets m b = NullIt then EndIt else bucket_search m b k (nodes_from (buckets m b) (data m))) =
    (if k \<in> hm_keys m then NodeIt k else EndIt)"
proof -
  let ?P = "\<lambda>n. bucket_of m n = b"
  have bk: "buckets m b = head_of (filter ?P (data m))"
    using wf b get_bucket_less[of m "h k"] by (auto simp: hm_wf_def)
  have eq: "k \<in> nkey ` set (filter ?P (data m)) \<longleftrightarrow> k \<in> hm_keys m"
    using wf b by (auto simp: hm_wf_def image_iff)
  show ?thesis
  proof (cases "filter ?P (data m)")
    case Nil
    then show ?thesis using bk eq by auto
  next
    case (Cons n ns)
    have "dropWhile (\<lambda>a. nkey a \<noteq> nkey n) (data m) = dropWhile (\<lambda>a. \<not> ?P a) (data m)"
      using dropWhile_first[OF _ Cons] wf by (simp add: hm_wf_def)
    moreover have "takeWhile ?P (dropWhile (\<lambda>a. \<not> ?P a) (data m)) = filter ?P (data m)"
      using grouped_takeWhile[of "bucket_of m" "data m" b] wf by (simp add: hm_wf_def)
    moreover have "buckets m b = NodeIt (nkey n)" using bk Cons by simp
    ultimately have "nodes_from (buckets m b) (data m) = dropWhile (\<lambda>a. \<not> ?P a) (data m)" by simp
    then show ?thesis using bk Cons eq \<open>takeWhile ?P _ = _\<close> by (simp only: bucket_search_eq) simp
  qed
qed

lemma hm_find_eq: "hm_wf h m \<Longrightarrow> hm_find h k m = (if k \<in> hm_keys m then NodeIt k else EndIt)"
  by (simp only: hm_find_def Let_def search_bucket)

lemma hm_map_dom: "k \<in> hm_keys m \<longleftrightarrow> hm_map m k \<noteq> None"
  by (auto simp: hm_map_def map_of_eq_None_iff image_image)

lemma nodes_from_key:
  assumes "distinct (map nkey d)" "n \<in> set d"
  shows "\<exists>as bs. d = as @ n # bs \<and> nkey n \<notin> nkey ` set (as @ bs) \<and> nodes_from (NodeIt (nkey n)) d = n # bs"
proof -
  obtain as bs where d: "d = as @ n # bs" using assms(2) by (metis split_list)
  moreover have k: "nkey n \<notin> nkey ` set (as @ bs)" using assms(1) by (auto simp: d)
  moreover have "dropWhile (\<lambda>a. nkey a \<noteq> nkey n) (as @ n # bs) = n # bs"
    using k by (induction as) (auto simp: image_iff)
  ultimately show ?thesis by auto
qed

lemma value_at_eq: "distinct (map nkey (data m)) \<Longrightarrow> value_at (NodeIt k) m = hm_map m k"
proof (cases "k \<in> hm_keys m")
  case True
  assume d: "distinct (map nkey (data m))"
  from True obtain n where n: "n \<in> set (data m)" "nkey n = k" by auto
  from nodes_from_key[OF d n(1)] obtain as bs where
    *: "data m = as @ n # bs" "nkey n \<notin> nkey ` set (as @ bs)" "nodes_from (NodeIt (nkey n)) (data m) = n # bs" by blast
  have "map_of (map (\<lambda>n. (nkey n, nvalue n)) as) (nkey n) = None"
    using *(2) by (simp add: image_Un map_of_eq_None_iff image_image)
  then have "hm_map m (nkey n) = Some (nvalue n)" by (simp add: hm_map_def *(1) map_add_def)
  then show ?thesis using *(3) n(2) by (simp add: value_at_def)
next
  case False
  then have e: "nodes_from (NodeIt k) (data m) = []" by auto
  show ?thesis using False hm_map_dom[of k m] unfolding value_at_def e by simp
qed

section \<open>Inserting and rehashing\<close>

lemma insert_wf:
  assumes wf: "hm_wf h m" and k: "nkey n \<notin> hm_keys m" and hn: "nhash n = h (nkey n)"
    and idx: "idx = get_bucket m (nhash n)"
    and pos: "pos = (if buckets m idx = NullIt then first_of (data m) else buckets m idx)"
    and m': "m' = m\<lparr>data := insert_before pos n (data m), buckets := (buckets m)(idx := NodeIt (nkey n))\<rparr>"
  shows "hm_wf h m'" "set (data m') = insert n (set (data m))" "length (data m') = Suc (length (data m))"
proof -
  let ?P = "\<lambda>n. bucket_of m n = idx" and ?d = "data m"
  have bk: "buckets m idx = head_of (filter ?P ?d)"
    using wf idx get_bucket_less[of m "nhash n"] by (auto simp: hm_wf_def)
  have d: "distinct (map nkey ?d)" using wf by (simp add: hm_wf_def)
  obtain as bs where ab: "?d = as @ bs" "data m' = as @ n # bs" "\<forall>a \<in> set as. \<not> ?P a"
    "bs = [] \<or> filter ?P ?d = [] \<and> as = [] \<or> ?P (hd bs)"
  proof (cases "filter ?P ?d")
    case Nil
    then have "pos = first_of ?d" using bk pos by simp
    then have "data m' = [] @ n # ?d" by (cases ?d) (auto simp: m' insert_before_def first_of_def)
    then show thesis using that[of "[]" ?d] Nil by simp
  next
    case (Cons a ns)
    then have "pos = NodeIt (nkey a)" using bk pos by simp
    then have "data m' = takeWhile (\<lambda>a. \<not> ?P a) ?d @ n # dropWhile (\<lambda>a. \<not> ?P a) ?d"
      using dropWhile_first[OF d Cons] by (simp add: m' insert_before_def)
    then show thesis
      using that[of "takeWhile (\<lambda>a. \<not> ?P a) ?d" "dropWhile (\<lambda>a. \<not> ?P a) ?d"] hd_dropWhile[of "\<lambda>a. \<not> ?P a" ?d]
      by (auto dest: set_takeWhileD)
  qed
  show s: "set (data m') = insert n (set ?d)" "length (data m') = Suc (length ?d)" using ab by auto
  have gb: "get_bucket m' = get_bucket m" "bucket_count m' = bucket_count m" by (auto simp: m' get_bucket_def)
  have "grouped (map (bucket_of m) as @ idx # map (bucket_of m) bs)"
  proof (rule grouped_insert)
    show "idx \<notin> set (map (bucket_of m) as)" using ab(3) by auto
    show "grouped (map (bucket_of m) as @ map (bucket_of m) bs)" using wf ab(1) by (simp add: hm_wf_def)
    have "filter ?P ?d = [] \<Longrightarrow> as = [] \<Longrightarrow> idx \<notin> set (map (bucket_of m) bs)"
      using ab(1) by (auto simp: filter_empty_conv)
    then show "map (bucket_of m) bs = [] \<or> idx \<notin> set (map (bucket_of m) bs) \<and> map (bucket_of m) as = [] \<or>
      hd (map (bucket_of m) bs) = idx"
      using ab(4) by (cases "bs = []") (auto simp: hd_map)
  qed
  then have g: "grouped (map (bucket_of m') (data m'))" using idx by (simp add: gb ab(2))
  have nb: "bucket_of m n = idx" using idx by simp
  have "buckets m' i = head_of (filter (\<lambda>a. bucket_of m a = i) (as @ n # bs))" if "i < bucket_count m" for i
  proof (cases "i = idx")
    case True
    have "filter ?P as = []" using ab(3) by (simp add: filter_empty_conv)
    then show ?thesis using True nb by (simp add: m')
  next
    case False
    then show ?thesis using that wf nb ab(1) by (simp add: m' hm_wf_def)
  qed
  moreover have "distinct (map nkey (as @ n # bs))" using d k ab(1) by auto
  ultimately show "hm_wf h m'" using wf s(1) hn g ab by (auto simp: hm_wf_def gb)
qed

lemma hm_map_insert:
  assumes "hm_wf h m'" "set (data m') = insert n (set (data m))" "nkey n \<notin> hm_keys m" "hm_wf h m"
  shows "hm_map m' = (hm_map m)(nkey n \<mapsto> nvalue n)"
proof (rule ext)
  fix k
  let ?f = "\<lambda>n. (nkey n, nvalue n)"
  have "distinct (map fst (map ?f (data m)))" "distinct (map fst (map ?f (data m')))"
    using assms(1,4) by (simp_all add: hm_wf_def comp_def)
  from map_of_eq_Some_iff[OF this(1)] map_of_eq_Some_iff[OF this(2)]
  have e: "\<And>v. hm_map m k = Some v \<longleftrightarrow> (k, v) \<in> ?f ` set (data m)"
    "\<And>v. hm_map m' k = Some v \<longleftrightarrow> (k, v) = ?f n \<or> (k, v) \<in> ?f ` set (data m)"
    using assms(2) by (auto simp: hm_map_def)
  show "hm_map m' k = ((hm_map m)(nkey n \<mapsto> nvalue n)) k"
  proof (cases "k = nkey n")
    case True
    then have "hm_map m' k = Some (nvalue n)" using e(2)[of "nvalue n"] by simp
    then show ?thesis using True by simp
  next
    case False
    then have "hm_map m' k = Some v \<longleftrightarrow> hm_map m k = Some v" for v by (auto simp: e)
    then have "hm_map m' k = hm_map m k" by (metis not_None_eq)
    then show ?thesis using False by simp
  qed
qed

lemma new_wf:
  assumes "hm_new c = Some m"
  shows "hm_wf h m" "data m = []" "c \<le> bucket_count m"
proof -
  obtain b where b: "next_bucket_count c = Some b" "m = \<lparr>bucket_count = b, buckets = \<lambda>_. NullIt, data = []\<rparr>"
    using assms by (auto simp: hm_new_def split: bind_splits)
  then have "b \<in> set bucket_candidates" "c \<le> b" by (auto simp: next_bucket_count_def find_Some_iff)
  moreover have "0 < x" if "x \<in> set bucket_candidates" for x
    using that by (auto simp: bucket_candidates_def)
  ultimately show "hm_wf h m" "data m = []" "c \<le> bucket_count m" by (simp_all add: b(2) hm_wf_def)
qed

lemma new_returns: "c \<le> 2874713497 \<Longrightarrow> \<exists>m. hm_new c = Some m"
proof -
  assume "c \<le> 2874713497"
  moreover have "2874713497 \<in> set bucket_candidates" by (simp add: bucket_candidates_def)
  ultimately have "next_bucket_count c \<noteq> None" unfolding next_bucket_count_def find_None_iff by blast
  then show ?thesis by (auto simp: hm_new_def)
qed

lemma rehash_loop_wf:
  assumes "hm_wf h tmp" "distinct (map nkey ns)" "\<forall>n \<in> set ns. nhash n = h (nkey n) \<and> nkey n \<notin> hm_keys tmp"
  shows "hm_wf h (rehash_loop ns tmp) \<and> set (data (rehash_loop ns tmp)) = set ns \<union> set (data tmp) \<and>
    length (data (rehash_loop ns tmp)) = length ns + length (data tmp) \<and>
    bucket_count (rehash_loop ns tmp) = bucket_count tmp"
  using assms
proof (induction ns arbitrary: tmp)
  case (Cons n ns)
  define idx where "idx = get_bucket tmp (nhash n)"
  define pos where "pos = (if buckets tmp idx = NullIt then first_of (data tmp) else buckets tmp idx)"
  define m' where "m' = tmp\<lparr>data := insert_before pos n (data tmp), buckets := (buckets tmp)(idx := NodeIt (nkey n))\<rparr>"
  have I: "hm_wf h m'" "set (data m') = insert n (set (data tmp))" "length (data m') = Suc (length (data tmp))"
    using insert_wf[OF Cons.prems(1) _ _ idx_def pos_def m'_def] Cons.prems(3) by auto
  have "rehash_loop (n # ns) tmp = rehash_loop ns m'" by (simp add: Let_def m'_def pos_def idx_def)
  moreover have "bucket_count m' = bucket_count tmp" by (simp add: m'_def)
  moreover have "distinct (map nkey ns)" "\<forall>x \<in> set ns. nhash x = h (nkey x) \<and> nkey x \<notin> hm_keys m'"
    using Cons.prems I(2) by (auto simp: image_iff)
  ultimately show ?case using Cons.IH[OF I(1)] I(2,3) by auto
qed simp

lemma hm_map_set: 
  assumes "hm_wf h m" "hm_wf h' m'" "set (data m) = set (data m')"
  shows "hm_map m = hm_map m'"
  unfolding hm_map_def
  by (subst map_of_inject_set) (use assms in \<open>simp_all add: hm_wf_def comp_def\<close>)

lemma rehash_spec:
  fixes m :: "('k, 'v) node_hash_map"
  assumes wf: "hm_wf h m" and len: "length (data m) \<le> unat c" and c: "c \<le> 2874713497"
  shows "\<exists>m'. rehash c m = Some m' \<and> hm_inv h m' \<and> hm_map m' = hm_map m"
proof (cases "c \<le> bucket_count m")
  case True
  then have "length (data m) \<le> unat (bucket_count m)" using len by (simp add: word_le_nat_alt)
  then show ?thesis using True wf by (simp add: rehash_def hm_inv_def)
next
  case False
  obtain tmp :: "('k, 'v) node_hash_map" where t: "hm_new c = Some tmp" using new_returns[OF c] by blast
  note N = new_wf[OF t]
  have R: "hm_wf h (rehash_loop (data m) tmp) \<and> set (data (rehash_loop (data m) tmp)) = set (data m) \<union> set (data tmp) \<and>
    length (data (rehash_loop (data m) tmp)) = length (data m) + length (data tmp) \<and>
    bucket_count (rehash_loop (data m) tmp) = bucket_count tmp"
    by (rule rehash_loop_wf[OF N(1)]) (use wf N(2) in \<open>auto simp: hm_wf_def\<close>)
  then have "hm_inv h (rehash_loop (data m) tmp)" using len N(2,3) by (auto simp: hm_inv_def word_le_nat_alt)
  moreover have "hm_map (rehash_loop (data m) tmp) = hm_map m"
    using R N(2) by (intro hm_map_set[OF _ wf]) auto
  ultimately show ?thesis using False t by (simp add: rehash_def)
qed

text \<open>A key that is absent: the common end of \<open>emplace\<close> and \<open>try_emplace\<close>.\<close>

lemma insert_rehash:
  assumes inv: "hm_inv h m" and k: "k \<notin> hm_keys m" and len: "length (data m) < 2874713497"
    and n: "n = \<lparr>nhash = h k, nkey = k, nvalue = v\<rparr>"
    and idx: "idx = get_bucket m (h k)"
    and pos: "pos = (if buckets m idx = NullIt then first_of (data m) else buckets m idx)"
    and m1: "m1 = m\<lparr>data := insert_before pos n (data m), buckets := (buckets m)(idx := NodeIt k)\<rparr>"
  shows "\<exists>m2. rehash (hm_size m1) m1 = Some m2 \<and> hm_inv h m2 \<and> hm_map m2 = (hm_map m)(k \<mapsto> v)"
proof -
  have wf: "hm_wf h m" using inv by (simp add: hm_inv_def)
  have I: "hm_wf h m1" "set (data m1) = insert n (set (data m))" "length (data m1) = Suc (length (data m))"
    using insert_wf[OF wf, of n idx pos m1] k idx pos m1 by (simp_all add: n)
  have "hm_map m1 = (hm_map m)(nkey n \<mapsto> nvalue n)"
    by (rule hm_map_insert[OF I(1,2) _ wf]) (use k n in simp)
  moreover have u: "unat (hm_size m1) = length (data m1)"
    unfolding hm_size_def by (rule unat_of_nat_small) (use len I(3) in simp)
  then have "hm_size m1 \<le> 2874713497" using len I(3) by (simp add: word_le_nat_alt)
  ultimately show ?thesis using rehash_spec[OF I(1), of "hm_size m1"] u n by auto
qed

lemma set_value_inv:
  assumes "hm_inv h m"
  shows "hm_inv h (hm_set_value k v m)" "hm_keys (hm_set_value k v m) = hm_keys m"
    "k \<in> hm_keys m \<Longrightarrow> hm_map (hm_set_value k v m) = (hm_map m)(k \<mapsto> v)"
proof -
  let ?g = "\<lambda>n. if nkey n = k then n\<lparr>nvalue := v\<rparr> else n"
  have g: "nkey (?g n) = nkey n" "nhash (?g n) = nhash n" for n by simp_all
  have d: "data (hm_set_value k v m) = map ?g (data m)" "buckets (hm_set_value k v m) = buckets m"
    "bucket_count (hm_set_value k v m) = bucket_count m" by (simp_all add: hm_set_value_def)
  have f: "head_of (filter P (map ?g xs)) = head_of (filter (\<lambda>n. P (?g n)) xs)" for P xs
    by (induction xs) auto
  have gb: "get_bucket (hm_set_value k v m) = get_bucket m" by (rule ext) (simp add: get_bucket_def d)
  show "hm_inv h (hm_set_value k v m)"
    using assms by (simp add: hm_inv_def hm_wf_def d gb f comp_def g cong: if_cong del: filter_map) auto
  have "map nkey (map ?g (data m)) = map nkey (data m)" by (simp add: g)
  then show "hm_keys (hm_set_value k v m) = hm_keys m" unfolding d(1) by (metis set_map)
  show "hm_map (hm_set_value k v m) = (hm_map m)(k \<mapsto> v)" if "k \<in> hm_keys m"
  proof (rule ext)
    fix a
    have "map_of (map (\<lambda>n. (nkey n, nvalue n)) (map ?g xs)) a =
      (if a = k \<and> k \<in> nkey ` set xs then Some v else map_of (map (\<lambda>n. (nkey n, nvalue n)) xs) a)" for xs
      by (induction xs) auto
    from this[of "data m"] show "hm_map (hm_set_value k v m) a = ((hm_map m)(k \<mapsto> v)) a"
      unfolding hm_map_def d(1) using that by (simp del: map_map)
  qed
qed

lemma emplace_spec:
  assumes inv: "hm_inv h m" and len: "length (data m) < 2874713497"
  shows "\<exists>m'. hm_emplace h k v m = Some (NodeIt k, hm_map m k = None, m') \<and> hm_inv h m' \<and>
    hm_map m' = (hm_map m)(k \<mapsto> v)"
proof -
  have wf: "hm_wf h m" using inv by (simp add: hm_inv_def)
  note S = search_bucket[OF wf refl, of k]
  show ?thesis
  proof (cases "k \<in> hm_keys m")
    case True
    then have "hm_emplace h k v m = Some (NodeIt k, False, hm_set_value k v m)"
      by (simp only: hm_emplace_def Let_def hnode.select_convs S if_True iter.case)
    then show ?thesis using set_value_inv[OF inv] True hm_map_dom[of k m] by auto
  next
    case False
    obtain m2 where "hm_emplace h k v m = Some (NodeIt k, True, m2)" "hm_inv h m2" "hm_map m2 = (hm_map m)(k \<mapsto> v)"
      using insert_rehash[OF inv False len refl refl refl refl, of v] False
      by (auto simp only: hm_emplace_def Let_def hnode.select_convs S if_False iter.case bind.bind_lunit option.inject)
    then show ?thesis using False hm_map_dom[of k m] by auto
  qed
qed

lemma try_emplace_spec:
  assumes inv: "hm_inv h m" and len: "length (data m) < 2874713497"
  shows "\<exists>m'. try_emplace h k v m = Some (NodeIt k, hm_map m k = None, m') \<and> hm_inv h m' \<and>
    hm_map m' = (if hm_map m k = None then (hm_map m)(k \<mapsto> v) else hm_map m)"
proof -
  have wf: "hm_wf h m" using inv by (simp add: hm_inv_def)
  note S = search_bucket[OF wf refl, of k]
  show ?thesis
  proof (cases "k \<in> hm_keys m")
    case True
    then have "try_emplace h k v m = Some (NodeIt k, False, m)"
      by (simp only: try_emplace_def Let_def hnode.select_convs S if_True iter.case)
    then show ?thesis using inv True hm_map_dom[of k m] by auto
  next
    case False
    obtain m2 where "try_emplace h k v m = Some (NodeIt k, True, m2)" "hm_inv h m2" "hm_map m2 = (hm_map m)(k \<mapsto> v)"
      using insert_rehash[OF inv False len refl refl refl refl, of v] False
      by (auto simp only: try_emplace_def Let_def hnode.select_convs S if_False iter.case bind.bind_lunit option.inject)
    then show ?thesis using False hm_map_dom[of k m] by auto
  qed
qed

section \<open>Erasing\<close>

lemma wf_grouped: "hm_wf h m \<Longrightarrow> grouped (map (bucket_of m) (data m))"
  by (simp add: hm_wf_def)

lemma grouped_tail: "grouped (as @ bs) \<Longrightarrow> grouped bs"
  by (induction as) auto

lemma same_bucket_first:
  assumes d: "distinct (map nkey (data m))" and m: "data m = as @ bs"
  shows "same_bucket m (first_of bs) b \<longleftrightarrow> bs \<noteq> [] \<and> bucket_of m (hd bs) = b"
proof (cases bs)
  case Nil
  then show ?thesis by (simp add: same_bucket_def first_of_def)
next
  case (Cons x xs)
  then have "x \<in> set (data m)" using m by simp
  from nodes_from_key[OF d this] show ?thesis using Cons by (auto simp: same_bucket_def first_of_def)
qed

text \<open>The new head of the bucket is the first remaining node of the bucket.\<close>

lemma erase_bucket_head:
  assumes wf: "hm_wf h m" and m: "data m = as @ n # bs" and b: "b = bucket_of m n"
  shows "(if buckets m b = NodeIt (nkey n) then (if same_bucket m (first_of bs) b then first_of bs else NullIt)
     else buckets m b) = head_of (filter (\<lambda>a. bucket_of m a = b) (as @ bs))"
proof -
  let ?P = "\<lambda>a. bucket_of m a = b"
  have d: "distinct (map nkey (data m))" using wf by (simp add: hm_wf_def)
  have bk: "buckets m b = head_of (filter ?P (as @ n # bs))"
    using wf b m get_bucket_less[of m "nhash n"] by (auto simp: hm_wf_def)
  have sb: "same_bucket m (first_of bs) b \<longleftrightarrow> bs \<noteq> [] \<and> ?P (hd bs)"
    using same_bucket_first[OF d, of "as @ [n]" bs] m by simp
  have gr: "grouped (map (bucket_of m) as @ b # map (bucket_of m) bs)"
    using wf_grouped[OF wf] b m by simp
  have rest: "filter ?P bs = []" if "bs \<noteq> [] \<longrightarrow> \<not> ?P (hd bs)"
    using grouped_tail[OF gr] that by (cases bs) (auto simp: filter_empty_conv)
  show ?thesis
  proof (cases "filter ?P as")
    case Nil
    then have "buckets m b = NodeIt (nkey n)" using bk b by simp
    then show ?thesis using Nil sb rest by (cases bs) (auto simp: first_of_def)
  next
    case (Cons x xs)
    then have "x \<in> set as" by (metis filter_is_subset list.set_intros(1) subsetD)
    moreover have "nkey n \<notin> nkey ` set as" using d m by simp
    ultimately have "nkey x \<noteq> nkey n" by (metis imageI)
    then show ?thesis using bk Cons by simp
  qed
qed

lemma erase_at_eq:
  assumes inv: "hm_inv h m" and m: "data m = as @ n # bs"
  shows "\<exists>m'. erase_at (NodeIt (nkey n)) m = Some (first_of bs, m') \<and> hm_inv h m' \<and> data m' = as @ bs"
proof -
  let ?b = "bucket_of m n"
  have wf: "hm_wf h m" and d: "distinct (map nkey (data m))" using inv by (auto simp: hm_inv_def hm_wf_def)
  have "n \<in> set (data m)" using m by simp
  from nodes_from_key[OF d this] obtain cs where nf: "nodes_from (NodeIt (nkey n)) (data m) = n # cs"
    "\<exists>xs. data m = xs @ n # cs \<and> nkey n \<notin> nkey ` set (xs @ cs)" by blast
  then have cs: "cs = bs" using m d by (auto simp: append_eq_Cons_conv append_eq_append_conv2 Cons_eq_append_conv)
  have k: "nkey n \<notin> nkey ` set (as @ bs)" using d m by auto
  then have "\<forall>a \<in> set (as @ bs). nkey a \<noteq> nkey n" by (metis imageI)
  then have fl: "filter (\<lambda>a. NodeIt (nkey a) \<noteq> NodeIt (nkey n)) (data m) = as @ bs"
    unfolding m by simp
  define nb where "nb = (if buckets m ?b = NodeIt (nkey n)
    then (if same_bucket m (first_of bs) ?b then first_of bs else NullIt) else buckets m ?b)"
  have nbh: "nb = head_of (filter (\<lambda>a. bucket_of m a = ?b) (as @ bs))"
    unfolding nb_def by (rule erase_bucket_head[OF wf m refl])
  have "buckets m ?b \<noteq> NullIt"
    using wf m get_bucket_less[of m "nhash n"] by (auto simp: hm_wf_def)
  moreover define m' where "m' = m\<lparr>buckets := (buckets m)(?b := nb), data := as @ bs\<rparr>"
  ultimately have e: "erase_at (NodeIt (nkey n)) m = Some (first_of bs, m')"
    by (simp add: erase_at_def nf(1) cs Let_def next_of_def fl[simplified] nb_def ASSERT_def cong: if_cong
        del: nodes_from.simps)
  have gb: "get_bucket m' = get_bucket m" by (rule ext) (simp add: m'_def get_bucket_def)
  have "grouped (map (bucket_of m) as @ map (bucket_of m) bs)"
    using grouped_remove[of "map (bucket_of m) as" ?b] wf_grouped[OF wf] m by simp
  moreover have "buckets m' i = head_of (filter (\<lambda>a. bucket_of m a = i) (as @ bs))" if "i < bucket_count m" for i
    using that wf m nbh by (cases "i = ?b") (auto simp: m'_def hm_wf_def)
  ultimately have "hm_wf h m'" using wf m d by (auto simp: hm_wf_def gb) (auto simp: m'_def)
  then show ?thesis using e inv m by (auto simp: hm_inv_def m'_def)
qed

lemma length_card: "hm_inv h m \<Longrightarrow> length (data m) = card (dom (hm_map m))"
  by (simp add: hm_inv_def hm_wf_def hm_map_def dom_map_of_conv_image_fst image_image distinct_card[symmetric])
    (metis card_image distinct_card distinct_map length_map set_map)

lemma hm_at_eq: "hm_inv h m \<Longrightarrow> hm_at h k m = hm_map m k"
  using hm_map_dom[of k m] value_at_eq[of m k] by (auto simp: hm_at_def Let_def hm_find_eq hm_inv_def hm_wf_def)

lemma erase_spec:
  assumes inv: "hm_inv h m"
  shows "\<exists>it m'. hm_erase h k m = Some (it, m') \<and> hm_inv h m' \<and> hm_map m' = (hm_map m)(k := None)"
proof (cases "k \<in> hm_keys m")
  case True
  have d: "distinct (map nkey (data m))" and wf: "hm_wf h m" using inv by (auto simp: hm_inv_def hm_wf_def)
  from True obtain n where n: "n \<in> set (data m)" "nkey n = k" by auto
  then obtain as bs where m: "data m = as @ n # bs" by (metis split_list)
  obtain m' where e: "erase_at (NodeIt (nkey n)) m = Some (first_of bs, m')" "hm_inv h m'" "data m' = as @ bs"
    using erase_at_eq[OF inv m] by blast
  have k: "k \<notin> nkey ` set as" "k \<notin> nkey ` set bs" using d m n(2) by auto
  let ?g = "\<lambda>xs. map_of (map (\<lambda>n. (nkey n, nvalue n)) xs)"
  have "?g as k = None" "?g bs k = None" using k by (simp_all add: map_of_eq_None_iff image_image)
  then have "hm_map m' = (hm_map m)(k := None)"
    by (auto simp: hm_map_def m e(3) map_add_def n(2) fun_eq_iff split: option.splits)
  then show ?thesis using e True n(2) wf by (simp add: hm_erase_def Let_def hm_find_eq)
next
  case False
  then have "hm_erase h k m = Some (EndIt, m)" using inv by (simp add: hm_erase_def Let_def hm_find_eq hm_inv_def)
  moreover have "hm_map m = (hm_map m)(k := None)" using False hm_map_dom[of k m] by (simp add: fun_upd_idem)
  ultimately show ?thesis using inv by metis
qed

lemma clear_returns: "hm_inv h m \<Longrightarrow> \<exists>m'. hm_clear m = Some m' \<and> hm_inv h m' \<and> data m' = []"
proof -
  have "hm_inv h m \<Longrightarrow> data m = ns \<Longrightarrow> \<exists>m'. hm_clear_loop (first_of ns) m = Some m' \<and> hm_inv h m' \<and> data m' = []" for ns
  proof (induction ns arbitrary: m)
    case Nil
    then show ?case by (subst hm_clear_loop.simps) (simp add: first_of_def)
  next
    case (Cons n ns)
    obtain m' where "erase_at (NodeIt (nkey n)) m = Some (first_of ns, m')" "hm_inv h m'" "data m' = ns"
      using erase_at_eq[OF Cons.prems(1), of "[]" n ns] Cons.prems(2) by auto
    then show ?case using Cons.IH[of m'] by (subst hm_clear_loop.simps) (simp add: first_of_def)
  qed
  then show "hm_inv h m \<Longrightarrow> \<exists>m'. hm_clear m = Some m' \<and> hm_inv h m' \<and> data m' = []" by (simp add: hm_clear_def)
qed

lemma equal_map:
  fixes a b :: "('k, 'v) node_hash_map"
  assumes "hm_inv h a" "hm_inv h b" "length (data a) < 2 ^ 32" "length (data b) < 2 ^ 32"
  shows "hm_equal h a b \<longleftrightarrow> hm_map a = hm_map b"
proof -
  have "hm_size a = hm_size b \<longleftrightarrow> length (data a) = length (data b)"
    using unat_of_nat_small[where 'a = 32, of "length (data a)"] unat_of_nat_small[where 'a = 32, of "length (data b)"]
      assms(3,4) by (auto simp: hm_size_def word_unat_eq_iff)
  moreover have "(let it = hm_find h (nkey n) b in it \<noteq> EndIt \<and> value_at it b = Some (nvalue n)) \<longleftrightarrow>
    hm_map b (nkey n) = Some (nvalue n)" for n :: "('k, 'v) hnode"
    using assms(2) hm_map_dom[of "nkey n" b] value_at_eq[of b "nkey n"]
    by (auto simp: Let_def hm_find_eq hm_inv_def hm_wf_def)
  moreover have "(\<forall>n \<in> set (data a). hm_map b (nkey n) = Some (nvalue n)) \<longleftrightarrow> hm_map a \<subseteq>\<^sub>m hm_map b"
  proof -
    have "distinct (map fst (map (\<lambda>n. (nkey n, nvalue n)) (data a)))"
      using assms(1) by (simp add: hm_inv_def hm_wf_def comp_def)
    from map_of_eq_Some_iff[OF this] show ?thesis
      by (fastforce simp: hm_map_def map_le_def dom_def)
  qed
  ultimately have "hm_equal h a b \<longleftrightarrow> card (dom (hm_map a)) = card (dom (hm_map b)) \<and> hm_map a \<subseteq>\<^sub>m hm_map b"
    using length_card[OF assms(1)] length_card[OF assms(2)] by (simp add: hm_equal_def list_all_iff)
  also have "\<dots> \<longleftrightarrow> hm_map a = hm_map b"
    by (metis card_subset_eq finite_dom_map_of hm_map_def map_le_antisym map_le_implies_dom_le map_le_def map_le_refl)
  finally show ?thesis .
qed

section \<open>The map interface\<close>

text \<open>
  A dictionary that can hold \<open>cap\<close> entries: what the clients of the hash map rely on. \<open>put\<close> overwrites,
  \<open>try_put\<close> does not.
\<close>

datatype ('k, 'v) dict_op = Put 'k 'v | TryPut 'k 'v | Del 'k

fun abs_op :: "('k, 'v) dict_op \<Rightarrow> ('k \<rightharpoonup> 'v) \<Rightarrow> ('k \<rightharpoonup> 'v)" where
  "abs_op (Put k v) f = f(k \<mapsto> v)"
| "abs_op (TryPut k v) f = (if f k = None then f(k \<mapsto> v) else f)"
| "abs_op (Del k) f = f(k := None)"

fun dict_run :: "('k \<Rightarrow> 'v \<Rightarrow> 'm \<Rightarrow> 'm option) \<Rightarrow> ('k \<Rightarrow> 'v \<Rightarrow> 'm \<Rightarrow> 'm option) \<Rightarrow> ('k \<Rightarrow> 'm \<Rightarrow> 'm option) \<Rightarrow>
    ('k, 'v) dict_op list \<Rightarrow> 'm \<Rightarrow> 'm option" where
  "dict_run put try_put del [] m = Some m"
| "dict_run put try_put del (Put k v # ops) m = put k v m \<bind> dict_run put try_put del ops"
| "dict_run put try_put del (TryPut k v # ops) m = try_put k v m \<bind> dict_run put try_put del ops"
| "dict_run put try_put del (Del k # ops) m = del k m \<bind> dict_run put try_put del ops"

lemma card_abs_op: "finite (dom f) \<Longrightarrow> card (dom (abs_op o1 f)) \<le> Suc (card (dom f)) \<and> finite (dom (abs_op o1 f))"
  by (cases o1) (auto simp: card_insert_if card_Diff_singleton_if)

locale dict =
  fixes inv :: "'m \<Rightarrow> bool" and abs :: "'m \<Rightarrow> 'k \<rightharpoonup> 'v" and cap :: nat
    and get :: "'k \<Rightarrow> 'm \<Rightarrow> 'v option" and put try_put :: "'k \<Rightarrow> 'v \<Rightarrow> 'm \<Rightarrow> 'm option"
    and del :: "'k \<Rightarrow> 'm \<Rightarrow> 'm option"
  assumes abs_finite: "finite (dom (abs m))"
    and get_abs: "inv m \<Longrightarrow> get k m = abs m k"
    and put_abs: "inv m \<Longrightarrow> card (dom (abs m)) < cap \<Longrightarrow>
      \<exists>m'. put k v m = Some m' \<and> inv m' \<and> abs m' = (abs m)(k \<mapsto> v)"
    and try_put_abs: "inv m \<Longrightarrow> card (dom (abs m)) < cap \<Longrightarrow>
      \<exists>m'. try_put k v m = Some m' \<and> inv m' \<and> abs m' = (if abs m k = None then (abs m)(k \<mapsto> v) else abs m)"
    and del_abs: "inv m \<Longrightarrow> \<exists>m'. del k m = Some m' \<and> inv m' \<and> abs m' = (abs m)(k := None)"
begin

lemma step_abs:
  assumes "inv m" "card (dom (abs m)) < cap"
  shows "\<exists>m'. dict_run put try_put del (o1 # ops) m = dict_run put try_put del ops m' \<and> inv m' \<and> abs m' = abs_op o1 (abs m)"
proof (cases o1)
  case (Put k v)
  with put_abs[OF assms, of k v] show ?thesis by auto
next
  case (TryPut k v)
  obtain m' where "try_put k v m = Some m'" "inv m'" "abs m' = abs_op o1 (abs m)"
    using try_put_abs[OF assms, of k v] TryPut by auto
  then show ?thesis using TryPut by auto
next
  case (Del k)
  with del_abs[OF assms(1), of k] show ?thesis by auto
qed

lemma run_abs:
  "inv m \<Longrightarrow> card (dom (abs m)) + length ops \<le> cap \<Longrightarrow>
   \<exists>m'. dict_run put try_put del ops m = Some m' \<and> inv m' \<and> abs m' = fold abs_op ops (abs m)"
proof (induction ops arbitrary: m)
  case (Cons o1 ops)
  obtain m' where m': "dict_run put try_put del (o1 # ops) m = dict_run put try_put del ops m'" "inv m'"
    "abs m' = abs_op o1 (abs m)" using step_abs[of m o1 ops] Cons.prems by auto
  then have "card (dom (abs m')) + length ops \<le> cap"
    using card_abs_op[OF abs_finite, of o1 m] Cons.prems(2) by simp
  then show ?case using Cons.IH[OF m'(2)] m' by auto
qed simp

end

definition hm_put :: "('k \<Rightarrow> u32) \<Rightarrow> 'k \<Rightarrow> 'v \<Rightarrow> ('k, 'v) node_hash_map \<Rightarrow> ('k, 'v) node_hash_map option" where
  "hm_put h k v m = map_option (snd \<circ> snd) (hm_emplace h k v m)"

definition hm_try_put :: "('k \<Rightarrow> u32) \<Rightarrow> 'k \<Rightarrow> 'v \<Rightarrow> ('k, 'v) node_hash_map \<Rightarrow> ('k, 'v) node_hash_map option" where
  "hm_try_put h k v m = map_option (snd \<circ> snd) (try_emplace h k v m)"

definition hm_del :: "('k \<Rightarrow> u32) \<Rightarrow> 'k \<Rightarrow> ('k, 'v) node_hash_map \<Rightarrow> ('k, 'v) node_hash_map option" where
  "hm_del h k m = map_option snd (hm_erase h k m)"

interpretation hm: dict "hm_inv h" hm_map 2874713497 "hm_at h" "hm_put h" "hm_try_put h" "hm_del h" for h
proof unfold_locales
  fix m :: "('a, 'b) node_hash_map" and k v
  show "finite (dom (hm_map m))" by (simp add: hm_map_def finite_dom_map_of)
  show "hm_inv h m \<Longrightarrow> hm_at h k m = hm_map m k" by (rule hm_at_eq)
  show "hm_inv h m \<Longrightarrow> \<exists>m'. hm_del h k m = Some m' \<and> hm_inv h m' \<and> hm_map m' = (hm_map m)(k := None)"
    using erase_spec[of h m k] by (auto simp: hm_del_def)
  assume i: "hm_inv h m" "card (dom (hm_map m)) < 2874713497"
  then have "length (data m) < 2874713497" using length_card by metis
  then show "\<exists>m'. hm_put h k v m = Some m' \<and> hm_inv h m' \<and> hm_map m' = (hm_map m)(k \<mapsto> v)"
    "\<exists>m'. hm_try_put h k v m = Some m' \<and> hm_inv h m' \<and>
      hm_map m' = (if hm_map m k = None then (hm_map m)(k \<mapsto> v) else hm_map m)"
    using emplace_spec[OF i(1), of k v] try_emplace_spec[OF i(1), of k v]
    by (auto simp: hm_put_def hm_try_put_def)
qed

section \<open>Claims\<close>

text \<open>
  C1. The hash map implements a finite map: after any sequence of \<open>emplace\<close>, \<open>try_emplace\<close> and \<open>erase\<close> on
  a new map, none of which halts, \<open>at\<close> finds exactly what the same sequence does to a map, \<open>size\<close> is the
  number of keys, and there are at least as many buckets as keys, whatever the hash function.
\<close>

theorem hash_map_implements_map:
  assumes "c \<le> 2874713497" "length ops \<le> 2874713497"
  shows "\<exists>m0 m. hm_new c = Some m0 \<and> dict_run (hm_put h) (hm_try_put h) (hm_del h) ops m0 = Some m \<and>
    (\<forall>k. hm_at h k m = fold abs_op ops Map.empty k) \<and>
    unat (hm_size m) = card (dom (fold abs_op ops Map.empty)) \<and> hm_size m \<le> bucket_count m"
proof -
  obtain m0 :: "('a, 'b) node_hash_map" where m0: "hm_new c = Some m0" using new_returns[OF assms(1)] by blast
  then have i: "hm_inv h m0" and e: "hm_map m0 = Map.empty"
    using new_wf[OF m0] by (auto simp: hm_inv_def hm_map_def)
  obtain m where m: "dict_run (hm_put h) (hm_try_put h) (hm_del h) ops m0 = Some m" "hm_inv h m"
    "hm_map m = fold abs_op ops Map.empty"
    using hm.run_abs[OF i, of ops] assms(2) e by auto
  have b: "length (data m) \<le> unat (bucket_count m)" using m(2) by (simp add: hm_inv_def)
  then have u: "unat (hm_size m) = length (data m)"
    unfolding hm_size_def using unat_lt_u32[of "bucket_count m"] by (intro unat_of_nat_small) simp
  then show ?thesis using m0 m b length_card[OF m(2)] hm_at_eq[OF m(2)] by (auto simp: word_le_nat_alt)
qed

theorem hash_map_implements_map_witness:
  "\<exists>m0 m. hm_new 0 = Some m0 \<and>
    dict_run (hm_put id) (hm_try_put id) (hm_del id) [Put 1 True, TryPut 18 False, Del 1] m0 = Some m \<and>
    hm_at id 18 m = Some False \<and> hm_at id 1 m = None"
  using hash_map_implements_map[of 0 "[Put 1 True, TryPut 18 False, Del 1]" id] by fastforce

text \<open>
  C28. Two hash maps compare equal exactly when they hold the same map, whatever their bucket counts and
  insertion orders.
\<close>

theorem hash_map_equal:
  assumes "hm_inv h a" "hm_inv h b"
  shows "hm_equal h a b \<longleftrightarrow> hm_map a = hm_map b"
proof -
  have "length (data m) < 2 ^ 32" if "hm_inv h m" for m :: "('a, 'b) node_hash_map"
    using that unat_lt_u32[of "bucket_count m"] by (simp add: hm_inv_def)
  then show ?thesis using equal_map assms by blast
qed

definition empty_map :: "(u32, bool) node_hash_map" where "empty_map = \<lparr>bucket_count = 17, buckets = \<lambda>_. NullIt, data = []\<rparr>"

theorem hash_map_equal_witness: "hm_equal id empty_map (empty_map\<lparr>bucket_count := 37\<rparr>)"
proof -
  have "hm_inv id empty_map" "hm_inv id (empty_map\<lparr>bucket_count := 37\<rparr>)"
    by (simp_all add: hm_inv_def hm_wf_def empty_map_def)
  from hash_map_equal[OF this] show ?thesis by (simp add: hm_map_def empty_map_def)
qed

end
