(* ===== verification/Sched.thy ===== *)
theory Sched
  imports Hash_Map Page_Frame_Table
begin

text \<open>
  Kernel threads and the round-robin scheduler of \<^verbatim>\<open>src/src/kernel/sched/kthread.h\<close> and
  \<^verbatim>\<open>src/src/kernel/sched/kthread.cc\<close>, on the intrusive list and the hash map of this library. A thread is
  named by the address of its \<^verbatim>\<open>KernelThread\<close>; address 0 is the null pointer. The results of \<^verbatim>\<open>new\<close>, the
  readings of the time stamp counter and the stack pointer saved by \<^verbatim>\<open>switch_stack\<close> are arguments. The
  members of \<^verbatim>\<open>KernelThread\<close> that its constructor leaves uninitialised are an argument as well. A switch to a
  thread of a process reads the page directory of that process: \<open>dirs\<close> gives it for each address at which a
  process exists, and following any other pointer is undefined.
\<close>

section \<open>Definitions\<close>

type_synonym ThreadID = u16

definition InvalidTID :: ThreadID where "InvalidTID = - 1"

record kernel_thread =
  stack :: ptr
  is_runnable :: bool
  tid :: ThreadID
  proc :: ptr

record scheduler =
  running :: ptr
  links :: "ptr links"
  runnable :: ptr
  blocked :: ptr
  pending_deletion :: ptr
  context_switch_count :: u32
  context_switch_cum_cycles :: u64
  context_switch_start :: u64
  tid_counter :: ThreadID
  tid_map :: "(ThreadID, ptr) node_hash_map"
  curr_proc_override :: ptr
  threads :: "ptr \<Rightarrow> kernel_thread"
  address_space :: u64
  interrupts :: bool
  stats :: "(u32 \<times> u64 \<times> u32) list"
  freed :: "ptr list"

definition tid_hash :: "ThreadID \<Rightarrow> u32" where "tid_hash t = ucast t"

definition KernelThread :: "ptr \<Rightarrow> kernel_thread \<Rightarrow> kernel_thread" where
  "KernelThread stk junk = junk\<lparr>stack := stk, is_runnable := True\<rparr>"

definition upd_thread :: "ptr \<Rightarrow> (kernel_thread \<Rightarrow> kernel_thread) \<Rightarrow> scheduler \<Rightarrow> scheduler" where
  "upd_thread t f s = s\<lparr>threads := (threads s)(t := f (threads s t))\<rparr>"

text \<open>The constructor; \<open>r\<close> and \<open>b\<close> are the addresses of the two list heads.\<close>

definition Scheduler :: "ptr \<Rightarrow> ptr \<Rightarrow> (ptr \<Rightarrow> kernel_thread) \<Rightarrow> ptr links \<Rightarrow> u64 \<Rightarrow> scheduler option" where
  "Scheduler r b thr ls junk = do {
     m \<leftarrow> hm_new 0;
     (_, _, m') \<leftarrow> hm_emplace tid_hash InvalidTID 0 m;
     Some \<lparr>running = 0, links = init_node b (init_node r ls), runnable = r, blocked = b, pending_deletion = 0,
           context_switch_count = 0, context_switch_cum_cycles = 0, context_switch_start = junk, tid_counter = 0,
           tid_map = m', curr_proc_override = 0, threads = thr, address_space = 0, interrupts = False,
           stats = [], freed = []\<rparr>
   }"

partial_function (option) assign_tid_loop :: "ptr \<Rightarrow> scheduler \<Rightarrow> scheduler option" where
  "assign_tid_loop new_thread s = do {
     (_, inserted, m') \<leftarrow> try_emplace tid_hash (tid_counter s) new_thread (tid_map s);
     let s' = s\<lparr>tid_map := m', tid_counter := tid_counter s + 1\<rparr>;
     if inserted then Some s' else assign_tid_loop new_thread s'
   }"

definition assign_next_tid :: "ptr \<Rightarrow> scheduler \<Rightarrow> scheduler option" where
  "assign_next_tid new_thread s = do {
     ASSERT (hm_size (tid_map s) \<noteq> 0xFFFF);
     s' \<leftarrow> assign_tid_loop new_thread s;
     Some (upd_thread new_thread (\<lambda>t. t\<lparr>tid := tid_counter s' - 1\<rparr>) s')
   }"

definition bootstrap :: "ptr \<Rightarrow> kernel_thread \<Rightarrow> scheduler \<Rightarrow> (ThreadID \<times> scheduler) option" where
  "bootstrap t junk s = do {
     ASSERT (running s = 0);
     let s1 = s\<lparr>running := t, threads := (threads s)(t := KernelThread 0 junk), links := init_node t (links s)\<rparr>;
     ASSERT (t \<noteq> 0);
     s2 \<leftarrow> assign_next_tid t s1;
     Some (tid (threads s2 t), s2)
   }"

text \<open>
  \<^verbatim>\<open>setup_stack\<close> pushes eight words: the three arguments and the return address of the thread entry, and
  the four saved registers.
\<close>

definition setup_stack :: "ptr \<Rightarrow> ptr" where "setup_stack stk = stk - 32"

definition new_thread :: "ptr \<Rightarrow> ptr \<Rightarrow> ptr \<Rightarrow> kernel_thread \<Rightarrow> scheduler \<Rightarrow> (ThreadID \<times> scheduler) option" where
  "new_thread prc stk t junk s = do {
     ASSERT (stk \<noteq> 0);
     let top = stk + PG_SZ;
     let s1 = s\<lparr>threads := (threads s)(t := KernelThread 0 junk), links := init_node t (links s)\<rparr>;
     ASSERT (t \<noteq> 0);
     s2 \<leftarrow> assign_next_tid t s1;
     let s3 = upd_thread t (\<lambda>x. x\<lparr>stack := setup_stack top, proc := prc\<rparr>) s2;
     let s4 = s3\<lparr>links := il_push_back (runnable s3) t (links s3)\<rparr>;
     Some (tid (threads s4 t), s4)
   }"

definition choose_task :: "scheduler \<Rightarrow> ptr option" where
  "choose_task s = do {
     ASSERT (running s \<noteq> 0);
     Some (if \<not> il_empty (links s) (runnable s) then il_begin (links s) (runnable s)
           else if is_runnable (threads s (running s)) then running s else 0)
   }"

text \<open>\<open>None\<close> stands for the division exception when no context switch has been counted.\<close>

definition print_stats :: "scheduler \<Rightarrow> scheduler option" where
  "print_stats s = do {
     n \<leftarrow> il_size (links s) (runnable s);
     ASSERT (context_switch_count s \<noteq> 0);
     Some (s\<lparr>stats := (context_switch_count s,
        context_switch_cum_cycles s div ucast (context_switch_count s), n) # stats s\<rparr>)
   }"

definition delete_task :: "ptr \<Rightarrow> scheduler \<Rightarrow> scheduler option" where
  "delete_task t s = do {
     ASSERT (t \<noteq> 0);
     let s1 = s\<lparr>links := snd (il_erase t (links s))\<rparr>;
     (_, m') \<leftarrow> hm_erase tid_hash (tid (threads s1 t)) (tid_map s1);
     let stack_pg = ucast (floor_pow2 (ucast PG_SZ) (ucast (stack (threads s1 t))));
     Some (s1\<lparr>tid_map := m', freed := t # stack_pg # freed s1\<rparr>)
   }"

definition post_context_switch_bookkeeping :: "u64 \<Rightarrow> scheduler \<Rightarrow> scheduler option" where
  "post_context_switch_bookkeeping now s = do {
     let s1 = s\<lparr>context_switch_cum_cycles := context_switch_cum_cycles s + (now - context_switch_start s),
                context_switch_count := context_switch_count s + 1\<rparr>;
     s2 \<leftarrow> (if pending_deletion s1 \<noteq> 0
            then do { s' \<leftarrow> delete_task (pending_deletion s1) s1; Some (s'\<lparr>pending_deletion := 0\<rparr>) }
            else Some s1);
     s3 \<leftarrow> (if context_switch_count s2 mod 100 = 0 then print_stats s2 else Some s2);
     Some (s3\<lparr>interrupts := True\<rparr>)
   }"

definition on_thread_start :: "ptr \<Rightarrow> u64 \<Rightarrow> scheduler \<Rightarrow> scheduler option" where
  "on_thread_start t now s = do { ASSERT (t \<noteq> 0); post_context_switch_bookkeeping now s }"

text \<open>
  \<^verbatim>\<open>new_task->proc->enter_virtual_address_space()\<close>: the directory must not be null, and its physical address is
  loaded into \<^verbatim>\<open>cr3\<close>, here \<open>address_space\<close>.
\<close>

definition switch_address_space :: "(ptr \<Rightarrow> ptr option) \<Rightarrow> ptr \<Rightarrow> scheduler \<Rightarrow> scheduler option" where
  "switch_address_space dirs new_task s = do {
     let prc = proc (threads s new_task);
     if prc \<noteq> 0 then do {
       page_directory \<leftarrow> dirs prc;
       ASSERT (page_directory \<noteq> 0);
       phys \<leftarrow> hhdm_to_direct page_directory;
       Some (s\<lparr>address_space := phys\<rparr>)
     }
     else Some s
   }"

text \<open>
  \<open>esp\<close> is the stack pointer saved when the stacks are switched. The continuation after the switch is
  that of the new task, which runs the same bookkeeping, in \<^verbatim>\<open>schedule\<close> or in \<^verbatim>\<open>on_thread_start\<close>.
\<close>

definition schedule :: "(ptr \<Rightarrow> ptr option) \<Rightarrow> bool \<Rightarrow> ptr \<Rightarrow> u64 \<Rightarrow> u64 \<Rightarrow> scheduler \<Rightarrow> scheduler option" where
  "schedule dirs switch_stack esp start now s0 = do {
     let s = s0\<lparr>interrupts := False\<rparr>;
     ASSERT (running s \<noteq> 0);
     new_task \<leftarrow> choose_task s;
     let current_task = running s;
     ASSERT (new_task \<noteq> 0);
     if new_task = current_task then Some (s\<lparr>interrupts := True\<rparr>)
     else do {
       let s1 = s\<lparr>running := new_task, links := il_push_back (runnable s) current_task (snd (il_erase new_task (links s))),
                  context_switch_start := start\<rparr>;
       s2 \<leftarrow> switch_address_space dirs new_task s1;
       let s3 = (if switch_stack then upd_thread current_task (\<lambda>t. t\<lparr>stack := esp\<rparr>) s2 else s2);
       post_context_switch_bookkeeping now s3
     }
   }"

definition destroy_thread :: "(ptr \<Rightarrow> ptr option) \<Rightarrow> ptr \<Rightarrow> bool \<Rightarrow> ptr \<Rightarrow> u64 \<Rightarrow> u64 \<Rightarrow> scheduler \<Rightarrow> scheduler option" where
  "destroy_thread dirs t switch_stack esp start now s = do {
     let thread = (if t = 0 then running s else t);
     ASSERT (thread \<noteq> 0);
     if thread \<noteq> running s then delete_task thread s
     else do {
       let s1 = upd_thread thread (\<lambda>t. t\<lparr>is_runnable := False\<rparr>) s;
       ASSERT (pending_deletion s1 = 0);
       schedule dirs switch_stack esp start now (s1\<lparr>pending_deletion := thread\<rparr>)
     }
   }"

definition destroy_thread_tid :: "(ptr \<Rightarrow> ptr option) \<Rightarrow> ThreadID \<Rightarrow> ptr \<Rightarrow> u64 \<Rightarrow> u64 \<Rightarrow> scheduler \<Rightarrow> scheduler option" where
  "destroy_thread_tid dirs t esp start now s = do {
     let it = hm_find tid_hash t (tid_map s);
     ASSERT (it \<noteq> EndIt);
     p \<leftarrow> value_at it (tid_map s);
     ASSERT (p \<noteq> 0);
     destroy_thread dirs p True esp start now s
   }"

definition curr_proc :: "scheduler \<Rightarrow> ptr" where
  "curr_proc s = (if curr_proc_override s \<noteq> 0 then curr_proc_override s
                  else if running s \<noteq> 0 then proc (threads s (running s)) else 0)"

definition override_curr_proc :: "ptr \<Rightarrow> scheduler \<Rightarrow> scheduler option" where
  "override_curr_proc prc s = do {
     ASSERT (prc \<noteq> 0 \<longrightarrow> curr_proc_override s = 0);
     Some (s\<lparr>curr_proc_override := prc\<rparr>)
   }"

lemma unat_plus_one_le: "unat (x + 1 :: 'a::len word) \<le> unat x + 1"
  by (simp add: unat_word_ariths)

section \<open>The run queue\<close>

lemma erase_keeps_alone:
  assumes "ring ls (h # ys)" "p \<in> set ys" "ring ls [x]" "x \<notin> set (h # ys)"
  shows "ring (snd (il_erase p ls)) (h # remove1 p ys)" "ring (snd (il_erase p ls)) [x]" "ring (snd (il_erase p ls)) [p]"
proof -
  obtain q t where "il_erase p ls = (q, t)" "ring t (h # remove1 p ys)" "ring t [p]" "same_outside (set (h # ys)) ls t"
    by (rule erase_member[OF assms(1,2)])
  then show "ring (snd (il_erase p ls)) (h # remove1 p ys)" "ring (snd (il_erase p ls)) [x]" "ring (snd (il_erase p ls)) [p]"
    using ring_same_outside[OF assms(3), of "set (h # ys)" t] assms(4) by auto
qed

lemma switch_links:
  assumes "ring ls (h # t # ts)" "ring ls [r]" "r \<notin> set (h # t # ts)" "ls' = il_push_back h r (snd (il_erase t ls))"
  shows "ring ls' (h # ts @ [r])" "ring ls' [t]"
proof -
  let ?m = "snd (il_erase t ls)"
  have d: "t \<notin> set ts" "t \<noteq> h" using assms(1) by (auto simp: ring_def)
  have m: "ring ?m (h # ts)" "ring ?m [r]" "ring ?m [t]"
    using erase_keeps_alone[OF assms(1) _ assms(2,3), of t] by auto
  have r: "r \<notin> set (h # ts)" using assms(3) by auto
  show "ring ls' (h # ts @ [r])" unfolding assms(4) by (rule insert_before(1)[OF m(1,2) r])
  show "ring ls' [t]" unfolding assms(4)
    by (rule ring_same_outside[OF m(3) insert_before(2)[OF m(1,2) r]]) (use d assms(3) in auto)
qed

section \<open>Invariant\<close>

text \<open>
  The running thread and the queued threads \<open>ts\<close> are all the threads; each is in the thread table under its
  own identifier, and the table holds nothing else but the reserved identifier.
\<close>

definition tids_ok :: "scheduler \<Rightarrow> ptr set \<Rightarrow> bool" where
  "tids_ok s T \<longleftrightarrow> hm_inv tid_hash (tid_map s) \<and> 0 \<notin> T \<and> hm_map (tid_map s) InvalidTID = Some 0 \<and>
     (\<forall>t \<in> T. hm_map (tid_map s) (tid (threads s t)) = Some t) \<and>
     (\<forall>x p. hm_map (tid_map s) x = Some p \<longrightarrow> x = InvalidTID \<or> p \<in> T \<and> tid (threads s p) = x)"

definition sched_ok :: "scheduler \<Rightarrow> ptr list \<Rightarrow> bool" where
  "sched_ok s ts \<longleftrightarrow> ring (links s) (runnable s # ts) \<and> ring (links s) [running s] \<and> running s \<notin> set (runnable s # ts) \<and>
     tids_ok s (set (running s # ts)) \<and> pending_deletion s = 0 \<and> (\<forall>t \<in> set (running s # ts). is_runnable (threads s t))"

text \<open>Every thread of \<open>T\<close> has no process, or one whose page directory lies in the direct map.\<close>

definition procs_ok :: "(ptr \<Rightarrow> ptr option) \<Rightarrow> scheduler \<Rightarrow> ptr set \<Rightarrow> bool" where
  "procs_ok dirs s T \<longleftrightarrow> (\<forall>t \<in> T. proc (threads s t) = 0 \<or>
     (\<exists>pd. dirs (proc (threads s t)) = Some pd \<and> hhdm_start \<le> pd \<and> pd < hhdm_start + hhdm_len))"

lemma switch_address_space_ok:
  assumes "procs_ok dirs s T" "t \<in> T"
  obtains a where "switch_address_space dirs t s = Some (s\<lparr>address_space := a\<rparr>)"
proof (cases "proc (threads s t) = 0")
  case True
  then have "switch_address_space dirs t s = Some (s\<lparr>address_space := address_space s\<rparr>)"
    by (simp add: switch_address_space_def)
  then show thesis by (rule that)
next
  case False
  then obtain pd where pd: "dirs (proc (threads s t)) = Some pd" "hhdm_start \<le> pd" "pd < hhdm_start + hhdm_len"
    using assms unfolding procs_ok_def by blast
  have "pd \<noteq> 0" using pd(2) by (auto simp: memdefs)
  then have "switch_address_space dirs t s = Some (s\<lparr>address_space := ucast (pd - hhdm_start)\<rparr>)"
    using False pd by (simp add: switch_address_space_def hhdm_to_direct_def)
  then show thesis by (rule that)
qed

lemma tids_ok_running: "tids_ok s T \<Longrightarrow> t \<in> T \<Longrightarrow> t \<noteq> 0" "tids_ok s T \<Longrightarrow> t \<in> T \<Longrightarrow> tid (threads s t) \<noteq> InvalidTID"
  by (auto simp: tids_ok_def)

lemma tids_ok_inj: "tids_ok s T \<Longrightarrow> inj_on (\<lambda>t. tid (threads s t)) T"
  by (rule inj_onI) (metis option.inject tids_ok_def)

lemma tids_ok_cong:
  "tids_ok s T \<Longrightarrow> tid_map s' = tid_map s \<Longrightarrow> (\<And>t. t \<in> T \<Longrightarrow> tid (threads s' t) = tid (threads s t)) \<Longrightarrow> tids_ok s' T"
  unfolding tids_ok_def by metis

lemma print_stats_ok:
  assumes "ring (links s) (runnable s # ts)" "context_switch_count s \<noteq> 0"
  shows "\<exists>x. print_stats s = Some (s\<lparr>stats := x # stats s\<rparr>)"
proof -
  have "linked (links s) (runnable s # ts @ [runnable s])" "runnable s \<notin> set ts" using assms(1) by (auto simp: ring_def)
  then have "il_size (links s) (runnable s) = Some (of_nat (length ts))"
    using size_loop_linked[of "links s" "runnable s" ts "runnable s" 0] by (simp add: il_size_def)
  then show ?thesis using assms(2) by (simp add: print_stats_def) blast
qed

lemma delete_task_ok:
  assumes "tids_ok s T" "t \<in> T"
  shows "\<exists>m' fr. delete_task t s = Some (s\<lparr>links := snd (il_erase t (links s)), tid_map := m', freed := fr\<rparr>) \<and>
    tids_ok (s\<lparr>links := snd (il_erase t (links s)), tid_map := m', freed := fr\<rparr>) (T - {t}) \<and>
    hm_map m' = (hm_map (tid_map s))(tid (threads s t) := None)"
proof -
  have nz: "t \<noteq> 0" and nv: "tid (threads s t) \<noteq> InvalidTID" using tids_ok_running assms by auto
  obtain it m' where e: "hm_erase tid_hash (tid (threads s t)) (tid_map s) = Some (it, m')" "hm_inv tid_hash m'"
    "hm_map m' = (hm_map (tid_map s))(tid (threads s t) := None)"
    using erase_spec[of tid_hash "tid_map s" "tid (threads s t)"] assms(1) by (auto simp: tids_ok_def)
  have "\<exists>fr. delete_task t s = Some (s\<lparr>links := snd (il_erase t (links s)), tid_map := m', freed := fr\<rparr>)"
    using nz e(1) by (simp add: delete_task_def Let_def) blast
  then obtain fr where d: "delete_task t s = Some (s\<lparr>links := snd (il_erase t (links s)), tid_map := m', freed := fr\<rparr>)" ..
  have "tid (threads s u) \<noteq> tid (threads s t)" if "u \<in> T" "u \<noteq> t" for u
    using tids_ok_inj[OF assms(1)] assms(2) that by (auto dest: inj_onD)
  then have "tids_ok (s\<lparr>links := snd (il_erase t (links s)), tid_map := m', freed := fr\<rparr>) (T - {t})"
    using assms(1) e(2,3) nv by (auto simp: tids_ok_def split: if_splits)
  then show ?thesis using d e(3) by blast
qed

section \<open>Scheduling\<close>

lemma bookkeeping_ok:
  assumes "ring (links s) (runnable s # ts)" "context_switch_count s \<noteq> - 1" "pending_deletion s = 0"
  shows "\<exists>c st. post_context_switch_bookkeeping now s = Some (s\<lparr>context_switch_cum_cycles := c,
    context_switch_count := context_switch_count s + 1, stats := st, interrupts := True\<rparr>)"
proof -
  define s1 where "s1 = s\<lparr>context_switch_cum_cycles := context_switch_cum_cycles s + (now - context_switch_start s),
                context_switch_count := context_switch_count s + 1\<rparr>"
  have "context_switch_count s + 1 \<noteq> 0" using assms(2) by (simp add: add_eq_0_iff2)
  then obtain x where "print_stats s1 = Some (s1\<lparr>stats := x # stats s1\<rparr>)"
    using print_stats_ok[of s1 ts] assms(1) by (auto simp: s1_def)
  then show ?thesis using assms(3)
    by (intro exI[of _ "context_switch_cum_cycles s1"]
        exI[of _ "if context_switch_count s1 mod 100 = 0 then x # stats s else stats s"])
      (simp add: post_context_switch_bookkeeping_def Let_def s1_def)
qed

lemma choose_task_queue:
  assumes "ring (links s) (runnable s # ts)" "running s \<noteq> 0"
  shows "choose_task s = Some (case ts of t # _ \<Rightarrow> t | [] \<Rightarrow> if is_runnable (threads s (running s)) then running s else 0)"
proof -
  have "il_empty (links s) (runnable s) \<longleftrightarrow> ts = []" by (rule ring_empty_iff[OF assms(1)])
  moreover have "t = il_begin (links s) (runnable s)" if "ts = t # us" for t us
    using assms(1) that by (simp add: ring_Cons il_begin_def)
  ultimately show ?thesis using assms(2) by (cases ts) (auto simp: choose_task_def)
qed

text \<open>The state handed to the bookkeeping when the running thread is switched for the head of the queue.\<close>

definition switched :: "bool \<Rightarrow> ptr \<Rightarrow> u64 \<Rightarrow> ptr \<Rightarrow> scheduler \<Rightarrow> scheduler \<Rightarrow> bool" where
  "switched sw esp start t s s' \<longleftrightarrow> running s' = t \<and> links s' = il_push_back (runnable s) (running s) (snd (il_erase t (links s))) \<and>
     runnable s' = runnable s \<and> tid_map s' = tid_map s \<and> pending_deletion s' = pending_deletion s \<and>
     context_switch_count s' = context_switch_count s \<and>
     (\<forall>u. tid (threads s' u) = tid (threads s u) \<and> is_runnable (threads s' u) = is_runnable (threads s u) \<and>
       proc (threads s' u) = proc (threads s u))"

lemma schedule_switch:
  assumes "ring (links s) (runnable s # t # ts)" "running s \<noteq> 0" "running s \<notin> set (runnable s # t # ts)" "t \<noteq> 0"
    and "procs_ok dirs s {t}"
  shows "\<exists>s'. schedule dirs sw esp start now s = post_context_switch_bookkeeping now s' \<and> switched sw esp start t s s'"
proof -
  have c: "choose_task (s\<lparr>interrupts := False\<rparr>) = Some t" using choose_task_queue[of "s\<lparr>interrupts := False\<rparr>" "t # ts"] assms by simp
  define s1 where "s1 = s\<lparr>interrupts := False, running := t,
    links := il_push_back (runnable s) (running s) (snd (il_erase t (links s))), context_switch_start := start\<rparr>"
  have "procs_ok dirs s1 {t}" using assms(5) by (simp add: procs_ok_def s1_def)
  then obtain a where a: "switch_address_space dirs t s1 = Some (s1\<lparr>address_space := a\<rparr>)"
    by (rule switch_address_space_ok) simp
  define s2 where "s2 = s1\<lparr>address_space := a\<rparr>"
  define s3 where "s3 = (if sw then upd_thread (running s) (\<lambda>t. t\<lparr>stack := esp\<rparr>) s2 else s2)"
  have "schedule dirs sw esp start now s = post_context_switch_bookkeeping now s3"
    using c assms(2-4) a by (auto simp: schedule_def Let_def s3_def s2_def s1_def)
  moreover have "switched sw esp start t s s3"
    by (simp add: switched_def s3_def s2_def s1_def upd_thread_def)
  ultimately show ?thesis by blast
qed

lemma schedule_ok:
  assumes ok: "sched_ok s (t # ts)" and P: "procs_ok dirs s (set (running s # t # ts))"
    and c: "context_switch_count s \<noteq> - 1"
  shows "\<exists>s'. schedule dirs sw esp start now s = Some s' \<and> sched_ok s' (ts @ [running s]) \<and> running s' = t \<and>
    procs_ok dirs s' (set (running s # t # ts)) \<and> context_switch_count s' = context_switch_count s + 1"
proof -
  have r: "ring (links s) (runnable s # t # ts)" "ring (links s) [running s]" "running s \<notin> set (runnable s # t # ts)"
    and T: "tids_ok s (set (running s # t # ts))" using ok by (auto simp: sched_ok_def)
  have nz: "running s \<noteq> 0" "t \<noteq> 0" using tids_ok_running(1)[OF T] by auto
  have "procs_ok dirs s {t}" using P by (simp add: procs_ok_def)
  then obtain s1 where s1: "schedule dirs sw esp start now s = post_context_switch_bookkeeping now s1" "switched sw esp start t s s1"
    using schedule_switch[OF r(1) nz(1) r(3) nz(2)] by blast
  note L = switch_links[OF r(1,2,3) refl]
  have l1: "ring (links s1) (runnable s1 # ts @ [running s])" "ring (links s1) [t]" using L s1(2) by (simp_all add: switched_def)
  obtain c' st where b: "post_context_switch_bookkeeping now s1 = Some (s1\<lparr>context_switch_cum_cycles := c',
    context_switch_count := context_switch_count s1 + 1, stats := st, interrupts := True\<rparr>)"
    using bookkeeping_ok[OF l1(1), of now] c s1(2) ok by (auto simp: switched_def sched_ok_def)
  have "tids_ok s1 (set (running s1 # ts @ [running s]))"
    using tids_ok_cong[OF T, of s1] s1(2) by (auto simp: switched_def insert_commute)
  moreover have "t \<notin> set (runnable s # ts @ [running s])" using r by (auto simp: ring_def)
  moreover have "procs_ok dirs s1 (set (running s # t # ts))" using P s1(2) by (simp add: procs_ok_def switched_def)
  ultimately show ?thesis using s1 b l1 ok
    by (intro exI[of _ "s1\<lparr>context_switch_cum_cycles := c', context_switch_count := context_switch_count s1 + 1,
        stats := st, interrupts := True\<rparr>"]) (auto simp: sched_ok_def switched_def tids_ok_def procs_ok_def)
qed

lemma schedule_alone:
  assumes "sched_ok s []"
  shows "schedule dirs sw esp start now s = Some (s\<lparr>interrupts := True\<rparr>)"
proof -
  have "running s \<noteq> 0" using assms tids_ok_running(1)[of s "{running s}" "running s"] by (simp add: sched_ok_def)
  moreover have "choose_task (s\<lparr>interrupts := False\<rparr>) = Some (running s)"
    using choose_task_queue[of "s\<lparr>interrupts := False\<rparr>" "[]"] assms calculation by (simp add: sched_ok_def)
  ultimately show ?thesis by (simp add: schedule_def Let_def)
qed

fun run_schedules :: "(ptr \<Rightarrow> ptr option) \<Rightarrow> (ptr \<times> u64 \<times> u64) list \<Rightarrow> scheduler \<Rightarrow> scheduler option" where
  "run_schedules dirs [] s = Some s"
| "run_schedules dirs ((esp, start, now) # xs) s = schedule dirs True esp start now s \<bind> run_schedules dirs xs"

lemma run_schedules_rotate:
  "sched_ok s ts \<Longrightarrow> procs_ok dirs s (set (running s # ts)) \<Longrightarrow>
   unat (context_switch_count s) + length xs < 2 ^ 32 \<Longrightarrow>
   \<exists>s'. run_schedules dirs xs s = Some s' \<and> sched_ok s' (tl (rotate (length xs) (running s # ts))) \<and>
     running s' = hd (rotate (length xs) (running s # ts))"
proof (induction xs arbitrary: s ts)
  case (Cons x xs)
  obtain esp start now where x: "x = (esp, start, now)" by (cases x)
  obtain s1 where s1: "schedule dirs True esp start now s = Some s1" "sched_ok s1 (tl (rotate1 (running s # ts)))"
    "running s1 = hd (rotate1 (running s # ts))" "unat (context_switch_count s1) \<le> unat (context_switch_count s) + 1"
    "procs_ok dirs s1 (set (running s # ts))"
  proof (cases ts)
    case Nil
    then have "schedule dirs True esp start now s = Some (s\<lparr>interrupts := True\<rparr>)" using schedule_alone Cons.prems(1) by simp
    then show thesis by (rule that) (use Cons.prems(1,2) Nil in \<open>auto simp: sched_ok_def tids_ok_def procs_ok_def\<close>)
  next
    case (Cons t us)
    have "context_switch_count s \<noteq> - 1"
      using Cons.prems(3) by (auto simp: unsigned_minus_1_eq_mask mask_eq_exp_minus_1)
    then obtain s' where s': "schedule dirs True esp start now s = Some s'" "sched_ok s' (us @ [running s])" "running s' = t"
      "context_switch_count s' = context_switch_count s + 1" "procs_ok dirs s' (set (running s # t # us))"
      using schedule_ok[of s t us dirs True esp start now] Cons.prems(1,2) Cons by auto
    then show thesis using Cons that[of s'] unat_plus_one_le[of "context_switch_count s"] by auto
  qed
  have "rotate1 (running s # ts) = running s1 # tl (rotate1 (running s # ts))" using s1(3) by (cases ts) auto
  then have rot: "rotate n (running s1 # tl (rotate1 (running s # ts))) = rotate (Suc n) (running s # ts)" for n
    by (metis rotate1_rotate_swap rotate_Suc)
  have "unat (context_switch_count s1) + length xs < 2 ^ 32" using s1(4) Cons.prems(3) by simp
  moreover have "set (running s1 # tl (rotate1 (running s # ts))) = set (running s # ts)"
    using \<open>rotate1 (running s # ts) = _\<close> set_rotate1[of "running s # ts"] by metis
  ultimately obtain s' where "run_schedules dirs xs s1 = Some s'" "sched_ok s' (tl (rotate (Suc (length xs)) (running s # ts)))"
     "running s' = hd (rotate (Suc (length xs)) (running s # ts))"
    using Cons.IH[OF s1(2)] s1(5) unfolding rot by auto
  then show ?case using s1(1) x by simp
qed simp

section \<open>Thread identifiers\<close>

lemma tid_map_small: "hm_inv tid_hash m \<Longrightarrow> length (data m) \<le> 65536"
proof -
  assume "hm_inv tid_hash m"
  then have "length (data m) = card (dom (hm_map m))" by (rule length_card)
  also have "\<dots> \<le> card (UNIV :: u16 set)" by (rule card_mono) simp_all
  finally show ?thesis by (simp add: card_word)
qed

lemma assign_tid_loop_ok:
  assumes "hm_inv tid_hash (tid_map s)" "hm_map (tid_map s) x = None"
  shows "\<exists>m' c. assign_tid_loop t s = Some (s\<lparr>tid_map := m', tid_counter := c + 1\<rparr>) \<and> hm_inv tid_hash m' \<and>
    hm_map (tid_map s) c = None \<and> hm_map m' = (hm_map (tid_map s))(c \<mapsto> t)"
  using assms
proof (induction "unat (x - tid_counter s)" arbitrary: s rule: less_induct)
  case less
  let ?c = "tid_counter s"
  have "length (data (tid_map s)) < 2874713497" using tid_map_small[OF less.prems(1)] by simp
  then obtain m' where m': "try_emplace tid_hash ?c t (tid_map s) = Some (NodeIt ?c, hm_map (tid_map s) ?c = None, m')"
    "hm_inv tid_hash m'" "hm_map m' = (if hm_map (tid_map s) ?c = None then (hm_map (tid_map s))(?c \<mapsto> t) else hm_map (tid_map s))"
    using try_emplace_spec[OF less.prems(1)] by blast
  show ?case
  proof (cases "hm_map (tid_map s) ?c = None")
    case True
    then have "assign_tid_loop t s = Some (s\<lparr>tid_map := m', tid_counter := ?c + 1\<rparr>)"
      using m'(1) by (subst assign_tid_loop.simps) (simp add: Let_def)
    then show ?thesis using True m' by (intro exI[of _ m'] exI[of _ ?c]) simp
  next
    case False
    let ?s = "s\<lparr>tid_map := m', tid_counter := ?c + 1\<rparr>"
    have eq: "assign_tid_loop t s = assign_tid_loop t ?s"
      using m'(1) False by (subst assign_tid_loop.simps) (auto simp: Let_def)
    have "x - ?c \<noteq> 0" using less.prems(2) False by auto
    then have "unat (x - ?c - 1) < unat (x - ?c)" by (metis unat_gt_0 unat_minus_one diff_less zero_less_one)
    then have "unat (x - tid_counter ?s) < unat (x - ?c)" by (simp add: diff_diff_eq)
    then obtain m2 c where "assign_tid_loop t ?s = Some (?s\<lparr>tid_map := m2, tid_counter := c + 1\<rparr>)" "hm_inv tid_hash m2"
      "hm_map m' c = None" "hm_map m2 = (hm_map m')(c \<mapsto> t)"
      using less.hyps[of ?s] m'(2,3) less.prems(2) False by auto
    then show ?thesis using eq m'(3) False by (intro exI[of _ m2] exI[of _ c]) auto
  qed
qed

lemma assign_next_tid_ok:
  assumes ok: "tids_ok s T" and len: "length (data (tid_map s)) < 65535" and t: "t \<notin> T" "t \<noteq> 0"
  shows "\<exists>m' c. assign_next_tid t s = Some (upd_thread t (\<lambda>x. x\<lparr>tid := c\<rparr>) (s\<lparr>tid_map := m', tid_counter := c + 1\<rparr>)) \<and>
    tids_ok (upd_thread t (\<lambda>x. x\<lparr>tid := c\<rparr>) (s\<lparr>tid_map := m', tid_counter := c + 1\<rparr>)) (insert t T) \<and>
    c \<notin> insert InvalidTID ((\<lambda>u. tid (threads s u)) ` T) \<and> length (data m') = Suc (length (data (tid_map s)))"
proof -
  have inv: "hm_inv tid_hash (tid_map s)" using ok by (simp add: tids_ok_def)
  have "card (dom (hm_map (tid_map s))) < card (UNIV :: u16 set)" using len length_card[OF inv] by (simp add: card_word)
  then have "dom (hm_map (tid_map s)) \<noteq> UNIV" by auto
  then obtain x where "hm_map (tid_map s) x = None" by auto
  then obtain m' c where m': "assign_tid_loop t s = Some (s\<lparr>tid_map := m', tid_counter := c + 1\<rparr>)" "hm_inv tid_hash m'"
    "hm_map (tid_map s) c = None" "hm_map m' = (hm_map (tid_map s))(c \<mapsto> t)"
    using assign_tid_loop_ok[OF inv] by blast
  have sz: "unat (hm_size (tid_map s)) = length (data (tid_map s))"
    unfolding hm_size_def by (rule unat_of_nat_small) (use len in simp)
  then have "hm_size (tid_map s) \<noteq> 0xFFFF" using len by auto
  then have a: "assign_next_tid t s = Some (upd_thread t (\<lambda>x. x\<lparr>tid := c\<rparr>) (s\<lparr>tid_map := m', tid_counter := c + 1\<rparr>))"
    using m'(1) by (simp add: assign_next_tid_def)
  have c: "c \<noteq> InvalidTID" "c \<noteq> tid (threads s u)" if "u \<in> T" for u using ok m'(3) that by (auto simp: tids_ok_def)
  have "c \<noteq> InvalidTID" using ok m'(3) by (auto simp: tids_ok_def)
  moreover have "tids_ok (upd_thread t (\<lambda>x. x\<lparr>tid := c\<rparr>) (s\<lparr>tid_map := m', tid_counter := c + 1\<rparr>)) (insert t T)"
    using ok m'(2-4) t c(2) \<open>c \<noteq> InvalidTID\<close> unfolding tids_ok_def upd_thread_def by auto
  moreover have "length (data m') = Suc (length (data (tid_map s)))"
  proof -
    have "finite (dom (hm_map (tid_map s)))" by simp
    moreover have "c \<notin> dom (hm_map (tid_map s))" using m'(3) by auto
    ultimately show ?thesis using length_card[OF inv] length_card[OF m'(2)] m'(4) by simp
  qed
  ultimately show ?thesis using a c by (intro exI[of _ m'] exI[of _ c]) auto
qed

lemma ring_init_other: "ring ls xs \<Longrightarrow> t \<notin> set xs \<Longrightarrow> ring (init_node t ls) xs"
  by (rule ring_frame[of ls]) (auto simp: init_node_def)

lemma new_thread_ok:
  assumes ok: "sched_ok s ts" and t: "t \<noteq> 0" "t \<notin> set (runnable s # running s # ts)" and stk: "stk \<noteq> 0"
    and len: "length (data (tid_map s)) < 65535"
  shows "\<exists>c s'. new_thread prc stk t junk s = Some (c, s') \<and> sched_ok s' (ts @ [t]) \<and> running s' = running s \<and>
    runnable s' = runnable s \<and> context_switch_count s' = context_switch_count s \<and>
    length (data (tid_map s')) = Suc (length (data (tid_map s))) \<and>
    (\<forall>u. proc (threads s' u) = (if u = t then prc else proc (threads s u))) \<and>
    c = tid (threads s' t) \<and> c \<notin> insert InvalidTID ((\<lambda>u. tid (threads s u)) ` set (running s # ts))"
proof -
  let ?T = "set (running s # ts)"
  define s1 where "s1 = s\<lparr>threads := (threads s)(t := KernelThread 0 junk), links := init_node t (links s)\<rparr>"
  have T: "tids_ok s1 ?T" using ok t(2) by (auto simp: sched_ok_def s1_def intro!: tids_ok_cong[of s])
  obtain m' c where m': "assign_next_tid t s1 = Some (upd_thread t (\<lambda>x. x\<lparr>tid := c\<rparr>) (s1\<lparr>tid_map := m', tid_counter := c + 1\<rparr>))"
    "tids_ok (upd_thread t (\<lambda>x. x\<lparr>tid := c\<rparr>) (s1\<lparr>tid_map := m', tid_counter := c + 1\<rparr>)) (insert t ?T)"
    "c \<notin> insert InvalidTID ((\<lambda>u. tid (threads s1 u)) ` ?T)" "length (data m') = Suc (length (data (tid_map s)))"
    using assign_next_tid_ok[OF T, of t] t len by (auto simp: s1_def)
  define s2 where "s2 = upd_thread t (\<lambda>x. x\<lparr>tid := c\<rparr>) (s1\<lparr>tid_map := m', tid_counter := c + 1\<rparr>)"
  define s3 where "s3 = upd_thread t (\<lambda>x. x\<lparr>stack := setup_stack (stk + PG_SZ), proc := prc\<rparr>) s2"
  define s4 where "s4 = s3\<lparr>links := il_push_back (runnable s3) t (links s3)\<rparr>"
  have n: "new_thread prc stk t junk s = Some (tid (threads s4 t), s4)"
    using stk t(1) m'(1) by (simp add: new_thread_def Let_def s1_def s2_def s3_def s4_def)
  have tt: "tid (threads s4 u) = tid (threads s2 u)" "tid (threads s2 t) = c" for u
    by (simp_all add: s4_def s3_def s2_def upd_thread_def)
  have fld: "running s4 = running s" "runnable s4 = runnable s" "pending_deletion s4 = pending_deletion s" "tid_map s4 = tid_map s2"
    "links s4 = il_push_back (runnable s) t (init_node t (links s))"
    by (simp_all add: s4_def s3_def s2_def s1_def upd_thread_def)
  have R: "ring (init_node t (links s)) (runnable s # ts)" "ring (init_node t (links s)) [running s]" "ring (init_node t (links s)) [t]"
    using ok t(2) by (auto simp: sched_ok_def ring_init intro: ring_init_other)
  have nt: "t \<notin> set (runnable s # ts)" using t(2) by auto
  have "ring (links s4) (runnable s # ts @ [t])" unfolding fld by (rule insert_before(1)[OF R(1,3) nt])
  moreover have "ring (links s4) [running s]" unfolding fld
    by (rule ring_same_outside[OF R(2) insert_before(2)[OF R(1,3) nt]]) (use ok t(2) in \<open>auto simp: sched_ok_def\<close>)
  moreover have "tids_ok s4 (insert t ?T)"
    by (rule tids_ok_cong[OF m'(2)[folded s2_def]]) (simp_all add: fld tt)
  moreover have "\<forall>u \<in> insert t ?T. is_runnable (threads s4 u)"
    using ok by (auto simp: s4_def s3_def s2_def s1_def upd_thread_def KernelThread_def sched_ok_def)
  ultimately have "sched_ok s4 (ts @ [t])" using ok t(2) by (auto simp: sched_ok_def fld insert_commute)
  moreover have "c \<notin> insert InvalidTID ((\<lambda>u. tid (threads s u)) ` ?T)" using m'(3) t(2) by (auto simp: s1_def)
  moreover have "context_switch_count s4 = context_switch_count s" "tid_map s4 = m'"
    "proc (threads s4 u) = (if u = t then prc else proc (threads s u))" for u
    by (simp_all add: s4_def s3_def s2_def s1_def upd_thread_def)
  ultimately show ?thesis using n tt fld(1,2) m'(4) by auto
qed




section \<open>Destroying threads\<close>

text \<open>The bookkeeping after the switch away from a thread that is to be deleted.\<close>

lemma bookkeeping_deletes:
  assumes l: "ring (links s) (runnable s # ts @ [r])" "ring (links s) [t]" and t: "t \<notin> set (runnable s # ts @ [r])"
    and T: "tids_ok s (set (r # t # ts))" and p: "pending_deletion s = r" and c: "context_switch_count s \<noteq> - 1"
  shows "\<exists>s'. post_context_switch_bookkeeping now s = Some s' \<and> ring (links s') (runnable s # ts) \<and> ring (links s') [t] \<and>
    runnable s' = runnable s \<and> running s' = running s \<and> threads s' = threads s \<and> pending_deletion s' = 0 \<and>
    tids_ok s' (set (t # ts)) \<and> hm_map (tid_map s') = (hm_map (tid_map s))(tid (threads s r) := None)"
proof -
  have r: "r \<noteq> 0" "r \<notin> set ts" using tids_ok_running(1)[OF T] l(1) by (auto simp: ring_def)
  define s2 where "s2 = s\<lparr>context_switch_cum_cycles := context_switch_cum_cycles s + (now - context_switch_start s),
                context_switch_count := context_switch_count s + 1\<rparr>"
  have T2: "tids_ok s2 (set (r # t # ts))" by (rule tids_ok_cong[OF T]) (simp_all add: s2_def)
  obtain m' fr where d: "delete_task r s2 = Some (s2\<lparr>links := snd (il_erase r (links s2)), tid_map := m', freed := fr\<rparr>)"
    "tids_ok (s2\<lparr>links := snd (il_erase r (links s2)), tid_map := m', freed := fr\<rparr>) (set (r # t # ts) - {r})"
    "hm_map m' = (hm_map (tid_map s2))(tid (threads s2 r) := None)"
    using delete_task_ok[OF T2, of r] by auto
  define s3 where "s3 = s2\<lparr>links := snd (il_erase r (links s2)), tid_map := m', freed := fr, pending_deletion := 0\<rparr>"
  have l3: "ring (links s3) (runnable s3 # ts)" "ring (links s3) [t]"
    using erase_keeps_alone(1,2)[OF l(1) _ l(2) t, of r] r(2) by (simp_all add: s3_def s2_def remove1_append)
  have cnt: "context_switch_count s3 \<noteq> 0" using c by (simp add: s3_def s2_def add_eq_0_iff2)
  obtain x where x: "print_stats s3 = Some (s3\<lparr>stats := x # stats s3\<rparr>)" using print_stats_ok[OF l3(1) cnt] by blast
  define s4 where "s4 = (if context_switch_count s3 mod 100 = 0 then s3\<lparr>stats := x # stats s3\<rparr> else s3)\<lparr>interrupts := True\<rparr>"
  have "post_context_switch_bookkeeping now s = Some s4"
    using d(1) x r(1) p unfolding post_context_switch_bookkeeping_def s4_def s3_def s2_def by (simp add: Let_def)
  moreover have "set (r # t # ts) - {r} = set (t # ts)" using t r(2) by auto
  then have "tids_ok s4 (set (t # ts))"
    using d(2) by (intro tids_ok_cong[OF d(2)[unfolded \<open>set (r # t # ts) - {r} = set (t # ts)\<close>]]) (simp_all add: s4_def s3_def)
  ultimately show ?thesis using l3 d(3)
    by (intro exI[of _ s4]) (simp add: s4_def s3_def s2_def)
qed

lemma destroy_current_ok:
  assumes ok: "sched_ok s (t # ts)" and P: "procs_ok dirs s {t}" and c: "context_switch_count s \<noteq> - 1"
  shows "\<exists>s'. destroy_thread dirs 0 sw esp start now s = Some s' \<and> running s' = t \<and> sched_ok s' ts \<and>
    hm_map (tid_map s') = (hm_map (tid_map s))(tid (threads s (running s)) := None)"
proof -
  let ?r = "running s"
  define s0 where "s0 = upd_thread ?r (\<lambda>t. t\<lparr>is_runnable := False\<rparr>) s\<lparr>pending_deletion := ?r\<rparr>"
  have f0: "links s0 = links s" "runnable s0 = runnable s" "running s0 = ?r" "tid_map s0 = tid_map s"
    "context_switch_count s0 = context_switch_count s" "pending_deletion s0 = ?r" "\<And>u. tid (threads s0 u) = tid (threads s u)"
    "\<And>u. u \<noteq> ?r \<Longrightarrow> is_runnable (threads s0 u) = is_runnable (threads s u)"
    "\<And>u. proc (threads s0 u) = proc (threads s u)"
    by (simp_all add: s0_def upd_thread_def)
  have r: "ring (links s) (runnable s # t # ts)" "ring (links s) [?r]" "?r \<notin> set (runnable s # t # ts)"
    and T: "tids_ok s (set (?r # t # ts))" using ok by (auto simp: sched_ok_def)
  have nz: "?r \<noteq> 0" "t \<noteq> 0" using tids_ok_running(1)[OF T] by auto
  have "procs_ok dirs s0 {t}" using P f0(9) by (simp add: procs_ok_def)
  then obtain s1 where s1: "schedule dirs sw esp start now s0 = post_context_switch_bookkeeping now s1" "switched sw esp start t s0 s1"
    using schedule_switch[of s0 t ts dirs sw esp start now] r nz f0 by auto
  have "links s1 = il_push_back (runnable s) ?r (snd (il_erase t (links s)))" using s1(2) f0 by (simp add: switched_def)
  from switch_links[OF r this] have l1: "ring (links s1) (runnable s1 # ts @ [?r])" "ring (links s1) [t]"
    using s1(2) f0 by (simp_all add: switched_def)
  have t: "t \<notin> set (runnable s1 # ts @ [?r])" using r s1(2) f0 by (auto simp: ring_def switched_def)
  have T1: "tids_ok s1 (set (?r # t # ts))"
    by (rule tids_ok_cong[OF T]) (use s1(2) f0 in \<open>simp_all add: switched_def\<close>)
  have "pending_deletion s1 = ?r" "context_switch_count s1 \<noteq> - 1" using s1(2) f0 c by (simp_all add: switched_def)
  from bookkeeping_deletes[OF l1 t T1 this, of now] obtain s4 where s4:
    "post_context_switch_bookkeeping now s1 = Some s4" "ring (links s4) (runnable s1 # ts)" "ring (links s4) [t]"
    "runnable s4 = runnable s1" "running s4 = running s1" "threads s4 = threads s1" "pending_deletion s4 = 0"
    "tids_ok s4 (set (t # ts))" "hm_map (tid_map s4) = (hm_map (tid_map s1))(tid (threads s1 ?r) := None)" by blast
  have D: "destroy_thread dirs 0 sw esp start now s = Some s4"
    using s1(1) s4(1) nz ok by (simp add: destroy_thread_def Let_def s0_def sched_ok_def upd_thread_def)
  have "\<forall>u \<in> set (t # ts). is_runnable (threads s4 u)"
  proof
    fix u assume u: "u \<in> set (t # ts)"
    then have "u \<noteq> ?r" "is_runnable (threads s u)" using r(3) ok by (auto simp: sched_ok_def)
    then show "is_runnable (threads s4 u)" using s1(2) f0(8)[of u] by (simp add: s4(6) switched_def)
  qed
  then have "sched_ok s4 ts" using s4 t s1(2) by (auto simp: sched_ok_def switched_def)
  moreover have "hm_map (tid_map s4) = (hm_map (tid_map s))(tid (threads s ?r) := None)" "running s4 = t"
    using s4(5,9) s1(2) f0 by (simp_all add: switched_def)
  ultimately show ?thesis using D by blast
qed

section \<open>Starting up\<close>

lemma Scheduler_bootstrap_ok:
  assumes "r \<noteq> b" "t \<noteq> 0" "t \<noteq> r" "t \<noteq> b"
  shows "\<exists>s0 c s. Scheduler r b thr ls j = Some s0 \<and> bootstrap t junk s0 = Some (c, s) \<and> sched_ok s [] \<and> running s = t \<and>
    runnable s = r \<and> context_switch_count s = 0 \<and> length (data (tid_map s)) = 2 \<and> proc (threads s t) = proc junk"
proof -
  obtain m :: "(ThreadID, ptr) node_hash_map" where m: "hm_new 0 = Some m" using new_returns[of 0] by auto
  then have mi: "hm_inv tid_hash m" "hm_map m = Map.empty" "data m = []"
    using new_wf[OF m] by (auto simp: hm_inv_def hm_map_def)
  obtain m1 where m1: "hm_emplace tid_hash InvalidTID 0 m = Some (NodeIt InvalidTID, True, m1)" "hm_inv tid_hash m1"
    "hm_map m1 = [InvalidTID \<mapsto> 0]"
    using emplace_spec[OF mi(1), of InvalidTID 0] mi(2,3) by auto
  obtain s0 where s0: "Scheduler r b thr ls j = Some s0" "tid_map s0 = m1" "running s0 = 0" "pending_deletion s0 = 0"
    "links s0 = init_node b (init_node r ls)" "runnable s0 = r" "context_switch_count s0 = 0"
    using m m1(1) by (auto simp: Scheduler_def)
  define s1 where "s1 = s0\<lparr>running := t, threads := (threads s0)(t := KernelThread 0 junk), links := init_node t (links s0)\<rparr>"
  have T: "tids_ok s1 {}" using m1(2,3) s0(2) by (simp add: tids_ok_def s1_def)
  have len: "length (data (tid_map s1)) = 1" using length_card[OF m1(2)] m1(3) s0(2) by (simp add: s1_def)
  obtain m' c where a: "assign_next_tid t s1 = Some (upd_thread t (\<lambda>x. x\<lparr>tid := c\<rparr>) (s1\<lparr>tid_map := m', tid_counter := c + 1\<rparr>))"
    "tids_ok (upd_thread t (\<lambda>x. x\<lparr>tid := c\<rparr>) (s1\<lparr>tid_map := m', tid_counter := c + 1\<rparr>)) {t}" "length (data m') = 2"
    using assign_next_tid_ok[OF T, of t] assms(2) len by auto
  define s where "s = upd_thread t (\<lambda>x. x\<lparr>tid := c\<rparr>) (s1\<lparr>tid_map := m', tid_counter := c + 1\<rparr>)"
  have "bootstrap t junk s0 = Some (tid (threads s t), s)"
    using s0(3) assms(2) a(1) by (simp add: bootstrap_def Let_def s1_def s_def)
  moreover have f: "running s = t" "runnable s = r" "links s = init_node t (init_node b (init_node r ls))"
    "pending_deletion s = 0" "is_runnable (threads s t)" "context_switch_count s = 0" "tid_map s = m'" "proc (threads s t) = proc junk"
    using s0 by (simp_all add: s_def s1_def upd_thread_def KernelThread_def)
  moreover have "ring (links s) [r]" "ring (links s) [t]"
    using assms by (simp_all add: f ring_singleton init_node_def)
  ultimately show ?thesis using s0(1) a(2,3) assms(3) s_def by (auto simp: sched_ok_def)
qed

definition demo_threads :: "ptr \<Rightarrow> kernel_thread" where
  "demo_threads _ = \<lparr>stack = 0, is_runnable = True, tid = 0, proc = 0\<rparr>"

text \<open>Thread 8 belongs to the process at \<open>0x5000\<close>; the boot thread 4 has none.\<close>

definition demo_dirs :: "ptr \<Rightarrow> ptr option" where
  "demo_dirs = [0x5000 \<mapsto> 0xC0010000]"

lemma demo_two_threads:
  "\<exists>s. sched_ok s [8] \<and> running s = 4 \<and> runnable s = 16 \<and> context_switch_count s = 0 \<and>
     length (data (tid_map s)) < 65535 \<and> procs_ok demo_dirs s {4, 8} \<and> proc (threads s 8) = 0x5000"
proof -
  obtain s where s: "sched_ok s []" "running s = 4" "runnable s = 16" "context_switch_count s = 0"
    "length (data (tid_map s)) = 2" "proc (threads s 4) = 0"
    using Scheduler_bootstrap_ok[of 16 32 4 demo_threads "\<lparr>nxt = id, prv = id\<rparr>" 0 "demo_threads 0"]
    by (auto simp: demo_threads_def)
  obtain c s' where s': "sched_ok s' [8]" "running s' = 4" "runnable s' = 16" "context_switch_count s' = 0"
    "length (data (tid_map s')) < 65535" "\<forall>u. proc (threads s' u) = (if u = 8 then 0x5000 else proc (threads s u))"
    using new_thread_ok[OF s(1), of 8 "0x1000" "0x5000" "demo_threads 0"] s by auto
  moreover have "procs_ok demo_dirs s' {4, 8}" using s'(6) s(6) by (simp add: procs_ok_def demo_dirs_def memdefs)
  ultimately show ?thesis by (intro exI[of _ s']) simp
qed

section \<open>Claims\<close>

text \<open>
  C7. Round robin without starvation: \<open>schedule\<close> never halts while the switch counter does not wrap, and
  after \<open>k\<close> calls the running thread is the one \<open>k\<close> places behind in the cyclic order; so each thread of
  the queue runs again within as many calls as there are threads.
\<close>

theorem round_robin:
  assumes "sched_ok s ts" "procs_ok dirs s (set (running s # ts))"
    "unat (context_switch_count s) + length xs < 2 ^ 32"
  shows "\<exists>s'. run_schedules dirs xs s = Some s' \<and>
    running s' = (running s # ts) ! (length xs mod Suc (length ts)) \<and>
    sched_ok s' (tl (rotate (length xs) (running s # ts)))"
  using run_schedules_rotate[OF assms] hd_rotate_conv_nth[of "running s # ts" "length xs"] by auto

theorem round_robin_witness:
  "\<exists>s s'. running s = 4 \<and>
     run_schedules demo_dirs [(0x2000, 0, 9), (0x3000, 10, 19), (0x2000, 20, 29)] s = Some s' \<and> running s' = 8"
proof -
  obtain s where s: "sched_ok s [8]" "running s = 4" "context_switch_count s = 0" "procs_ok demo_dirs s {4, 8}"
    using demo_two_threads by auto
  have "Suc (Suc (Suc 0)) mod Suc (Suc 0) = Suc 0" by (simp add: mod_Suc)
  with s show ?thesis
    using round_robin[OF s(1), of demo_dirs "[(0x2000, 0, 9), (0x3000, 10, 19), (0x2000, 20, 29)]"] by auto
qed



text \<open>
  C32. Destroying the running thread switches to the head of the queue, leaves every other thread in its
  place and frees its identifier; if no other thread is left the kernel halts.
\<close>

theorem destroy_running:
  assumes "sched_ok s ts" "procs_ok dirs s (set ts)" "context_switch_count s \<noteq> - 1"
  shows "case ts of
      [] \<Rightarrow> destroy_thread dirs 0 sw esp start now s = None
    | t # us \<Rightarrow> \<exists>s'. destroy_thread dirs 0 sw esp start now s = Some s' \<and> running s' = t \<and> sched_ok s' us \<and>
        hm_map (tid_map s') = (hm_map (tid_map s))(tid (threads s (running s)) := None)"
proof (cases ts)
  case Nil
  let ?s = "upd_thread (running s) (\<lambda>t. t\<lparr>is_runnable := False\<rparr>) s\<lparr>pending_deletion := running s, interrupts := False\<rparr>"
  have "choose_task ?s = Some (if is_runnable (threads ?s (running ?s)) then running ?s else 0)"
    if "running s \<noteq> 0" using choose_task_queue[of ?s "[]"] assms(1) Nil that by (simp add: sched_ok_def upd_thread_def)
  then have "destroy_thread dirs 0 sw esp start now s = None"
    by (auto simp: destroy_thread_def Let_def schedule_def upd_thread_def ASSERT_def)
  then show ?thesis using Nil by simp
next
  case (Cons t us)
  then have "procs_ok dirs s {t}" using assms(2) by (simp add: procs_ok_def)
  then show ?thesis using destroy_current_ok[of s t us] assms(1,3) Cons by simp
qed

theorem destroy_running_witness:
  "\<exists>s s'. running s = 4 \<and> destroy_thread demo_dirs 0 True 0x2000 0 1 s = Some s' \<and> running s' = 8"
proof -
  obtain s where s: "sched_ok s [8]" "running s = 4" "context_switch_count s = 0" "procs_ok demo_dirs s (set [8])"
    using demo_two_threads by (auto simp: procs_ok_def)
  then show ?thesis using destroy_running[OF s(1,4), of True "0x2000" 0 1] by auto
qed

text \<open>
  The 2^32nd context switch halts the kernel: the counter wraps to zero, zero is a multiple of one
  hundred, and the statistics divide by it.
\<close>

theorem stats_divide_by_zero:
  assumes "sched_ok s (t # ts)" "procs_ok dirs s {t}" "context_switch_count s = - 1"
  shows "schedule dirs sw esp start now s = None"
proof -
  have r: "ring (links s) (runnable s # t # ts)" "ring (links s) [running s]" "running s \<notin> set (runnable s # t # ts)"
    and T: "tids_ok s (set (running s # t # ts))" "pending_deletion s = 0" using assms(1) by (auto simp: sched_ok_def)
  have nz: "running s \<noteq> 0" "t \<noteq> 0" using tids_ok_running(1)[OF T(1)] by auto
  obtain s1 where s1: "schedule dirs sw esp start now s = post_context_switch_bookkeeping now s1" "switched sw esp start t s s1"
    using schedule_switch[OF r(1) nz(1) r(3) nz(2) assms(2)] by blast
  then show ?thesis using assms(3) T(2)
    by (auto simp: post_context_switch_bookkeeping_def Let_def print_stats_def switched_def ASSERT_def split: bind_splits)
qed

text \<open>
  A switch to a thread whose \<^verbatim>\<open>proc\<close> points to no process is undefined; the boot thread, whose \<^verbatim>\<open>proc\<close> is
  never written, keeps whatever its memory held.
\<close>

theorem schedule_bad_process:
  assumes "sched_ok s (t # ts)" "proc (threads s t) \<noteq> 0" "dirs (proc (threads s t)) = None"
  shows "schedule dirs sw esp start now s = None"
proof -
  have r: "ring (links s) (runnable s # t # ts)" and T: "tids_ok s (set (running s # t # ts))" "running s \<noteq> t"
    using assms(1) by (auto simp: sched_ok_def)
  have nz: "running s \<noteq> 0" "t \<noteq> 0" using tids_ok_running(1)[OF T(1)] by auto
  have "choose_task (s\<lparr>interrupts := False\<rparr>) = Some t"
    using choose_task_queue[of "s\<lparr>interrupts := False\<rparr>" "t # ts"] r nz by simp
  then show ?thesis using nz T(2) assms(2,3) by (simp add: schedule_def Let_def switch_address_space_def)
qed

end
