(* ===== verification/Libc.thy ===== *)
theory Libc
  imports HmmOS_Prelude
begin

text \<open>
  Memory blocks and C strings: \<^verbatim>\<open>src/src/common/libc_minimal.h\<close> and \<^verbatim>\<open>src/src/kernel/nonstd/libc.h\<close>.
  Memory is a map from addresses to bytes; a \<^verbatim>\<open>char\<close> is a signed byte. A loop that runs until a
  terminator is a partial function, \<open>None\<close> when it does not end.
\<close>

section \<open>Definitions\<close>

type_synonym memory = "ptr \<Rightarrow> u8"

subsection \<open>Memory blocks\<close>

primrec memcpy_loop :: "nat \<Rightarrow> ptr \<Rightarrow> ptr \<Rightarrow> u32 \<Rightarrow> memory \<Rightarrow> memory" where
  "memcpy_loop 0 dest src i m = m"
| "memcpy_loop (Suc k) dest src i m = memcpy_loop k dest src (i + 1) (m(dest + i := m (src + i)))"

definition memcpy :: "ptr \<Rightarrow> ptr \<Rightarrow> u32 \<Rightarrow> memory \<Rightarrow> memory" where
  "memcpy dest src n m = memcpy_loop (unat n) dest src 0 m"

primrec memset_loop :: "nat \<Rightarrow> ptr \<Rightarrow> u8 \<Rightarrow> u32 \<Rightarrow> memory \<Rightarrow> memory" where
  "memset_loop 0 s c i m = m"
| "memset_loop (Suc k) s c i m = memset_loop k s c (i + 1) (m(s + i := c))"

definition memset :: "ptr \<Rightarrow> u32 \<Rightarrow> u32 \<Rightarrow> memory \<Rightarrow> memory" where
  "memset s c n m = memset_loop (unat n) s (ucast c) 0 m"

primrec copy_down :: "nat \<Rightarrow> ptr \<Rightarrow> ptr \<Rightarrow> memory \<Rightarrow> memory" where
  "copy_down 0 dest src m = m"
| "copy_down (Suc i) dest src m = copy_down i dest src (m(dest + of_nat i := m (src + of_nat i)))"

definition memmove :: "ptr \<Rightarrow> ptr \<Rightarrow> u32 \<Rightarrow> memory \<Rightarrow> memory" where
  "memmove dest src n m =
     (if src > dest then memcpy_loop (unat n) dest src 0 m
      else if src < dest then copy_down (unat n) dest src m
      else m)"

primrec memcmp_loop :: "nat \<Rightarrow> ptr \<Rightarrow> ptr \<Rightarrow> u32 \<Rightarrow> memory \<Rightarrow> int" where
  "memcmp_loop 0 s1 s2 i m = 0"
| "memcmp_loop (Suc k) s1 s2 i m =
     (if m (s1 + i) \<noteq> m (s2 + i) then (if m (s1 + i) < m (s2 + i) then -1 else 1)
      else memcmp_loop k s1 s2 (i + 1) m)"

definition memcmp :: "ptr \<Rightarrow> ptr \<Rightarrow> u32 \<Rightarrow> memory \<Rightarrow> int" where
  "memcmp s1 s2 n m = memcmp_loop (unat n) s1 s2 0 m"

subsection \<open>Strings\<close>

partial_function (option) strlen_loop :: "memory \<Rightarrow> ptr \<Rightarrow> ptr option" where
  "strlen_loop m it = (if m it \<noteq> 0 then strlen_loop m (it + 1) else Some it)"

definition strlen :: "memory \<Rightarrow> ptr \<Rightarrow> u32 option" where
  "strlen m s = do { it \<leftarrow> strlen_loop m s; Some (it - s) }"

partial_function (option) strcmp :: "memory \<Rightarrow> ptr \<Rightarrow> ptr \<Rightarrow> int option" where
  "strcmp m s1 s2 =
     (if m s1 \<noteq> 0 \<and> m s2 \<noteq> 0 \<and> m s1 = m s2 then strcmp m (s1 + 1) (s2 + 1)
      else Some (sint (m s1) - sint (m s2)))"

text \<open>\<^verbatim>\<open>--n\<close> is the last operand of the conjunction: it happens only when the characters agree.\<close>

partial_function (option) strncmp_loop :: "memory \<Rightarrow> ptr \<Rightarrow> ptr \<Rightarrow> u32 \<Rightarrow> int option" where
  "strncmp_loop m s1 s2 n =
     (if m s1 \<noteq> 0 \<and> m s2 \<noteq> 0 \<and> m s1 = m s2 then
        if n - 1 \<noteq> 0 then strncmp_loop m (s1 + 1) (s2 + 1) (n - 1) else Some 0
      else Some (if n \<noteq> 0 then sint (m s1) - sint (m s2) else 0))"

definition strncmp :: "memory \<Rightarrow> ptr \<Rightarrow> ptr \<Rightarrow> u32 \<Rightarrow> int option" where
  "strncmp m s1 s2 n = (if n = 0 then Some 0 else strncmp_loop m s1 s2 n)"

partial_function (option) strcpy_loop :: "ptr \<Rightarrow> ptr \<Rightarrow> memory \<Rightarrow> memory option" where
  "strcpy_loop dst src m =
     (if m src \<noteq> 0 then strcpy_loop (dst + 1) (src + 1) (m(dst := m src)) else Some (m(dst := 0)))"

definition strcpy :: "ptr \<Rightarrow> ptr \<Rightarrow> memory \<Rightarrow> memory option" where
  "strcpy dst src m = strcpy_loop dst src m"

partial_function (option) strncpy_pad :: "ptr \<Rightarrow> u32 \<Rightarrow> memory \<Rightarrow> memory option" where
  "strncpy_pad dst n m =
     (let n = n - 1 in if n \<noteq> 0 then strncpy_pad (dst + 1) n (m(dst := 0)) else Some m)"

partial_function (option) strncpy_loop :: "ptr \<Rightarrow> ptr \<Rightarrow> u32 \<Rightarrow> memory \<Rightarrow> memory option" where
  "strncpy_loop dst src n m =
     (if m src \<noteq> 0 then
        let n = n - 1
        in if n \<noteq> 0 then strncpy_loop (dst + 1) (src + 1) n (m(dst := m src)) else Some m
      else if n \<noteq> 0 then strncpy_pad dst n m else Some m)"

definition strncpy :: "ptr \<Rightarrow> ptr \<Rightarrow> u32 \<Rightarrow> memory \<Rightarrow> memory option" where
  "strncpy dst src n m = strncpy_loop dst src n m"

definition isprint :: "int \<Rightarrow> bool" where "isprint c \<longleftrightarrow> c \<ge> 32"

section \<open>Copies\<close>

lemma memcpy_loop_Suc:
  "memcpy_loop (Suc k) dest src i m = (memcpy_loop k dest src i m)(dest + i + of_nat k := memcpy_loop k dest src i m (src + i + of_nat k))"
proof (induction k arbitrary: i m)
  case (Suc k)
  show ?case
    by (subst memcpy_loop.simps(2), subst Suc.IH) (simp add: algebra_simps)
qed simp

lemma memcpy_loop_forward:
  assumes "unat src + k \<le> 2 ^ 32" "unat dest < unat src"
  shows "memcpy_loop k dest src 0 m a =
           (if unat dest \<le> unat a \<and> unat a < unat dest + k then m (src + (a - dest)) else m a)"
  using assms
proof (induction k arbitrary: a)
  case (Suc k)
  have k: "unat (of_nat k :: u32) = k" using Suc.prems by (simp add: unat_of_nat_small)
  have d: "unat (dest + of_nat k) = unat dest + k" using Suc.prems k by (simp add: unat_add_no_wrap)
  have s: "unat (src + of_nat k) = unat src + k" using Suc.prems k by (simp add: unat_add_no_wrap)
  have "memcpy_loop k dest src 0 m (src + of_nat k) = m (src + of_nat k)"
    using Suc s by simp
  moreover have "a = dest + of_nat k \<longleftrightarrow> unat a = unat dest + k" using d by (simp add: word_unat_eq_iff)
  moreover have "a = dest + of_nat k \<Longrightarrow> a - dest = of_nat k" by simp
  ultimately show ?case using Suc by (simp only: memcpy_loop_Suc) auto
qed auto

lemma copy_down_backward:
  assumes "unat dest + k \<le> 2 ^ 32" "unat src < unat dest"
  shows "copy_down k dest src m a =
           (if unat dest \<le> unat a \<and> unat a < unat dest + k then m (src + (a - dest)) else m a)"
  using assms
proof (induction k arbitrary: m)
  case (Suc k)
  have k: "unat (of_nat k :: u32) = k" using Suc.prems by (simp add: unat_of_nat_small)
  have d: "unat (dest + of_nat k) = unat dest + k" using Suc.prems k by (simp add: unat_add_no_wrap)
  have e: "a = dest + of_nat k \<longleftrightarrow> unat a = unat dest + k" using d by (simp add: word_unat_eq_iff)
  have "src + (a - dest) \<noteq> dest + of_nat k" if "unat dest \<le> unat a" "unat a < unat dest + k"
  proof -
    have "unat (a - dest) = unat a - unat dest" using that by (simp add: unat_sub_no_wrap word_le_nat_alt)
    then have "unat (src + (a - dest)) = unat src + (unat a - unat dest)"
      using that Suc.prems unat_lt_u32[of a] by (subst unat_add_no_wrap) simp_all
    then show ?thesis using d that Suc.prems by (auto simp: word_unat_eq_iff)
  qed
  moreover have "a = dest + of_nat k \<Longrightarrow> a - dest = of_nat k" by simp
  ultimately show ?case using Suc e by auto
qed auto

lemma memset_loop_spec:
  assumes "unat s + unat i + k \<le> 2 ^ 32"
  shows "memset_loop k s c i m a = (if unat s + unat i \<le> unat a \<and> unat a < unat s + unat i + k then c else m a)"
  using assms
proof (induction k arbitrary: i m)
  case (Suc k)
  have i: "unat (s + i) = unat s + unat i" using Suc.prems by (simp add: unat_add_no_wrap)
  show ?case
  proof (cases k)
    case 0
    then show ?thesis using i by (auto simp: word_unat_eq_iff)
  next
    case (Suc k')
    then have "unat (i + 1) = Suc (unat i)" using Suc.prems by (subst unat_add_no_wrap) simp_all
    then show ?thesis using Suc.IH[of "i + 1"] Suc.prems i by (auto simp: word_unat_eq_iff)
  qed
qed auto

text \<open>
  C34. \<^verbatim>\<open>memmove\<close> is a simultaneous copy: for blocks that do not pass the end of the address space, however
  they overlap, every byte of the destination receives the byte the source had before the call, and no
  other byte changes.
\<close>

theorem memmove_simultaneous:
  assumes "unat dest + unat n \<le> 2 ^ 32" "unat src + unat n \<le> 2 ^ 32"
  shows "memmove dest src n m =
           (\<lambda>a. if unat dest \<le> unat a \<and> unat a < unat dest + unat n then m (src + (a - dest)) else m a)"
proof (rule ext)
  fix a
  consider "dest < src" | "src < dest" | "src = dest" by fastforce
  then show "memmove dest src n m a =
      (if unat dest \<le> unat a \<and> unat a < unat dest + unat n then m (src + (a - dest)) else m a)"
  proof cases
    case 1
    then show ?thesis using assms memcpy_loop_forward[of src "unat n" dest m a]
      by (simp add: memmove_def word_less_nat_alt)
  next
    case 2
    then show ?thesis using assms copy_down_backward[of dest "unat n" src m a]
      by (simp add: memmove_def word_less_nat_alt)
  qed (simp add: memmove_def)
qed

theorem memmove_simultaneous_witness:
  "memmove 11 10 4 (\<lambda>a. ucast a) 14 = 13 \<and> memmove 11 10 4 (\<lambda>a. ucast a) 15 = 15"
  by (simp add: memmove_simultaneous)

section \<open>Strings\<close>

lemma offset_step:
  fixes a dst n :: u32
  assumes "unat n = Suc k" "0 < k" "k \<le> unat (a - dst)"
  shows "unat (n - 1) = k" "k - 1 \<le> unat (a - (dst + 1))" "a \<noteq> dst"
proof -
  show "unat (n - 1) = k" using assms by (simp add: unat_sub_no_wrap word_le_nat_alt)
  show ne: "a \<noteq> dst" using assms by auto
  have "unat (a - dst - 1) = unat (a - dst) - 1"
    using assms unat_sub_no_wrap[of 1 "a - dst"] by (simp add: word_le_nat_alt)
  then show "k - 1 \<le> unat (a - (dst + 1))" using assms by (simp add: algebra_simps)
qed

lemma strncpy_pad_spec:
  assumes "unat n = Suc k"
  shows "\<exists>m'. strncpy_pad dst n m = Some m' \<and> (\<forall>a. k \<le> unat (a - dst) \<longrightarrow> m' a = m a)"
  using assms
proof (induction k arbitrary: n dst m)
  case 0
  then have "n = 1" by (simp add: word_unat_eq_iff)
  then show ?case by (subst strncpy_pad.simps) simp
next
  case (Suc k)
  then have n: "unat (n - 1) = Suc k" by (simp add: unat_sub_no_wrap word_le_nat_alt)
  obtain m' where m': "strncpy_pad (dst + 1) (n - 1) (m(dst := 0)) = Some m'"
      "\<forall>a. k \<le> unat (a - (dst + 1)) \<longrightarrow> m' a = (m(dst := 0)) a"
    using Suc.IH[OF n] by blast
  have "n - 1 \<noteq> 0" using n by auto
  moreover have "m' a = m a" if "Suc k \<le> unat (a - dst)" for a
    using m'(2) offset_step[OF Suc.prems, of a dst] that by simp
  ultimately show ?case using m'(1) by (subst strncpy_pad.simps) simp
qed

lemma strncpy_loop_spec:
  assumes "unat n = Suc k"
  shows "\<exists>m'. strncpy_loop dst src n m = Some m' \<and> (\<forall>a. k \<le> unat (a - dst) \<longrightarrow> m' a = m a)"
  using assms
proof (induction k arbitrary: n dst src m)
  case 0
  then have "n = 1" by (simp add: word_unat_eq_iff)
  then show ?case using strncpy_pad_spec[OF 0, of dst m] by (subst strncpy_loop.simps) simp
next
  case (Suc k)
  then have n: "unat (n - 1) = Suc k" by (simp add: unat_sub_no_wrap word_le_nat_alt)
  then have n0: "n - 1 \<noteq> 0" "n \<noteq> 0" using Suc.prems by auto
  show ?case
  proof (cases "m src = 0")
    case True
    then show ?thesis using strncpy_pad_spec[OF Suc.prems, of dst m] n0 by (subst strncpy_loop.simps) simp
  next
    case False
    obtain m' where m': "strncpy_loop (dst + 1) (src + 1) (n - 1) (m(dst := m src)) = Some m'"
        "\<forall>a. k \<le> unat (a - (dst + 1)) \<longrightarrow> m' a = (m(dst := m src)) a"
      using Suc.IH[OF n] by blast
    moreover have "m' a = m a" if "Suc k \<le> unat (a - dst)" for a
      using m'(2) offset_step[OF Suc.prems, of a dst] that by simp
    ultimately show ?thesis using False n0 by (subst strncpy_loop.simps) simp
  qed
qed

text \<open>
  \<^verbatim>\<open>strncpy\<close> with a positive count always returns, and it writes only the first \<open>n - 1\<close> bytes of the
  destination: the last byte of the field keeps its old value, neither a character of the source nor the
  padding that the C function promises.
\<close>

theorem strncpy_stops_short:
  assumes "n \<noteq> 0"
  shows "\<exists>m'. strncpy dst src n m = Some m' \<and> (\<forall>a. unat n - 1 \<le> unat (a - dst) \<longrightarrow> m' a = m a)"
proof -
  obtain k where "unat n = Suc k" using assms by (metis unat_eq_zero not0_implies_Suc)
  then show ?thesis using strncpy_loop_spec[of n k dst src m] by (simp add: strncpy_def)
qed

theorem strncpy_stops_short_witness:
  "\<exists>m'. strncpy 100 200 3 ((\<lambda>a. 7)(200 := 65, 201 := 66, 202 := 67)) = Some m' \<and> m' 102 = 7"
proof -
  have "(102 :: u32) - 100 = 2" by simp
  then have "unat (3 :: u32) - 1 \<le> unat ((102 :: u32) - 100)" by simp
  then show ?thesis using strncpy_stops_short[of 3 100 200 "(\<lambda>a. 7)(200 := 65, 201 := 66, 202 := 67)"] by auto
qed

end
