(* ===== verification/Printf.thy ===== *)
theory Printf
  imports HmmOS_Prelude
begin

text \<open>
  Formatted output: \<^verbatim>\<open>src/src/kernel/nonstd/libc.cc\<close>. A format string is the list of its bytes without
  the terminator and the variable arguments are a list; \<open>None\<close> stands for an argument that does not have
  the type the format asks for. The writers of the source are functions from a character to the buffer,
  a list, or to the list of the characters sent to the terminal.
\<close>

section \<open>Definitions\<close>

datatype format_spec_type =
  FS_SIGNED | FS_UNSIGNED | FS_HEX | FS_BINARY | FS_OCTAL | FS_STR | FS_CHAR | FS_PCT | FS_INVAL

datatype format_spec_length = FS_NORMAL | FS_LONG | FS_LONG_LONG | FS_SHORT | FS_SHORT_SHORT

record format_spec =
  fs_length :: format_spec_length
  fs_type :: format_spec_type

text \<open>The position in the enumeration, and the increment of it.\<close>

fun length_rank :: "format_spec_length \<Rightarrow> nat" where
  "length_rank FS_NORMAL = 0"
| "length_rank FS_LONG = 1"
| "length_rank FS_LONG_LONG = 2"
| "length_rank FS_SHORT = 3"
| "length_rank FS_SHORT_SHORT = 4"

fun next_length :: "format_spec_length \<Rightarrow> format_spec_length" where
  "next_length FS_NORMAL = FS_LONG"
| "next_length FS_LONG = FS_LONG_LONG"
| "next_length FS_LONG_LONG = FS_SHORT"
| "next_length _ = FS_SHORT_SHORT"

abbreviation ch :: "char \<Rightarrow> u8" where "ch c \<equiv> of_char c"

fun length_loop :: "u8 \<Rightarrow> format_spec_length \<Rightarrow> format_spec_length \<Rightarrow> u8 list \<Rightarrow> format_spec_length \<times> u8 list" where
  "length_loop c limit l [] = (l, [])"
| "length_loop c limit l (x # xs) =
     (if length_rank l < length_rank limit \<and> x = c then length_loop c limit (next_length l) xs else (l, x # xs))"

definition type_of_char :: "u8 \<Rightarrow> format_spec_type" where
  "type_of_char c =
     (if c = ch CHR ''%'' then FS_PCT
      else if c = ch CHR ''c'' then FS_CHAR
      else if c = ch CHR ''d'' then FS_SIGNED
      else if c = ch CHR ''u'' then FS_UNSIGNED
      else if c = ch CHR ''x'' then FS_HEX
      else if c = ch CHR ''o'' then FS_OCTAL
      else if c = ch CHR ''b'' then FS_BINARY
      else if c = ch CHR ''s'' then FS_STR
      else FS_INVAL)"

fun parse_format_spec :: "u8 list \<Rightarrow> nat \<times> format_spec" where
  "parse_format_spec (p # it # s) =
     (if p \<noteq> ch CHR ''%'' then (1, \<lparr>fs_length = FS_NORMAL, fs_type = FS_INVAL\<rparr>)
      else let (len, rest) =
                 (if it = ch CHR ''l'' then length_loop (ch CHR ''l'') FS_LONG_LONG FS_NORMAL (it # s)
                  else if it = ch CHR ''h'' then length_loop (ch CHR ''h'') FS_SHORT_SHORT FS_SHORT (it # s)
                  else (FS_NORMAL, it # s));
               t = (case rest of [] \<Rightarrow> FS_INVAL | c # _ \<Rightarrow> type_of_char c)
           in if t = FS_INVAL then (1, \<lparr>fs_length = len, fs_type = FS_INVAL\<rparr>)
              else (length (p # it # s) - length rest + 1, \<lparr>fs_length = len, fs_type = t\<rparr>))"
| "parse_format_spec s = (1, \<lparr>fs_length = FS_NORMAL, fs_type = FS_INVAL\<rparr>)"

text \<open>The digits, least significant first, and the reversal in place.\<close>

definition digit_char :: "u64 \<Rightarrow> u8" where
  "digit_char d = (let digit = ucast d in digit + (if digit \<ge> 10 then ch CHR ''a'' - 10 else ch CHR ''0''))"

function utoa_digits :: "u64 \<Rightarrow> u64 \<Rightarrow> u8 list" where
  "utoa_digits radix val =
     (if val = 0 \<or> radix < 2 then [] else digit_char (val mod radix) # utoa_digits radix (val div radix))"
  by auto
termination
proof (relation "measure (\<lambda>(r, v). unat v)")
  fix radix val :: u64
  assume "\<not> (val = 0 \<or> radix < 2)"
  then have "0 < unat val" "1 < unat radix" by (auto simp: word_less_nat_alt unat_gt_0)
  then show "((radix, val div radix), (radix, val)) \<in> measure (\<lambda>(r, v). unat v)"
    by (simp add: unat_div_distrib)
qed simp

declare utoa_digits.simps [simp del]

primrec rev_loop :: "nat \<Rightarrow> u8 list \<Rightarrow> u8 list" where
  "rev_loop 0 b = b"
| "rev_loop (Suc j) b = rev_loop j (swap_nth j (length b - 1 - j) b)"

definition utoa :: "u64 \<Rightarrow> u64 \<Rightarrow> u8 list option" where
  "utoa val radix =
     (if val = 0 then Some [ch CHR ''0'']
      else if radix \<in> {2, 8, 10, 16} then
        let b = utoa_digits radix val in Some (rev_loop (length b div 2) b)
      else None)"

definition itoa :: "u64 \<Rightarrow> u8 list option" where
  "itoa val =
     (if sint val < 0 then do { ds \<leftarrow> utoa (- val) 10; Some (ch CHR ''-'' # ds) } else utoa val 10)"

text \<open>Writers: the buffer writer of \<^verbatim>\<open>snprintf\<close>, and the terminal writer as the list of characters sent.\<close>

definition buf_writer :: "u8 \<Rightarrow> u8 list \<Rightarrow> u32 \<Rightarrow> u32 \<Rightarrow> bool \<Rightarrow> u8 list" where
  "buf_writer c buf i buf_sz null_term = (if i \<ge> buf_sz then buf else buf[unat i := c])"

definition term_writer :: "u8 \<Rightarrow> u8 list \<Rightarrow> u32 \<Rightarrow> u32 \<Rightarrow> bool \<Rightarrow> u8 list" where
  "term_writer c sent i buf_sz null_term = (if null_term then sent else sent @ [c])"

datatype varg = VInt u32 | VLong u64 | VStr "u8 list"

fun va_uint :: "format_spec_length \<Rightarrow> varg list \<Rightarrow> (u64 \<times> varg list) option" where
  "va_uint l (VInt x # va) = (if l \<in> {FS_NORMAL, FS_SHORT, FS_SHORT_SHORT} then Some (ucast x, va) else None)"
| "va_uint l (VLong x # va) = (if l \<in> {FS_LONG, FS_LONG_LONG} then Some (x, va) else None)"
| "va_uint l _ = None"

fun va_sint :: "format_spec_length \<Rightarrow> varg list \<Rightarrow> (u64 \<times> varg list) option" where
  "va_sint l (VInt x # va) = (if l \<in> {FS_NORMAL, FS_SHORT, FS_SHORT_SHORT} then Some (scast x, va) else None)"
| "va_sint l (VLong x # va) = (if l \<in> {FS_LONG, FS_LONG_LONG} then Some (x, va) else None)"
| "va_sint l _ = None"

definition spec_radix :: "format_spec_type \<Rightarrow> u64" where
  "spec_radix t = (case t of FS_BINARY \<Rightarrow> 2 | FS_OCTAL \<Rightarrow> 8 | FS_UNSIGNED \<Rightarrow> 10 | _ \<Rightarrow> 16)"

text \<open>The characters of one conversion and the remaining arguments.\<close>

definition convert :: "format_spec \<Rightarrow> varg list \<Rightarrow> (u8 list \<times> varg list) option" where
  "convert fs va =
     (case fs_type fs of
        FS_PCT \<Rightarrow> Some ([ch CHR ''%''], va)
      | FS_CHAR \<Rightarrow> (case va of VInt c # va' \<Rightarrow> Some ([ucast c], va') | _ \<Rightarrow> None)
      | FS_SIGNED \<Rightarrow> do { (d, va') \<leftarrow> va_sint (fs_length fs) va; ds \<leftarrow> itoa d; Some (ds, va') }
      | FS_STR \<Rightarrow> (case va of VStr s # va' \<Rightarrow> Some (s, va') | _ \<Rightarrow> None)
      | FS_INVAL \<Rightarrow> Some ([], va)
      | t \<Rightarrow> do { (u, va') \<leftarrow> va_uint (fs_length fs) va; ds \<leftarrow> utoa u (spec_radix t); Some (ds, va') })"

type_synonym 'b writer = "u8 \<Rightarrow> 'b \<Rightarrow> u32 \<Rightarrow> u32 \<Rightarrow> bool \<Rightarrow> 'b"

fun emit :: "'b writer \<Rightarrow> u32 \<Rightarrow> u8 list \<Rightarrow> u32 \<Rightarrow> 'b \<Rightarrow> u32 \<times> 'b" where
  "emit write n [] j b = (j, b)"
| "emit write n (c # cs) j b = emit write n cs (j + 1) (write c b j n False)"

fun format_loop :: "'b writer \<Rightarrow> u32 \<Rightarrow> u8 list \<Rightarrow> varg list \<Rightarrow> u32 \<Rightarrow> 'b \<Rightarrow> (u32 \<times> 'b) option" where
  "format_loop write n [] va j b = Some (j, b)"
| "format_loop write n (c # fmt) va j b =
     (if c = ch CHR ''%'' then
        let (k, fs) = parse_format_spec (c # fmt)
        in do {
          (cs, va') \<leftarrow> convert fs va;
          let (j', b') = emit write n cs j b;
          format_loop write n (drop (k - 1) fmt) va' j' b'
        }
      else format_loop write n fmt va (j + 1) (write c b j n False))"

definition vsnprintf_impl :: "'b writer \<Rightarrow> 'b \<Rightarrow> u32 \<Rightarrow> u8 list \<Rightarrow> varg list \<Rightarrow> (u32 \<times> 'b) option" where
  "vsnprintf_impl write buf n fmt va = do {
     (j, b) \<leftarrow> format_loop write n fmt va 0 buf;
     Some (j, write 0 b (if j < n then j else n - 1) n True)
   }"

definition vsnprintf :: "u8 list \<Rightarrow> u32 \<Rightarrow> u8 list \<Rightarrow> varg list \<Rightarrow> (u32 \<times> u8 list) option" where
  "vsnprintf s n fmt va = vsnprintf_impl buf_writer s n fmt va"

definition snprintf :: "u8 list \<Rightarrow> u32 \<Rightarrow> u8 list \<Rightarrow> varg list \<Rightarrow> (u32 \<times> u8 list) option" where
  "snprintf s n fmt va = vsnprintf s n fmt va"

definition vsprintf :: "u8 list \<Rightarrow> u8 list \<Rightarrow> varg list \<Rightarrow> (u32 \<times> u8 list) option" where
  "vsprintf s fmt va = vsnprintf s (- 1) fmt va"

definition vprintf :: "u8 list \<Rightarrow> varg list \<Rightarrow> (u32 \<times> u8 list) option" where
  "vprintf fmt va = vsnprintf_impl term_writer [] (- 1) fmt va"

definition sprintf :: "u8 list \<Rightarrow> u8 list \<Rightarrow> varg list \<Rightarrow> (u32 \<times> u8 list) option" where
  "sprintf s fmt va = vsprintf s fmt va"

definition printf :: "u8 list \<Rightarrow> varg list \<Rightarrow> (u32 \<times> u8 list) option" where
  "printf fmt va = vprintf fmt va"

text \<open>\<^verbatim>\<open>long\<close> has 32 bits and the division truncates; \<open>None\<close> is the division exception.\<close>

definition ldiv :: "32 word \<Rightarrow> 32 word \<Rightarrow> (32 word \<times> 32 word) option" where
  "ldiv numer denom =
     (if denom = 0 \<or> sint numer = - (2 ^ 31) \<and> denom = - 1 then None
      else let quot = (if (sint numer < 0) = (sint denom < 0) then word_of_int (\<bar>sint numer\<bar> div \<bar>sint denom\<bar>)
                       else word_of_int (- (\<bar>sint numer\<bar> div \<bar>sint denom\<bar>)));
               rem = numer - denom * quot
           in Some (if sint quot < 0 \<and> 0 < sint rem then (quot + 1, rem - denom) else (quot, rem)))"

section \<open>Numbers\<close>

lemma nth_rev_loop:
  assumes "2 * n \<le> length b" "i < length b"
  shows "rev_loop n b ! i = (if i < n \<or> length b - n \<le> i then b ! (length b - 1 - i) else b ! i)"
  using assms
proof (induction n arbitrary: b)
  case (Suc n)
  let ?b = "swap_nth n (length b - 1 - n) b"
  have "rev_loop n ?b ! i = (if i < n \<or> length ?b - n \<le> i then ?b ! (length ?b - 1 - i) else ?b ! i)"
    by (rule Suc.IH) (use Suc.prems in simp_all)
  then show ?case using Suc.prems by (auto simp: nth_swap_nth)
qed simp

lemma length_rev_loop [simp]: "length (rev_loop n b) = length b"
  by (induction n arbitrary: b) simp_all

lemma rev_loop_rev: "rev_loop (length b div 2) b = rev b"
proof (rule nth_equalityI)
  fix i assume i: "i < length (rev_loop (length b div 2) b)"
  have "rev_loop (length b div 2) b ! i =
      (if i < length b div 2 \<or> length b - length b div 2 \<le> i then b ! (length b - 1 - i) else b ! i)"
    by (rule nth_rev_loop) (use i in simp_all)
  also have "\<dots> = b ! (length b - 1 - i)"
  proof (cases "i < length b div 2 \<or> length b - length b div 2 \<le> i")
    case False
    then have "length b - 1 - i = i" using i by simp arith
    then show ?thesis by simp
  qed simp
  finally show "rev_loop (length b div 2) b ! i = rev b ! i" using i by (simp add: rev_nth)
qed simp

definition digit_val :: "u8 \<Rightarrow> nat" where
  "digit_val c = (if c \<ge> ch CHR ''a'' then unat c - 87 else unat c - 48)"

definition number_of_digits :: "nat \<Rightarrow> u8 list \<Rightarrow> nat" where
  "number_of_digits radix ds = foldl (\<lambda>a c. a * radix + digit_val c) 0 ds"

definition is_digit :: "nat \<Rightarrow> u8 \<Rightarrow> bool" where
  "is_digit radix c \<longleftrightarrow> (48 \<le> c \<and> c \<le> 57 \<or> 97 \<le> c \<and> c \<le> 102) \<and> digit_val c < radix"

lemma digit_char_table:
  "list_all (\<lambda>x. digit_val (digit_char (of_nat x)) = x \<and> (digit_char (of_nat x) = ch CHR ''0'' \<longleftrightarrow> x = 0)) [0..<16]"
  by code_simp

lemma digit_char_val:
  assumes "unat d < 16"
  shows "digit_val (digit_char d) = unat d" "digit_char d = ch CHR ''0'' \<longleftrightarrow> d = 0"
proof -
  have "unat d \<in> set [0..<16]" using assms by simp
  then have "digit_val (digit_char (of_nat (unat d))) = unat d \<and>
      (digit_char (of_nat (unat d)) = ch CHR ''0'' \<longleftrightarrow> unat d = 0)"
    using digit_char_table unfolding list_all_iff by blast
  then show "digit_val (digit_char d) = unat d" "digit_char d = ch CHR ''0'' \<longleftrightarrow> d = 0"
    by (simp_all add: unat_eq_zero)
qed

lemma number_of_digits_Cons_rev:
  "number_of_digits r (rev (c # cs)) = number_of_digits r (rev cs) * r + digit_val c"
  by (simp add: number_of_digits_def)

lemma digit_of_mod:
  fixes v r :: u64
  assumes "2 \<le> r" "r \<le> 16"
  shows "digit_val (digit_char (v mod r)) = unat v mod unat r"
    "digit_char (v mod r) = ch CHR ''0'' \<longleftrightarrow> unat v mod unat r = 0"
proof -
  have r: "2 \<le> unat r" "unat r \<le> 16" using assms by (simp_all add: word_le_nat_alt)
  then have "unat v mod unat r < unat r" by simp
  then have "unat (v mod r) < 16" using r by (simp only: unat_mod_distrib)
  then show "digit_val (digit_char (v mod r)) = unat v mod unat r"
    "digit_char (v mod r) = ch CHR ''0'' \<longleftrightarrow> unat v mod unat r = 0"
    using digit_char_val[of "v mod r"] unat_eq_zero[of "v mod r"] by (simp_all add: unat_mod_distrib)
qed

lemma utoa_digits_value:
  assumes "2 \<le> r" "r \<le> 16"
  shows "number_of_digits (unat r) (rev (utoa_digits r v)) = unat v"
  using assms
proof (induction r v rule: utoa_digits.induct)
  case (1 radix val)
  show ?case
  proof (cases "val = 0")
    case True
    then show ?thesis by (simp add: utoa_digits.simps number_of_digits_def)
  next
    case False
    have lt: "\<not> radix < 2" using 1 by (simp add: not_less)
    have "number_of_digits (unat radix) (rev (utoa_digits radix val)) =
        unat (val div radix) * unat radix + unat val mod unat radix"
      using 1 False lt
      by (subst utoa_digits.simps) (simp only: number_of_digits_Cons_rev digit_of_mod if_False simp_thms)
    also have "\<dots> = unat val" by (simp add: unat_div_distrib)
    finally show ?thesis .
  qed
qed

lemma utoa_digits_length:
  assumes "2 \<le> r"
  shows "unat v < unat r ^ k \<Longrightarrow> length (utoa_digits r v) \<le> k"
proof (induction k arbitrary: v)
  case 0
  then show ?case by (simp add: utoa_digits.simps unat_eq_zero)
next
  case (Suc k)
  have "0 < unat r" using assms by (simp add: word_le_nat_alt)
  then have "unat v div unat r < unat r ^ k" using Suc.prems by (simp add: less_mult_imp_div_less mult.commute)
  then have "length (utoa_digits r (v div r)) \<le> k" by (intro Suc.IH) (simp add: unat_div_distrib)
  then show ?case by (subst utoa_digits.simps) simp
qed

lemma is_digit_table: "list_all (\<lambda>x. is_digit (Suc x) (digit_char (of_nat x))) [0..<16]"
  by code_simp

lemma utoa_digits_are_digits:
  assumes "2 \<le> r" "r \<le> 16"
  shows "\<forall>c\<in>set (utoa_digits r v). is_digit (unat r) c"
  using assms
proof (induction r v rule: utoa_digits.induct)
  case (1 radix val)
  have r: "2 \<le> unat radix" "unat radix \<le> 16" using 1 by (simp_all add: word_le_nat_alt)
  then have lt: "unat (val mod radix) < unat radix" by (simp add: unat_mod_distrib)
  then have "unat (val mod radix) \<in> set [0..<16]" using r by simp
  then have "is_digit (Suc (unat (val mod radix))) (digit_char (of_nat (unat (val mod radix))))"
    using is_digit_table unfolding list_all_iff by blast
  then have "is_digit (unat radix) (digit_char (val mod radix))" using lt by (simp add: is_digit_def)
  then show ?case using 1 by (subst utoa_digits.simps) simp
qed

lemma utoa_digits_last:
  assumes "2 \<le> r" "r \<le> 16" "v \<noteq> 0"
  shows "utoa_digits r v \<noteq> [] \<and> last (utoa_digits r v) \<noteq> ch CHR ''0''"
  using assms
proof (induction r v rule: utoa_digits.induct)
  case (1 radix val)
  have lt: "\<not> radix < 2" using 1 by (simp add: not_less)
  have e: "utoa_digits radix val = digit_char (val mod radix) # utoa_digits radix (val div radix)"
    using 1 lt by (subst utoa_digits.simps) simp
  show ?case
  proof (cases "val div radix = 0")
    case True
    then have "unat val div unat radix = 0" by (metis unat_div_distrib unat_0)
    then have "unat val mod unat radix = unat val" by (metis mult_div_mod_eq mult_0_right add_0)
    then have "digit_char (val mod radix) \<noteq> ch CHR ''0''" using digit_of_mod(2)[of radix val] 1 by (simp add: unat_eq_zero)
    then show ?thesis using e True by (simp add: utoa_digits.simps[of radix 0])
  next
    case False
    then show ?thesis using e 1 lt by simp
  qed
qed

lemma number_of_zero:
  "number_of_digits r [ch CHR ''0''] = 0" "0 < r \<Longrightarrow> is_digit r (ch CHR ''0'')"
  by (simp_all add: number_of_digits_def digit_val_def of_char_def is_digit_def)

lemma utoa_spec:
  assumes r: "radix \<in> {2, 8, 10, 16}"
  shows "\<exists>ds. utoa val radix = Some ds \<and> number_of_digits (unat radix) ds = unat val \<and>
           (\<forall>c\<in>set ds. is_digit (unat radix) c) \<and> 0 < length ds \<and> length ds \<le> 64 \<and>
           (radix = 10 \<longrightarrow> length ds \<le> 20) \<and> (hd ds = ch CHR ''0'' \<longleftrightarrow> val = 0)"
proof (cases "val = 0")
  case True
  then show ?thesis using number_of_zero[of "unat radix"] r by (auto simp: utoa_def)
next
  case False
  have r16: "2 \<le> radix" "radix \<le> 16" using r by auto
  have "(2::nat) ^ 64 \<le> unat radix ^ 64" using r by (intro power_mono) auto
  then have "length (utoa_digits radix val) \<le> 64"
    by (intro utoa_digits_length[OF r16(1)]) (use unat_lt_u64[of val] in simp)
  moreover have "radix = 10 \<Longrightarrow> length (utoa_digits radix val) \<le> 20"
    by (intro utoa_digits_length[OF r16(1)]) (use unat_lt_u64[of val] in simp)
  ultimately show ?thesis
    using False r utoa_digits_value[OF r16, of val] utoa_digits_last[OF r16 False] utoa_digits_are_digits[OF r16, of val]
    by (simp add: utoa_def rev_loop_rev hd_rev)
qed

lemma sint_cases:
  fixes w :: u64
  shows "sint w = uint w \<or> sint w = uint w - 2 ^ 64"
proof -
  have "take_bit 64 (uint w) = uint w" using uint_lt2p[of w] by (simp add: take_bit_int_eq_self)
  then have "sint w = uint w - 2 ^ 64 * of_bool (bit (uint w) 63)"
    by (simp add: sint_uint signed_take_bit_eq_take_bit_minus)
  then show ?thesis by simp
qed

lemma sint_negative:
  fixes w :: u64
  assumes "sint w < 0"
  shows "unat (- w) = nat \<bar>sint w\<bar>"
proof -
  have s: "sint w = uint w - 2 ^ 64" using assms sint_cases[of w] uint_ge_0[of w] by linarith
  have "w \<noteq> 0" using assms by auto
  then have "0 < uint w" using uint_0_iff[of w] uint_ge_0[of w] by linarith
  moreover have "uint w < 2 ^ 64" using uint_lt2p[of w] by simp
  ultimately have "uint (- w) = 2 ^ 64 - uint w" by (simp add: uint_word_ariths zmod_zminus1_eq_if)
  then show ?thesis using s \<open>uint w < 2 ^ 64\<close> by (simp add: unat_eq_nat_uint)
qed

lemma sint_nonnegative:
  fixes w :: u64
  assumes "\<not> sint w < 0"
  shows "unat w = nat \<bar>sint w\<bar>"
proof -
  have "uint w < 2 ^ 64" using uint_lt2p[of w] by simp
  then have e: "sint w = uint w" using assms sint_cases[of w] by linarith
  show ?thesis unfolding e by (simp only: unat_eq_nat_uint abs_of_nonneg uint_ge_0)
qed

lemma itoa_spec:
  "\<exists>ds. itoa val = Some (if sint val < 0 then ch CHR ''-'' # ds else ds) \<and>
     number_of_digits 10 ds = nat \<bar>sint val\<bar> \<and> (\<forall>c\<in>set ds. is_digit 10 c) \<and> length ds \<le> 20"
proof -
  obtain ds where "utoa (if sint val < 0 then - val else val) 10 = Some ds"
      "number_of_digits 10 ds = unat (if sint val < 0 then - val else val)"
      "\<forall>c\<in>set ds. is_digit 10 c" "length ds \<le> 20"
    using utoa_spec[of 10 "if sint val < 0 then - val else val"] by auto
  then show ?thesis
    by (intro exI[of _ ds]) (auto simp: itoa_def sint_negative sint_nonnegative split: if_splits)
qed

section \<open>Formatting\<close>

text \<open>The text a format produces, independent of where it is written.\<close>

fun format_text :: "u8 list \<Rightarrow> varg list \<Rightarrow> u8 list option" where
  "format_text [] va = Some []"
| "format_text (c # fmt) va =
     (if c = ch CHR ''%'' then
        let (k, fs) = parse_format_spec (c # fmt)
        in do {
          (cs, va') \<leftarrow> convert fs va;
          rest \<leftarrow> format_text (drop (k - 1) fmt) va';
          Some (cs @ rest)
        }
      else do { rest \<leftarrow> format_text fmt va; Some (c # rest) })"

lemma emit_append: "emit write n (xs @ ys) j b = (let (j', b') = emit write n xs j b in emit write n ys j' b')"
  by (induction xs arbitrary: j b) simp_all

lemma format_loop_emit:
  "format_loop wr n fmt va j b = do { t \<leftarrow> format_text fmt va; Some (emit wr n t j b) }"
proof (induction wr n fmt va j b rule: format_loop.induct)
  case (2 wr n c fmt va j b)
  show ?case
  proof (cases "c = ch CHR ''%''")
    case True
    obtain k fs where p: "parse_format_spec (c # fmt) = (k, fs)" by fastforce
    show ?thesis
    proof (cases "convert fs va")
      case None
      then show ?thesis using p True by simp
    next
      case (Some r)
      obtain cs va' where r: "r = (cs, va')" by fastforce
      obtain j' b' where e: "emit wr n cs j b = (j', b')" by fastforce
      have "format_loop wr n (drop (k - 1) fmt) va' j' b' =
          do { t \<leftarrow> format_text (drop (k - 1) fmt) va'; Some (emit wr n t j' b') }"
        using 2(1)[OF True p[symmetric] refl] Some r e by simp
      then show ?thesis using p True Some r e by (cases "format_text (drop (k - 1) fmt) va'") (simp_all add: emit_append)
    qed
  next
    case False
    then show ?thesis using 2(2) by (cases "format_text fmt va") simp_all
  qed
qed simp

lemma emit_count: "fst (emit write n t j b) = j + of_nat (length t)"
  by (induction t arbitrary: j b) simp_all

lemma emit_term: "snd (emit term_writer n t j b) = b @ t"
  by (induction t arbitrary: j b) (simp_all add: term_writer_def)

lemma emit_buf_length: "length (snd (emit buf_writer n t j b)) = length b"
  by (induction t arbitrary: j b) (simp_all add: buf_writer_def)

lemma emit_buf_nth:
  assumes "unat j + length t < 2 ^ 32" "unat n \<le> length b" "i < length b"
  shows "snd (emit buf_writer n t j b) ! i =
           (if unat j \<le> i \<and> i < unat j + length t \<and> i < unat n then t ! (i - unat j) else b ! i)"
  using assms
proof (induction t arbitrary: j b)
  case (Cons c t)
  have j: "unat (j + 1) = Suc (unat j)" using Cons.prems by (simp add: unat_add_no_wrap)
  have "length (buf_writer c b j n False) = length b" by (simp add: buf_writer_def)
  then show ?case using Cons.IH[of "j + 1" "buf_writer c b j n False"] Cons.prems j
    by (auto simp: buf_writer_def nth_Cons' nth_list_update word_le_nat_alt Suc_le_eq)
qed auto
lemma emit_buf:
  assumes "length t < 2 ^ 32" "unat n \<le> length s"
  shows "snd (emit buf_writer n t 0 s) = take (unat n) t @ drop (min (unat n) (length t)) s"
proof (rule nth_equalityI)
  fix i assume i: "i < length (snd (emit buf_writer n t 0 s))"
  then have "snd (emit buf_writer n t 0 s) ! i = (if i < length t \<and> i < unat n then t ! i else s ! i)"
    using assms emit_buf_nth[of 0 t n s i] by (simp add: emit_buf_length)
  then show "snd (emit buf_writer n t 0 s) ! i = (take (unat n) t @ drop (min (unat n) (length t)) s) ! i"
    using i assms(2) by (auto simp: nth_append emit_buf_length min_def)
qed (use assms in \<open>auto simp: emit_buf_length\<close>)

lemma terminated:
  assumes "0 < n" "n \<le> length s"
  shows "(take n t @ drop (min n (length t)) s)[min (length t) (n - 1) := x] =
           take (n - 1) t @ x # drop (Suc (min (length t) (n - 1))) s"
proof (cases "length t < n")
  case True
  then have m: "min n (length t) = length t" "min (length t) (n - 1) = length t" "take n t = t" "take (n - 1) t = t"
    by auto
  have "drop (length t) s = s ! length t # drop (Suc (length t)) s" using True assms by (simp add: Cons_nth_drop_Suc)
  then show ?thesis unfolding m by (simp add: list_update_append)
next
  case False
  then obtain m where "n = Suc m" "m < length t" using assms by (cases n) auto
  then show ?thesis by (simp add: min_def take_Suc_conv_app_nth list_update_append)
qed

text \<open>
  C33. The numbers that \<^verbatim>\<open>_utoa\<close> and \<^verbatim>\<open>_itoa\<close> print. In every radix the formatter uses, the digits are
  digits of that radix, they denote the value, they fit in the scratch buffer of 64 characters, and only
  zero starts with a zero; a negative number, the least one included, is a minus sign and its magnitude.
\<close>

theorem number_text:
  assumes "radix \<in> {2, 8, 10, 16}"
  shows "(\<exists>ds. utoa val radix = Some ds \<and> number_of_digits (unat radix) ds = unat val \<and>
            (\<forall>c\<in>set ds. is_digit (unat radix) c) \<and> 0 < length ds \<and> length ds \<le> 64 \<and>
            (hd ds = ch CHR ''0'' \<longleftrightarrow> val = 0)) \<and>
         (\<exists>ds. itoa val = Some (if sint val < 0 then ch CHR ''-'' # ds else ds) \<and>
            number_of_digits 10 ds = nat \<bar>sint val\<bar> \<and> (\<forall>c\<in>set ds. is_digit 10 c) \<and> length ds \<le> 20)"
  using utoa_spec[OF assms, of val] itoa_spec[of val] by blast

theorem number_text_witness:
  "utoa 255 16 = Some (map ch ''ff'') \<and> number_of_digits 16 (map ch ''ff'') = 255 \<and>
   itoa (- 42) = Some (map ch ''-42'') \<and> (\<exists>ds. utoa 255 16 = Some ds \<and> number_of_digits (unat (16 :: u64)) ds = unat (255 :: u64))"
proof -
  have "utoa 255 16 = Some (map ch ''ff'')" "number_of_digits 16 (map ch ''ff'') = 255"
    "itoa (- 42) = Some (map ch ''-42'')" by code_simp+
  then show ?thesis using number_text[of 16 255] by auto
qed

text \<open>
  C16. Formatted output is bounded. \<^verbatim>\<open>snprintf\<close> with a buffer of at least \<open>n\<close> bytes returns the length of the
  whole text and leaves in the buffer the text cut to \<open>n - 1\<close> characters, a terminator, and the rest of
  the buffer unchanged; with \<open>n = 0\<close> it writes nothing. \<^verbatim>\<open>vprintf\<close> sends exactly the text.
\<close>

theorem snprintf_bounded:
  assumes "format_text fmt va = Some t" "length t < 2 ^ 32" "unat n \<le> length s"
  shows "snprintf s n fmt va =
           Some (of_nat (length t),
                 if n = 0 then s
                 else take (unat n - 1) t @ 0 # drop (Suc (min (length t) (unat n - 1))) s) \<and>
         vprintf fmt va = Some (of_nat (length t), t)"
proof (intro conjI)
  have l: "format_loop buf_writer n fmt va 0 s = Some (of_nat (length t), snd (emit buf_writer n t 0 s))"
    using assms(1) emit_count[of buf_writer n t 0 s] by (simp add: format_loop_emit prod_eq_iff)
  have j: "unat (of_nat (length t) :: u32) = length t" using assms(2) by (simp add: unat_of_nat_small)
  show "snprintf s n fmt va =
           Some (of_nat (length t),
                 if n = 0 then s
                 else take (unat n - 1) t @ 0 # drop (Suc (min (length t) (unat n - 1))) s)"
  proof (cases "n = 0")
    case True
    then show ?thesis using l assms emit_buf[of t n s]
      by (simp add: snprintf_def vsnprintf_def vsnprintf_impl_def buf_writer_def)
  next
    case False
    then have n: "0 < unat n" by (simp add: unat_gt_0)
    then have n1: "unat (n - 1) = unat n - 1" by (simp add: unat_sub_no_wrap word_le_nat_alt)
    have "unat (if of_nat (length t) < n then of_nat (length t) else n - 1) = min (length t) (unat n - 1)"
      using j n n1 by (auto simp: word_less_nat_alt)
    moreover have "unat n - 1 < unat n" using n by simp
    ultimately show ?thesis
      using False l assms emit_buf[of t n s] terminated[OF n assms(3), of t 0]
      by (simp add: snprintf_def vsnprintf_def vsnprintf_impl_def buf_writer_def word_le_nat_alt)
  qed
  have "format_loop term_writer (- 1) fmt va 0 [] = Some (of_nat (length t), t)"
    using assms(1) emit_count[of term_writer "- 1" t 0 "[]"] emit_term[of "- 1" t 0 "[]"]
    by (simp add: format_loop_emit prod_eq_iff)
  then show "vprintf fmt va = Some (of_nat (length t), t)"
    by (simp add: vprintf_def vsnprintf_impl_def term_writer_def)
qed

theorem snprintf_bounded_witness:
  "format_text (map ch ''n=%u!'') [VInt 1234] = Some (map ch ''n=1234!'') \<and>
   snprintf [9, 9, 9, 9, 9] 4 (map ch ''n=%u!'') [VInt 1234] = Some (7, map ch ''n=1'' @ [0, 9])"
proof -
  have t: "format_text (map ch ''n=%u!'') [VInt 1234] = Some (map ch ''n=1234!'')" by code_simp
  then show ?thesis using snprintf_bounded[OF t, of 4 "[9, 9, 9, 9, 9]"] by simp
qed

text \<open>
  The length modifier \<^verbatim>\<open>hh\<close> is not recognised: the parser rejects \<^verbatim>\<open>%hh\<close> and a type, so that the text
  after the percent sign is printed as it is and no argument is read, and \<^verbatim>\<open>%h\<close> is taken for \<^verbatim>\<open>hh\<close>.
\<close>

theorem short_short_rejected:
  "parse_format_spec (map ch ''%hh'' @ c # s) = (1, \<lparr>fs_length = FS_SHORT_SHORT, fs_type = FS_INVAL\<rparr>) \<and>
   format_text (map ch ''%hhd'') va = Some (map ch ''hhd'') \<and>
   parse_format_spec (map ch ''%hd'' @ s) = (3, \<lparr>fs_length = FS_SHORT_SHORT, fs_type = FS_SIGNED\<rparr>)"
  by (simp add: type_of_char_def of_char_def convert_def)

end
