(* ===== verification/String_View.thy ===== *)
theory String_View
  imports HmmOS_Prelude
begin

text \<open>
  String views and path splitting: \<^verbatim>\<open>src/src/kernel/nonstd/string_view.h\<close> and
  \<^verbatim>\<open>src/src/kernel/util/pathutil.cc\<close>. A view is the list of the characters it spans, so its length is the
  length of the list; positions are 32-bit words and \<open>npos\<close> is \<open>- 1\<close>. \<open>None\<close> is a failed assertion or a
  view that leaves the characters.
\<close>

section \<open>Definitions\<close>

type_synonym string_view = "u8 list"

definition npos :: u32 where "npos = - 1"

definition sv_size :: "string_view \<Rightarrow> u32" where "sv_size s = of_nat (length s)"

definition sv_empty :: "string_view \<Rightarrow> bool" where "sv_empty s \<longleftrightarrow> sv_size s = 0"

definition sv_at :: "string_view \<Rightarrow> u32 \<Rightarrow> u8 option" where
  "sv_at s pos = do { ASSERT (pos < sv_size s); Some (s ! unat pos) }"

text \<open>\<^verbatim>\<open>start\<close> is a signed integer; the comparisons with the size are unsigned.\<close>

definition substr :: "string_view \<Rightarrow> 32 word \<Rightarrow> u32 \<Rightarrow> string_view option" where
  "substr s start cnt =
     (let start = (if sint start < 0 then 0 else start);
          start = (if start > sv_size s then sv_size s else start);
          cnt = (if cnt = npos \<or> start + cnt > sv_size s then sv_size s - start else cnt)
      in if unat start + unat cnt \<le> length s then Some (take (unat cnt) (drop (unat start) s)) else None)"

text \<open>
  Equality compares with \<^verbatim>\<open>strncmp\<close>, which stops at a null character: the characters of both views up to the
  first null character, or all of them, have to agree.
\<close>

fun view_strncmp :: "string_view \<Rightarrow> string_view \<Rightarrow> nat \<Rightarrow> int" where
  "view_strncmp (x # xs) (y # ys) (Suc n) =
     (if x \<noteq> 0 \<and> y \<noteq> 0 \<and> x = y then (if n = 0 then 0 else view_strncmp xs ys n) else sint x - sint y)"
| "view_strncmp _ _ _ = 0"

definition sv_eq :: "string_view \<Rightarrow> string_view \<Rightarrow> bool" where
  "sv_eq lhs rhs \<longleftrightarrow> length lhs = length rhs \<and> view_strncmp lhs rhs (length lhs) = 0"

text \<open>The sign of the three-way comparison.\<close>

definition sv_compare :: "string_view \<Rightarrow> string_view \<Rightarrow> int" where
  "sv_compare lhs rhs =
     (let res = view_strncmp lhs rhs (min (length lhs) (length rhs))
      in if res \<noteq> 0 then sgn res else sgn (int (length lhs) - int (length rhs)))"

definition starts_with :: "string_view \<Rightarrow> string_view \<Rightarrow> bool option" where
  "starts_with s needle = do { p \<leftarrow> substr s 0 (sv_size needle); Some (sv_eq p needle) }"

definition starts_with_char :: "string_view \<Rightarrow> u8 \<Rightarrow> bool" where
  "starts_with_char s needle \<longleftrightarrow> s \<noteq> [] \<and> s ! 0 = needle"

definition ends_with :: "string_view \<Rightarrow> string_view \<Rightarrow> bool option" where
  "ends_with s needle = do { p \<leftarrow> substr s (sv_size s - sv_size needle) npos; Some (sv_eq p needle) }"

definition ends_with_char :: "string_view \<Rightarrow> u8 \<Rightarrow> bool" where
  "ends_with_char s needle \<longleftrightarrow> s \<noteq> [] \<and> s ! (length s - 1) = needle"

fun find_loop :: "string_view \<Rightarrow> u32 \<Rightarrow> string_view \<Rightarrow> u32" where
  "find_loop needle i s =
     (if length s < length needle then npos
      else if sv_eq needle (take (length needle) s) then i
      else case s of [] \<Rightarrow> npos | c # s' \<Rightarrow> find_loop needle (i + 1) s')"

declare find_loop.simps [simp del]

definition sv_find :: "string_view \<Rightarrow> string_view \<Rightarrow> u32" where
  "sv_find s needle = (if length s < length needle then npos else find_loop needle 0 s)"

fun find_char_loop :: "u8 \<Rightarrow> u32 \<Rightarrow> string_view \<Rightarrow> u32" where
  "find_char_loop needle i [] = npos"
| "find_char_loop needle i (c # s) = (if c = needle then i else find_char_loop needle (i + 1) s)"

definition find_char :: "string_view \<Rightarrow> u8 \<Rightarrow> u32" where
  "find_char s needle = find_char_loop needle 0 s"

primrec rfind_loop :: "u8 \<Rightarrow> string_view \<Rightarrow> nat \<Rightarrow> u32" where
  "rfind_loop needle s 0 = npos"
| "rfind_loop needle s (Suc i) = (if s ! i = needle then of_nat i else rfind_loop needle s i)"

definition rfind :: "string_view \<Rightarrow> u8 \<Rightarrow> u32" where
  "rfind s needle = rfind_loop needle s (length s)"

definition sv_contains :: "string_view \<Rightarrow> string_view \<Rightarrow> bool" where
  "sv_contains s needle \<longleftrightarrow> sv_find s needle \<noteq> npos"

text \<open>Paths. \<open>slash\<close> is the separator.\<close>

definition slash :: u8 where "slash = 0x2F"

definition partition_path :: "string_view \<Rightarrow> (string_view \<times> string_view) option" where
  "partition_path path =
     (let sep = rfind path slash
      in if sep \<noteq> npos
         then do { d \<leftarrow> substr path 0 sep; b \<leftarrow> substr path (sep + 1) npos; Some (d, b) }
         else Some ([], path))"

definition left_partition_path :: "string_view \<Rightarrow> (string_view \<times> string_view) option" where
  "left_partition_path path =
     (let sep = find_char path slash
      in if sep \<noteq> npos
         then do { c \<leftarrow> substr path 0 sep; r \<leftarrow> substr path (sep + 1) npos; Some (c, r) }
         else Some (path, []))"

section \<open>Library\<close>

lemma sint_eq_iff: "sint x = sint y \<longleftrightarrow> x = y"
  by (metis uint_sint word_uint_eq_iff)

lemma view_strncmp_refl: "view_strncmp xs xs n = 0"
  by (induction xs arbitrary: n) (case_tac n; simp)+

lemma view_strncmp_eq:
  assumes "length xs = length ys" "0 \<notin> set xs \<or> 0 \<notin> set ys" "view_strncmp xs ys (length xs) = 0"
  shows "xs = ys"
  using assms
proof (induction xs ys rule: list_induct2)
  case (Cons x xs y ys)
  then show ?case by (cases xs) (auto split: if_splits simp: sint_eq_iff)
qed simp

lemma sv_eq_iff: "0 \<notin> set lhs \<or> 0 \<notin> set rhs \<Longrightarrow> sv_eq lhs rhs \<longleftrightarrow> lhs = rhs"
  using view_strncmp_eq[of lhs rhs] view_strncmp_refl by (auto simp: sv_eq_def)

lemma find_char_loop_append:
  assumes "needle \<notin> set xs"
  shows "find_char_loop needle i (xs @ needle # ys) = i + of_nat (length xs)"
  using assms by (induction xs arbitrary: i) (auto simp: algebra_simps)

lemma find_char_loop_none: "needle \<notin> set xs \<Longrightarrow> find_char_loop needle i xs = npos"
  by (induction xs arbitrary: i) auto

lemma unat_npos: "unat npos = 4294967295"
  by (simp add: npos_def unsigned_minus_1_eq_mask mask_eq_exp_minus_1)

lemma takeWhile_first: "c \<notin> set ys \<Longrightarrow> takeWhile (\<lambda>x. x \<noteq> c) (ys @ c # zs) = ys"
  by (induction ys) auto

lemma find_char_spec:
  "find_char s c = (if c \<in> set s then of_nat (length (takeWhile (\<lambda>x. x \<noteq> c) s)) else npos)"
proof (cases "c \<in> set s")
  case True
  then obtain ys zs where "s = ys @ c # zs" "c \<notin> set ys" by (metis split_list_first)
  moreover from this have "takeWhile (\<lambda>x. x \<noteq> c) s = ys" by (simp add: takeWhile_first)
  ultimately show ?thesis using find_char_loop_append[of c ys 0 zs] by (simp add: find_char_def)
qed (simp add: find_char_def find_char_loop_none)

lemma rfind_loop_spec:
  assumes "n \<le> length s" "needle \<in> set (take n s)"
  shows "\<exists>i<n. rfind_loop needle s n = of_nat i \<and> s ! i = needle \<and> (\<forall>j. i < j \<and> j < n \<longrightarrow> s ! j \<noteq> needle)"
  using assms
proof (induction n)
  case (Suc n)
  show ?case
  proof (cases "s ! n = needle")
    case True
    then show ?thesis by (intro exI[of _ n]) auto
  next
    case False
    then have "needle \<in> set (take n s)" using Suc.prems by (auto simp: take_Suc_conv_app_nth)
    then obtain i where "i < n" "rfind_loop needle s n = of_nat i" "s ! i = needle"
        "\<forall>j. i < j \<and> j < n \<longrightarrow> s ! j \<noteq> needle"
      using Suc by auto
    then show ?thesis using False by (intro exI[of _ i]) (auto simp: less_Suc_eq)
  qed
qed simp

lemma rfind_loop_none: "n \<le> length s \<Longrightarrow> needle \<notin> set (take n s) \<Longrightarrow> rfind_loop needle s n = npos"
proof (induction n)
  case (Suc n)
  then have "take (Suc n) s = take n s @ [s ! n]" by (simp add: take_Suc_conv_app_nth)
  then show ?case using Suc by auto
qed simp

lemma sint_small:
  fixes w :: "32 word"
  assumes "unat w < 2 ^ 31"
  shows "\<not> sint w < 0"
proof -
  have "uint w = int (unat w)" by simp
  moreover have "unat w < 2147483648" using assms by simp
  ultimately have u: "uint w < 2147483648" by linarith
  have "- 2147483648 \<le> uint w" using uint_ge_0[of w] by linarith
  then have "signed_take_bit 31 (uint w) = uint w" using u by (intro signed_take_bit_int_eq_self) simp_all
  then have "sint w = uint w" by (simp add: sint_uint)
  then show ?thesis using uint_ge_0[of w] by linarith
qed

lemma substr_spec:
  assumes "length s < 2 ^ 31" "i \<le> length s"
  shows "substr s (of_nat i) npos = Some (drop i s)"
    and "i + n \<le> length s \<Longrightarrow> substr s (of_nat i) (of_nat n) = Some (take n (drop i s))"
proof -
  have u: "unat (of_nat i :: u32) = i" "unat (of_nat (length s) :: u32) = length s"
    using assms by (simp_all add: unat_of_nat_small)
  then have nn: "\<not> sint (of_nat i :: u32) < 0" using assms sint_small[of "of_nat i"] by simp
  have le: "\<not> (of_nat i :: u32) > of_nat (length s)" using u assms by (simp add: word_less_nat_alt)
  have d: "unat (of_nat (length s) - of_nat i :: u32) = length s - i"
    using u assms by (simp add: unat_sub_no_wrap word_le_nat_alt)
  show "substr s (of_nat i) npos = Some (drop i s)"
    using nn le u d assms by (simp add: substr_def sv_size_def)
  assume n: "i + n \<le> length s"
  then have un: "unat (of_nat n :: u32) = n" using assms by (simp add: unat_of_nat_small)
  then have "of_nat n \<noteq> npos" using n assms unat_npos by auto
  moreover have "unat (of_nat i + of_nat n :: u32) = i + n"
    using n assms un u by (simp add: unat_add_no_wrap)
  then have "\<not> (of_nat i + of_nat n :: u32) > of_nat (length s)" using n u by (simp add: word_less_nat_alt)
  ultimately show "substr s (of_nat i) (of_nat n) = Some (take n (drop i s))"
    using nn le u un n by (simp add: substr_def sv_size_def)
qed

lemma partition_at:
  assumes "length path < 2 ^ 31" "i < length path"
  shows "substr path 0 (of_nat i) = Some (take i path)"
    and "substr path (of_nat i + 1) npos = Some (drop (Suc i) path)"
    and "of_nat i \<noteq> npos"
proof -
  show "substr path 0 (of_nat i) = Some (take i path)" using substr_spec(2)[of path 0 i] assms by simp
  show "substr path (of_nat i + 1) npos = Some (drop (Suc i) path)"
    using substr_spec(1)[of path "Suc i"] assms by (simp add: add.commute)
  have "unat (of_nat i :: u32) = i" using assms by (simp add: unat_of_nat_small)
  then show "of_nat i \<noteq> npos" using assms unat_npos by auto
qed

lemma left_partition_path_spec:
  assumes "length path < 2 ^ 31"
  shows "left_partition_path path =
           Some (takeWhile (\<lambda>c. c \<noteq> slash) path, drop (Suc (length (takeWhile (\<lambda>c. c \<noteq> slash) path))) path)"
proof (cases "slash \<in> set path")
  case True
  let ?i = "length (takeWhile (\<lambda>c. c \<noteq> slash) path)"
  have "?i < length path" using True by (metis (mono_tags) length_takeWhile_le le_neq_implies_less takeWhile_eq_take take_all_iff order_refl takeWhile_eq_all_conv)
  note this partition_at[OF assms this]
  moreover have "take ?i path = takeWhile (\<lambda>c. c \<noteq> slash) path" by (metis takeWhile_eq_take)
  ultimately show ?thesis using True by (simp add: left_partition_path_def find_char_spec)
next
  case False
  then have e: "takeWhile (\<lambda>c. c \<noteq> slash) path = path" by auto
  show ?thesis unfolding e using False by (simp add: left_partition_path_def find_char_spec)
qed

lemma partition_path_spec:
  assumes "length path < 2 ^ 31"
  shows "\<exists>d b. partition_path path = Some (d, b) \<and> slash \<notin> set b \<and>
           (path = d @ slash # b \<or> slash \<notin> set path \<and> d = [] \<and> b = path)"
proof (cases "slash \<in> set path")
  case True
  then obtain i where i: "i < length path" "rfind_loop slash path (length path) = of_nat i" "path ! i = slash"
      "\<forall>j. i < j \<and> j < length path \<longrightarrow> path ! j \<noteq> slash"
    using rfind_loop_spec[of "length path" path slash] by auto
  have "path = take i path @ slash # drop (Suc i) path" using i by (metis id_take_nth_drop)
  moreover have "slash \<notin> set (drop (Suc i) path)" using i(4) by (auto simp: in_set_conv_nth)
  ultimately show ?thesis using i(2) partition_at[OF assms i(1)]
    by (intro exI[of _ "take i path"] exI[of _ "drop (Suc i) path"]) (simp add: partition_path_def rfind_def)
next
  case False
  then show ?thesis by (simp add: partition_path_def rfind_def rfind_loop_none)
qed

text \<open>
  C35. Splitting a path loses nothing: the first component has no separator and, with the separator and the
  rest, gives the path back; the base name has no separator and, with the directory name, gives the path
  back; a path without a separator is its own first component and its own base name.
\<close>

theorem path_split:
  assumes "length path < 2 ^ 31"
  shows "\<exists>c r d b. left_partition_path path = Some (c, r) \<and> partition_path path = Some (d, b) \<and>
           slash \<notin> set c \<and> slash \<notin> set b \<and>
           (if slash \<in> set path then path = c @ slash # r \<and> path = d @ slash # b
            else c = path \<and> r = [] \<and> d = [] \<and> b = path)"
proof -
  let ?c = "takeWhile (\<lambda>c. c \<noteq> slash) path"
  let ?r = "drop (Suc (length ?c)) path"
  obtain d b where db: "partition_path path = Some (d, b)" "slash \<notin> set b"
      "path = d @ slash # b \<or> slash \<notin> set path \<and> d = [] \<and> b = path"
    using partition_path_spec[OF assms] by blast
  have c: "slash \<notin> set ?c" by (auto dest: set_takeWhileD)
  show ?thesis
  proof (cases "slash \<in> set path")
    case True
    then obtain ys zs where "path = ys @ slash # zs" "slash \<notin> set ys" by (metis split_list_first)
    moreover from this have "?c = ys" by (simp add: takeWhile_first)
    ultimately have "path = ?c @ slash # ?r" by simp
    then show ?thesis using True db c left_partition_path_spec[OF assms]
      by (intro exI[of _ ?c] exI[of _ ?r] exI[of _ d] exI[of _ b]) auto
  next
    case False
    then have e: "?c = path" by auto
    show ?thesis using False db left_partition_path_spec[OF assms] unfolding e by auto
  qed
qed

theorem path_split_witness:
  "left_partition_path (map of_char ''bin/sh'') = Some (map of_char ''bin'', map of_char ''sh'') \<and>
   (\<exists>c r d b. left_partition_path (map of_char ''bin/sh'') = Some (c, r) \<and>
      partition_path (map of_char ''bin/sh'') = Some (d, b) \<and> slash \<notin> set b)"
proof -
  have "left_partition_path (map of_char ''bin/sh'') = Some (map of_char ''bin'', map of_char ''sh'')"
    by code_simp
  moreover have "length (map of_char ''bin/sh'' :: u8 list) < 2 ^ 31" by simp
  ultimately show ?thesis using path_split[of "map of_char ''bin/sh''"] by blast
qed

end
