(* ===== verification/Fat32.thy ===== *)
theory Fat32
  imports String_View Algorithm
begin

text \<open>
  The FAT32 driver: \<^verbatim>\<open>src/src/kernel/fs/drivers/fat32.h\<close> and \<^verbatim>\<open>src/src/kernel/fs/drivers/fat32.cc\<close>. The block device
  with the page cache in front of it is a function from a byte offset to the page of 4096 bytes there,
  \<open>None\<close> when the device fails, on which the page cache halts the machine. The structures on disk are
  records read from bytes in little-endian order. An inode is named by a number, its address; \<open>None\<close> is a
  failed assertion, a read outside the mapped page, or a walk that never ends.
\<close>

section \<open>Structures on disk\<close>

type_synonym device = "u64 \<Rightarrow> u8 list option"

fun le_bytes :: "u8 list \<Rightarrow> nat" where
  "le_bytes [] = 0"
| "le_bytes (b # bs) = unat b + 256 * le_bytes bs"

definition field :: "nat \<Rightarrow> nat \<Rightarrow> u8 list \<Rightarrow> 'a::len word" where
  "field off n bs = of_nat (le_bytes (take n (drop off bs)))"

definition byte_array :: "nat \<Rightarrow> nat \<Rightarrow> u8 list \<Rightarrow> u8 list" where
  "byte_array off n bs = take n (drop off bs)"

record MBRPartition =
  drive_attrs :: u8
  first_sector_chs :: u32
  partition_type :: u8
  last_sector_chs :: u32
  first_sector_lba :: u32
  sector_count :: u32

definition read_MBRPartition :: "u8 list \<Rightarrow> MBRPartition" where
  "read_MBRPartition bs =
     \<lparr>drive_attrs = field 0 1 bs, first_sector_chs = field 1 3 bs, partition_type = field 4 1 bs,
      last_sector_chs = field 5 3 bs, first_sector_lba = field 8 4 bs, sector_count = field 12 4 bs\<rparr>"

record VBR =
  jmp_instr :: u32
  oem_name :: "u8 list"
  bytes_per_sector :: u16
  sectors_per_cluster :: u8
  reserved_sectors :: u16
  fats :: u8
  max_root_dir_entries :: u16
  total_sectors :: u16
  media_desc :: u8
  sectors_per_fat :: u16
  sectors_per_track :: u16
  heads_per_disk :: u16
  hidden_sectors :: u32
  total_sectors2 :: u32
  sectors_per_fat2 :: u32
  drive_mirror_flags :: u16
  vbr_version :: u16
  root_dir_start_cluster :: u32
  fs_information_start_sector :: u16
  backup_start_sector :: u16
  physical_drive_number :: u8
  extended_boot_sig :: u8
  volume_id :: u32
  volume_label :: "u8 list"
  fs_type :: "u8 list"
  physical_drive_no :: u8
  boot_signature :: "u8 list"

definition read_VBR :: "u8 list \<Rightarrow> VBR" where
  "read_VBR bs =
     \<lparr>jmp_instr = field 0 3 bs, oem_name = byte_array 3 8 bs, bytes_per_sector = field 11 2 bs,
      sectors_per_cluster = field 13 1 bs, reserved_sectors = field 14 2 bs, fats = field 16 1 bs,
      max_root_dir_entries = field 17 2 bs, total_sectors = field 19 2 bs, media_desc = field 21 1 bs,
      sectors_per_fat = field 22 2 bs, sectors_per_track = field 24 2 bs, heads_per_disk = field 26 2 bs,
      hidden_sectors = field 28 4 bs, total_sectors2 = field 32 4 bs, sectors_per_fat2 = field 36 4 bs,
      drive_mirror_flags = field 40 2 bs, vbr_version = field 42 2 bs, root_dir_start_cluster = field 44 4 bs,
      fs_information_start_sector = field 48 2 bs, backup_start_sector = field 50 2 bs,
      physical_drive_number = field 64 1 bs, extended_boot_sig = field 66 1 bs, volume_id = field 67 4 bs,
      volume_label = byte_array 71 11 bs, fs_type = byte_array 82 8 bs,
      physical_drive_no = field 509 1 bs, boot_signature = byte_array 510 2 bs\<rparr>"

record DirectoryEntry =
  short_filename :: "u8 list"
  attr :: u8
  vfat_case :: u8
  created_time_fine :: u8
  created_time :: u16
  created_date :: u16
  access_date :: u16
  cluster_hi :: u16
  modified_time :: u16
  modified_date :: u16
  cluster_lo :: u16
  file_sz_bytes :: u32

text \<open>\<open>short_filename\<close> holds the eight characters of the name and the three of the extension, as the code reads them.\<close>

definition read_DirectoryEntry :: "u8 list \<Rightarrow> DirectoryEntry" where
  "read_DirectoryEntry bs =
     \<lparr>short_filename = byte_array 0 11 bs, attr = field 11 1 bs, vfat_case = field 12 1 bs,
      created_time_fine = field 13 1 bs, created_time = field 14 2 bs, created_date = field 16 2 bs,
      access_date = field 18 2 bs, cluster_hi = field 20 2 bs, modified_time = field 22 2 bs,
      modified_date = field 24 2 bs, cluster_lo = field 26 2 bs, file_sz_bytes = field 28 4 bs\<rparr>"

definition subdir :: "u8 \<Rightarrow> bool" where "subdir a \<longleftrightarrow> bit a 4"

section \<open>Names and clusters\<close>

definition mask_cluster :: "u32 \<Rightarrow> u32" where "mask_cluster cluster = cluster AND 0x0FFFFFFF"

definition is_last_cluster_in_file :: "u32 \<Rightarrow> bool" where
  "is_last_cluster_in_file cluster \<longleftrightarrow> mask_cluster cluster \<ge> 0x0FFFFFF7"

definition overwrite :: "nat \<Rightarrow> 'a list \<Rightarrow> 'a list \<Rightarrow> 'a list" where
  "overwrite off xs ys = take off ys @ xs @ drop (off + length xs) ys"

definition convert_normal_to_8_3_filename :: "string_view \<Rightarrow> u8 list" where
  "convert_normal_to_8_3_filename filename =
     (let rval = replicate 11 0x20;
          pos = sv_find filename [0x2E]
      in if pos = npos then overwrite 0 (take (min (length filename) 8) filename) rval
         else
           let rval = overwrite 0 (take (min (unat pos) 8) filename) rval
           in overwrite 8 (take (min (length filename - (unat pos + 1)) 3) (drop (unat pos + 1) filename)) rval)"

definition convert_8_3_to_normal_filename :: "string_view \<Rightarrow> u8 list option" where
  "convert_8_3_to_normal_filename s = do {
     ASSERT (length s = 11);
     filename \<leftarrow> substr s 0 8;
     fileext \<leftarrow> substr s 8 npos;
     let filename_len = (let p = find_char filename 0x20 in if p = npos then 8 else unat p);
     let fileext_len = (let p = find_char fileext 0x20 in if p = npos then 3 else unat p);
     let rval = overwrite 0 (take filename_len filename) (replicate 13 0);
     Some (if fileext_len \<noteq> 0
           then overwrite (filename_len + 1) (take fileext_len fileext) (rval[filename_len := 0x2E])
           else rval)
   }"

section \<open>The filesystem\<close>

text \<open>An inode of the driver with the fields of the base class.\<close>

record fat_inode =
  ino_id :: u32
  ino_rc :: u32
  ino_size :: u32
  is_directory :: bool
  start_cluster :: u32
  ino_name :: "u8 list"

record filesystem =
  fs_bytes_per_sector :: u16
  fs_sectors_per_cluster :: u8
  dir_entries_per_cluster :: u32
  fat_offset_lba :: u32
  data_region_offset_lba :: u32
  fs_root_dir_start_cluster :: u32
  next_inode :: u32
  start_cluster_to_inode :: "u32 \<rightharpoonup> nat"
  inodes :: "nat \<rightharpoonup> fat_inode"
  fresh_inode :: nat

definition fat_entries_per_sector :: u32 where "fat_entries_per_sector = 512 div 4"

definition new_filesystem :: "VBR \<Rightarrow> MBRPartition \<Rightarrow> filesystem" where
  "new_filesystem vbr part =
     \<lparr>fs_bytes_per_sector = bytes_per_sector vbr,
      fs_sectors_per_cluster = sectors_per_cluster vbr,
      dir_entries_per_cluster = 512 * ucast (sectors_per_cluster vbr) div 32,
      fat_offset_lba = first_sector_lba part + ucast (reserved_sectors vbr),
      data_region_offset_lba = first_sector_lba part + ucast (reserved_sectors vbr) +
        ucast (fats vbr) * sectors_per_fat2 vbr,
      fs_root_dir_start_cluster = root_dir_start_cluster vbr,
      next_inode = 0, start_cluster_to_inode = Map.empty, inodes = Map.empty, fresh_inode = 0\<rparr>"

primrec find_partition :: "u8 list \<Rightarrow> nat \<Rightarrow> nat \<Rightarrow> MBRPartition option" where
  "find_partition pg i 0 = None"
| "find_partition pg i (Suc n) =
     (let p = read_MBRPartition (drop (0x1BE + 16 * i) pg)
      in if partition_type p = 0x0C then Some p else find_partition pg (Suc i) n)"

definition find_boot_part :: "device \<Rightarrow> MBRPartition option option" where
  "find_boot_part dev = do { pg \<leftarrow> dev 0; Some (find_partition pg 0 4) }"

definition from_partition :: "device \<Rightarrow> MBRPartition \<Rightarrow> filesystem option" where
  "from_partition dev boot_part = do {
     let offset = (ucast (floor_pow2 4096 (ucast (first_sector_lba boot_part * 512))) :: u32);
     let sector_off = first_sector_lba boot_part mod (PG_SZ div 512) * 512;
     pg \<leftarrow> dev (ucast offset);
     Some (new_filesystem (read_VBR (drop (unat sector_off) pg)) boot_part)
   }"

definition get_fat_sector_for_cluster :: "filesystem \<Rightarrow> u32 \<Rightarrow> u32" where
  "get_fat_sector_for_cluster fs cluster = fat_offset_lba fs + mask_cluster cluster div fat_entries_per_sector"

definition advance_cluster :: "device \<Rightarrow> filesystem \<Rightarrow> u32 \<Rightarrow> u32 option" where
  "advance_cluster dev fs cur_cluster = do {
     let fat_it = get_fat_sector_for_cluster fs cur_cluster;
     let offset = floor_pow2 4096 (ucast (fat_it * 512));
     let sector_off = fat_it mod (PG_SZ div 512) * 512;
     pg \<leftarrow> dev offset;
     let next_cluster = mask_cluster (field (unat sector_off + 4 * unat (cur_cluster mod fat_entries_per_sector)) 4 pg);
     ASSERT (\<not> is_last_cluster_in_file next_cluster);
     Some next_cluster
   }"

section \<open>Directories\<close>

datatype scan = Scan_more | Scan_end | Scan_found DirectoryEntry

text \<open>The entries of one page; reading past the page is a fault.\<close>

fun scan_entries :: "(DirectoryEntry \<Rightarrow> bool) \<Rightarrow> u8 list \<Rightarrow> nat \<Rightarrow> nat \<Rightarrow> scan option" where
  "scan_entries cb pg i 0 = Some Scan_more"
| "scan_entries cb pg i (Suc n) =
     (if length pg < 32 * Suc i then None
      else
        let it = read_DirectoryEntry (drop (32 * i) pg)
        in if hd (short_filename it) = 0 then Some Scan_end
           else if hd (short_filename it) = 0xE5 then scan_entries cb pg (Suc i) n
           else if attr it = 0x0F then scan_entries cb pg (Suc i) n
           else if cb it then Some (Scan_found it)
           else scan_entries cb pg (Suc i) n)"

text \<open>The loop variable of the pages has 32 bits, its bound 64.\<close>

partial_function (option) scan_pages ::
    "device \<Rightarrow> filesystem \<Rightarrow> (DirectoryEntry \<Rightarrow> bool) \<Rightarrow> u32 \<Rightarrow> u64 \<Rightarrow> scan option" where
  "scan_pages dev fs cb pg_it bound =
     (if ucast pg_it < bound then do {
        pg \<leftarrow> dev (ucast pg_it);
        r \<leftarrow> scan_entries cb pg 0 (unat (dir_entries_per_cluster fs));
        if r = Scan_more then scan_pages dev fs cb (pg_it + PG_SZ) bound else Some r
      }
      else Some Scan_more)"

partial_function (option) iterate_dir ::
    "device \<Rightarrow> filesystem \<Rightarrow> u32 \<Rightarrow> (DirectoryEntry \<Rightarrow> bool) \<Rightarrow> DirectoryEntry option option" where
  "iterate_dir dev fs dir_cluster cb = do {
     ASSERT (PG_ALIGNED (ucast (fs_sectors_per_cluster fs) * 512 :: u32));
     let start_sector = (ucast (data_region_offset_lba fs + (dir_cluster - 2) * ucast (fs_sectors_per_cluster fs)) :: u64);
     let start_pg = start_sector * 512;
     let cluster_sz = (ucast (fs_sectors_per_cluster fs) * 512 :: u64);
     r \<leftarrow> scan_pages dev fs cb (ucast start_pg) (start_pg + cluster_sz);
     case r of
       Scan_end \<Rightarrow> Some None
     | Scan_found e \<Rightarrow> Some (Some e)
     | Scan_more \<Rightarrow> do { c \<leftarrow> advance_cluster dev fs dir_cluster; iterate_dir dev fs c cb }
   }"

declare scan_pages.simps [code] iterate_dir.simps [code]

section \<open>Inodes\<close>

text \<open>The twelve characters of the name that \<^verbatim>\<open>strncpy\<close> writes.\<close>

definition inode_name :: "u8 list \<Rightarrow> u8 list" where
  "inode_name n = (let s = takeWhile (\<lambda>c. c \<noteq> 0) (take 12 n) in s @ replicate (12 - length s) 0)"

definition new_inode :: "u32 \<Rightarrow> u32 \<Rightarrow> u32 \<Rightarrow> bool \<Rightarrow> u8 list \<Rightarrow> filesystem \<Rightarrow> (nat \<times> filesystem) option" where
  "new_inode idn cluster sz dir nm fs = do {
     let a = fresh_inode fs;
     ASSERT (start_cluster_to_inode fs cluster = None);
     Some (a, fs\<lparr>start_cluster_to_inode := (start_cluster_to_inode fs)(cluster \<mapsto> a),
                 inodes := (inodes fs)(a \<mapsto> \<lparr>ino_id = idn, ino_rc = 0, ino_size = sz, is_directory = dir,
                                          start_cluster = cluster, ino_name = inode_name nm\<rparr>),
                 fresh_inode := Suc a\<rparr>)
   }"

definition delete_inode :: "nat \<Rightarrow> filesystem \<Rightarrow> filesystem option" where
  "delete_inode a fs = do {
     ino \<leftarrow> inodes fs a;
     ASSERT (start_cluster_to_inode fs (start_cluster ino) = Some a);
     Some (fs\<lparr>start_cluster_to_inode := (start_cluster_to_inode fs)(start_cluster ino := None),
             inodes := (inodes fs)(a := None)\<rparr>)
   }"

partial_function (option) dev_offset_loop :: "device \<Rightarrow> filesystem \<Rightarrow> u64 \<Rightarrow> u32 \<Rightarrow> u32 option" where
  "dev_offset_loop dev fs file_offset cur_cluster =
     (if file_offset > 0 then do {
        c \<leftarrow> advance_cluster dev fs cur_cluster;
        dev_offset_loop dev fs (file_offset - ucast (fs_sectors_per_cluster fs) * 512) c
      }
      else Some cur_cluster)"

declare dev_offset_loop.simps [code]

definition get_dev_offset :: "device \<Rightarrow> filesystem \<Rightarrow> fat_inode \<Rightarrow> u64 \<Rightarrow> u64 option" where
  "get_dev_offset dev fs ino file_offset =
     (if \<not> PG_ALIGNED file_offset then Some (- 1)
      else do {
        ASSERT (PG_ALIGNED (ucast (fs_sectors_per_cluster fs) * 512 :: u32));
        if is_directory ino then Some (- 1)
        else if file_offset \<ge> ucast (ino_size ino) then Some (- 1)
        else do {
          cur_cluster \<leftarrow> dev_offset_loop dev fs file_offset (start_cluster ino);
          let sector = data_region_offset_lba fs + (cur_cluster - 2) * ucast (fs_sectors_per_cluster fs);
          Some (ucast (sector * 512))
        }
      })"

definition dirent_cluster :: "DirectoryEntry \<Rightarrow> u32" where
  "dirent_cluster e = push_bit 2 (ucast (cluster_hi e)) OR ucast (cluster_lo e)"

text \<open>\<open>Inr\<close> is the inode found or created, \<open>Inl ()\<close> the result \<^verbatim>\<open>FileNotFound\<close>.\<close>

definition lookup :: "device \<Rightarrow> nat \<Rightarrow> string_view \<Rightarrow> filesystem \<Rightarrow> ((unit + nat) \<times> filesystem) option" where
  "lookup dev a name fs = do {
     this \<leftarrow> inodes fs a;
     ASSERT (is_directory this);
     let path_component_8_3 = convert_normal_to_8_3_filename name;
     dirent \<leftarrow> iterate_dir dev fs (start_cluster this) (\<lambda>it. sv_eq path_component_8_3 (short_filename it));
     case dirent of
       None \<Rightarrow> Some (Inl (), fs)
     | Some e \<Rightarrow>
         (let cluster = dirent_cluster e
          in case start_cluster_to_inode fs cluster of
               Some i \<Rightarrow> Some (Inr i, fs)
             | None \<Rightarrow> do {
                 nm \<leftarrow> convert_8_3_to_normal_filename (short_filename e);
                 (i, fs) \<leftarrow> new_inode (next_inode fs) cluster (file_sz_bytes e) (subdir (attr e)) nm
                              (fs\<lparr>next_inode := next_inode fs + 1\<rparr>);
                 Some (Inr i, fs)
               })
   }"

definition get_root_inode :: "filesystem \<Rightarrow> (nat \<times> filesystem) option" where
  "get_root_inode fs =
     new_inode (next_inode fs) (fs_root_dir_start_cluster fs) 0 True (replicate 13 0)
       (fs\<lparr>next_inode := next_inode fs + 1\<rparr>)"

end
