(* ===== verification/Fat32_Files.thy ===== *)
theory Fat32_Files
  imports Fat32
begin

text \<open>
  Correctness of the FAT32 driver: the conversion of file names, the walk over a directory, the table of
  inodes, and the translation of file offsets to device offsets along the chain of clusters.
\<close>

section \<open>File names\<close>

lemma sv_eq_single: "c \<noteq> 0 \<Longrightarrow> sv_eq [c] [x] \<longleftrightarrow> c = x"
  by (auto simp: sv_eq_def sint_eq_iff)

lemma find_loop_single: "c \<noteq> 0 \<Longrightarrow> find_loop [c] i s = find_char_loop c i s"
proof (induction s arbitrary: i)
  case Nil
  then show ?case by (simp add: find_loop.simps)
next
  case (Cons x s)
  then show ?case by (subst find_loop.simps) (auto simp: sv_eq_single)
qed

lemma sv_find_single: "c \<noteq> 0 \<Longrightarrow> sv_find s [c] = find_char s c"
  by (cases s) (simp_all add: sv_find_def find_char_def find_loop_single)

definition padded :: "nat \<Rightarrow> u8 list \<Rightarrow> u8 list" where
  "padded n s = s @ replicate (n - length s) 0x20"

lemma length_padded [simp]: "length s \<le> n \<Longrightarrow> length (padded n s) = n"
  by (simp add: padded_def)

lemma find_padding:
  assumes "0x20 \<notin> set s" "length s \<le> n" "n < 2 ^ 31"
  shows "(let p = find_char (padded n s) 0x20 in if p = npos then n else unat p) = length s"
proof (cases "length s = n")
  case True
  then show ?thesis using assms by (simp add: padded_def find_char_spec)
next
  case False
  then obtain k where "n - length s = Suc k" using assms by (metis diff_is_0_eq le_antisym not0_implies_Suc)
  then have "padded n s = s @ 0x20 # replicate k 0x20" by (simp add: padded_def)
  then have "find_char (padded n s) 0x20 = of_nat (length s)"
    using assms by (simp add: find_char_def find_char_loop_append)
  moreover have "unat (of_nat (length s) :: u32) = length s" using assms by (simp add: unat_of_nat_small)
  moreover from this have "of_nat (length s) \<noteq> npos" using assms unat_npos by auto
  ultimately show ?thesis by simp
qed

lemma normal_to_8_3:
  assumes "0x2E \<notin> set base" "length base \<le> 8" "length ext \<le> 3"
  shows "convert_normal_to_8_3_filename (base @ 0x2E # ext) = padded 8 base @ padded 3 ext"
    and "convert_normal_to_8_3_filename base = padded 8 base @ padded 3 []"
proof -
  have u: "unat (of_nat (length base) :: u32) = length base" using assms by (simp add: unat_of_nat_small)
  then have np: "of_nat (length base) \<noteq> npos" using assms unat_npos by auto
  have f: "sv_find (base @ 0x2E # ext) [0x2E] = of_nat (length base)"
    using assms by (simp add: sv_find_single find_char_def find_char_loop_append)
  have r: "replicate (11 - length base) (0x20 :: u8) = replicate (8 - length base) 0x20 @ replicate 3 0x20"
    using assms by (simp flip: replicate_add)
  have "sv_find base [0x2E] = npos" using assms by (simp add: sv_find_single find_char_def find_char_loop_none)
  then show "convert_normal_to_8_3_filename base = padded 8 base @ padded 3 []"
    using assms r by (simp add: convert_normal_to_8_3_filename_def overwrite_def padded_def Let_def)
  show "convert_normal_to_8_3_filename (base @ 0x2E # ext) = padded 8 base @ padded 3 ext"
    using assms f np u
    by (simp add: convert_normal_to_8_3_filename_def overwrite_def padded_def Let_def min_def)
qed

lemma substr_padded:
  assumes "length base \<le> 8" "length ext \<le> 3"
  shows "substr (padded 8 base @ padded 3 ext) 0 8 = Some (padded 8 base)"
    and "substr (padded 8 base @ padded 3 ext) 8 npos = Some (padded 3 ext)"
proof -
  have l: "length (padded 8 base) = 8" "length (padded 3 ext) = 3" using assms by simp_all
  show "substr (padded 8 base @ padded 3 ext) 0 8 = Some (padded 8 base)"
    using substr_spec(2)[of "padded 8 base @ padded 3 ext" 0 8] l by simp
  show "substr (padded 8 base @ padded 3 ext) 8 npos = Some (padded 3 ext)"
    using substr_spec(1)[of "padded 8 base @ padded 3 ext" 8] l by simp
qed

lemma normal_of_8_3:
  assumes "0x20 \<notin> set base" "length base \<le> 8" "0x20 \<notin> set ext" "length ext \<le> 3"
  shows "convert_8_3_to_normal_filename (padded 8 base @ padded 3 ext) =
           Some (base @ (if ext = [] then replicate (13 - length base) 0
                         else 0x2E # ext @ replicate (12 - length base - length ext) 0))"
proof -
  have f: "(let p = find_char (padded 8 base) 0x20 in if p = npos then 8 else unat p) = length base"
    "(let p = find_char (padded 3 ext) 0x20 in if p = npos then 3 else unat p) = length ext"
    using assms find_padding[of base 8] find_padding[of ext 3] by simp_all
  have "take (length base) (padded 8 base) = base" "take (length ext) (padded 3 ext) = ext"
    by (simp_all add: padded_def)
  moreover have "replicate (13 - length base) (0::u8) = 0 # replicate (12 - length base) 0"
    using assms by (simp add: Suc_diff_le flip: replicate_Suc)
  ultimately show ?thesis
    unfolding convert_8_3_to_normal_filename_def using assms f substr_padded[OF assms(2,4)]
    by (simp add: overwrite_def list_update_append)
qed

section \<open>Walking directories\<close>

text \<open>The entries a page holds, and the entries of a directory that name files.\<close>

definition entries_from :: "u8 list \<Rightarrow> nat \<Rightarrow> nat \<Rightarrow> DirectoryEntry list" where
  "entries_from pg i n = map (\<lambda>j. read_DirectoryEntry (drop (32 * j) pg)) [i..<i + n]"

definition terminator :: "DirectoryEntry \<Rightarrow> bool" where
  "terminator e \<longleftrightarrow> hd (short_filename e) = 0"

definition live_entries :: "DirectoryEntry list \<Rightarrow> DirectoryEntry list" where
  "live_entries es =
     filter (\<lambda>e. hd (short_filename e) \<noteq> 0xE5 \<and> attr e \<noteq> 0x0F) (takeWhile (\<lambda>e. \<not> terminator e) es)"

definition scan_result :: "(DirectoryEntry \<Rightarrow> bool) \<Rightarrow> DirectoryEntry list \<Rightarrow> scan" where
  "scan_result cb es =
     (case List.find cb (live_entries es) of
        Some e \<Rightarrow> Scan_found e
      | None \<Rightarrow> if \<exists>e\<in>set es. terminator e then Scan_end else Scan_more)"

lemma entries_from_Suc: "entries_from pg i (Suc n) = read_DirectoryEntry (drop (32 * i) pg) # entries_from pg (Suc i) n"
  by (simp add: entries_from_def upt_conv_Cons del: upt_Suc)

lemma scan_entries_spec:
  "32 * (i + n) \<le> length pg \<Longrightarrow> scan_entries cb pg i n = Some (scan_result cb (entries_from pg i n))"
proof (induction cb pg i n rule: scan_entries.induct)
  case (1 cb pg i)
  then show ?case by (simp add: entries_from_def scan_result_def live_entries_def)
next
  case (2 cb pg i n)
  let ?it = "read_DirectoryEntry (drop (32 * i) pg)"
  have le: "\<not> length pg < 32 * Suc i" using 2 by simp
  have IH: "scan_entries cb pg (Suc i) n = Some (scan_result cb (entries_from pg (Suc i) n))"
    if "\<not> terminator ?it" "hd (short_filename ?it) = 0xE5 \<or> attr ?it = 0x0F \<or> \<not> cb ?it"
    using 2 le that by (auto simp: terminator_def)
  show ?case
    using le IH by (auto simp: entries_from_Suc scan_result_def live_entries_def terminator_def Let_def)
qed

lemma live_entries_append:
  "\<forall>e\<in>set xs. \<not> terminator e \<Longrightarrow> live_entries (xs @ ys) = live_entries xs @ live_entries ys"
  by (induction xs) (auto simp: live_entries_def)

lemma find_append: "List.find P (xs @ ys) = (case List.find P xs of Some x \<Rightarrow> Some x | None \<Rightarrow> List.find P ys)"
  by (induction xs) auto

lemma live_entries_stop:
  "\<exists>e\<in>set xs. terminator e \<Longrightarrow> live_entries (xs @ ys) = live_entries xs"
  by (induction xs) (auto simp: live_entries_def)

text \<open>Clusters of one page, linked by the file allocation table.\<close>

definition cluster_offset :: "filesystem \<Rightarrow> u32 \<Rightarrow> u64" where
  "cluster_offset fs c = ucast (data_region_offset_lba fs + (c - 2) * ucast (fs_sectors_per_cluster fs)) * 512"

fun cluster_chain :: "device \<Rightarrow> filesystem \<Rightarrow> u32 list \<Rightarrow> bool" where
  "cluster_chain dev fs (c # c' # cs) \<longleftrightarrow> advance_cluster dev fs c = Some c' \<and> cluster_chain dev fs (c' # cs)"
| "cluster_chain dev fs _ \<longleftrightarrow> True"

definition one_page_clusters :: "filesystem \<Rightarrow> bool" where
  "one_page_clusters fs \<longleftrightarrow> fs_sectors_per_cluster fs = 8 \<and> dir_entries_per_cluster fs = 128"

definition dir_page :: "device \<Rightarrow> filesystem \<Rightarrow> u32 \<Rightarrow> u8 list \<Rightarrow> bool" where
  "dir_page dev fs c pg \<longleftrightarrow>
     dev (cluster_offset fs c) = Some pg \<and> length pg = 4096 \<and> unat (cluster_offset fs c) + 4096 < 2 ^ 32"

lemma scan_cluster:
  assumes "one_page_clusters fs" "dir_page dev fs c pg"
  shows "scan_pages dev fs cb (ucast (cluster_offset fs c)) (cluster_offset fs c + 4096) =
           Some (scan_result cb (entries_from pg 0 128))"
proof -
  define o64 where "o64 = cluster_offset fs c"
  have d: "dev o64 = Some pg" "length pg = 4096" "unat o64 + 4096 < 2 ^ 32"
    using assms(2) by (simp_all add: dir_page_def o64_def)
  have u: "ucast (ucast o64 :: u32) = o64" using d(3) by (simp add: word_unat_eq_iff)
  have b: "unat (o64 + 4096) = unat o64 + 4096" using d(3) by (subst unat_add_no_wrap) simp_all
  have "unat (ucast o64 + PG_SZ :: u32) = unat o64 + 4096"
    using d(3) by (subst unat_add_no_wrap) (simp_all add: memdefs)
  then have n: "\<not> (ucast (ucast o64 + PG_SZ :: u32) :: u64) < o64 + 4096" using b by (simp add: word_less_nat_alt)
  have "scan_entries cb pg 0 128 = Some (scan_result cb (entries_from pg 0 128))"
    using scan_entries_spec[of 0 128 pg cb] d(2) by simp
  moreover have "scan_pages dev fs cb (ucast o64 + PG_SZ) (o64 + 4096) = Some Scan_more"
    using n by (subst scan_pages.simps) simp
  ultimately show ?thesis
    using u b d(1) assms(1) unfolding o64_def[symmetric]
    by (subst scan_pages.simps) (simp add: one_page_clusters_def word_less_nat_alt)
qed

lemma iterate_dir_step:
  assumes "one_page_clusters fs" "dir_page dev fs c pg"
  shows "iterate_dir dev fs c cb =
           (case scan_result cb (entries_from pg 0 128) of
              Scan_end \<Rightarrow> Some None
            | Scan_found e \<Rightarrow> Some (Some e)
            | Scan_more \<Rightarrow> do { c \<leftarrow> advance_cluster dev fs c; iterate_dir dev fs c cb })"
proof -
  have "PG_ALIGNED (ucast (fs_sectors_per_cluster fs) * 512 :: u32)"
    using assms(1) by (simp add: one_page_clusters_def PG_ALIGNED_def)
  moreover have "(ucast (fs_sectors_per_cluster fs) * 512 :: u64) = 4096"
    using assms(1) by (simp add: one_page_clusters_def)
  ultimately show ?thesis using scan_cluster[OF assms, of cb]
    by (subst iterate_dir.simps) (simp add: cluster_offset_def)
qed

lemma iterate_dir_spec:
  assumes "one_page_clusters fs" "cluster_chain dev fs cs" "list_all2 (dir_page dev fs) cs pgs" "cs \<noteq> []"
    and "es = concat (map (\<lambda>pg. entries_from pg 0 128) pgs)"
    and "List.find cb (live_entries es) \<noteq> None \<or> (\<exists>e\<in>set es. terminator e)"
  shows "iterate_dir dev fs (hd cs) cb = Some (List.find cb (live_entries es))"
  using assms(2-6)
proof (induction cs arbitrary: pgs es)
  case (Cons c cs)
  obtain pg pgs' where p: "pgs = pg # pgs'" "dir_page dev fs c pg" "list_all2 (dir_page dev fs) cs pgs'"
    using Cons.prems(2) by (auto simp: list_all2_Cons1)
  define e1 where "e1 = entries_from pg 0 128"
  define e2 where "e2 = concat (map (\<lambda>pg. entries_from pg 0 128) pgs')"
  have es: "es = e1 @ e2" using Cons.prems(4) p by (simp add: e1_def e2_def)
  note step = iterate_dir_step[OF assms(1) p(2), of cb, folded e1_def]
  show ?case
  proof (cases "List.find cb (live_entries e1) \<noteq> None \<or> (\<exists>e\<in>set e1. terminator e)")
    case True
    have "List.find cb (live_entries es) = List.find cb (live_entries e1)"
    proof (cases "\<exists>e\<in>set e1. terminator e")
      case False
      then show ?thesis using True by (auto simp: es live_entries_append find_append)
    qed (simp add: es live_entries_stop)
    then show ?thesis using step True by (auto simp: scan_result_def split: option.splits)
  next
    case False
    then have f: "List.find cb (live_entries es) = List.find cb (live_entries e2)"
      by (simp add: es live_entries_append find_append)
    have t: "List.find cb (live_entries e2) \<noteq> None \<or> (\<exists>e\<in>set e2. terminator e)"
      using Cons.prems(5) False f by (auto simp: es)
    then have "cs \<noteq> []" using p(3) by (auto simp: e2_def live_entries_def)
    then obtain c' cs' where cs: "cs = c' # cs'" by (cases cs) auto
    then have "advance_cluster dev fs c = Some c'" "cluster_chain dev fs cs" using Cons.prems(1) by auto
    moreover have "iterate_dir dev fs (hd cs) cb = Some (List.find cb (live_entries e2))"
      using Cons.IH[OF calculation(2) p(3) \<open>cs \<noteq> []\<close> e2_def t] .
    ultimately show ?thesis using step False f cs by (simp add: scan_result_def)
  qed
qed simp

lemma entries_name_length:
  assumes "length pg = 4096" "e \<in> set (entries_from pg 0 128)"
  shows "length (short_filename e) = 11"
  using assms by (auto simp: entries_from_def read_DirectoryEntry_def byte_array_def)

lemma convert_8_3_returns:
  assumes "length s = 11"
  shows "\<exists>nm. convert_8_3_to_normal_filename s = Some nm"
proof -
  have "substr s 0 8 = Some (take 8 s)" "substr s 8 npos = Some (drop 8 s)"
    using assms substr_spec(2)[of s 0 8] substr_spec(1)[of s 8] by simp_all
  then show ?thesis using assms by (simp add: convert_8_3_to_normal_filename_def Let_def)
qed

lemma live_subset: "set (live_entries es) \<subseteq> set es"
  by (auto simp: live_entries_def dest: set_takeWhileD)

text \<open>One inode per start cluster, and no inode at an address not yet used.\<close>

definition wf_inodes :: "filesystem \<Rightarrow> bool" where
  "wf_inodes fs \<longleftrightarrow>
     (\<forall>c a. start_cluster_to_inode fs c = Some a \<longleftrightarrow> (\<exists>ino. inodes fs a = Some ino \<and> start_cluster ino = c)) \<and>
     (\<forall>a\<ge>fresh_inode fs. inodes fs a = None)"

lemma new_inode_spec:
  assumes "wf_inodes fs" "start_cluster_to_inode fs c = None"
  shows "\<exists>fs'. new_inode n c sz dir nm fs = Some (fresh_inode fs, fs') \<and> wf_inodes fs' \<and>
           inodes fs (fresh_inode fs) = None \<and>
           inodes fs' = (inodes fs)(fresh_inode fs \<mapsto> \<lparr>ino_id = n, ino_rc = 0, ino_size = sz, is_directory = dir,
                                                  start_cluster = c, ino_name = inode_name nm\<rparr>)"
proof -
  have f: "inodes fs (fresh_inode fs) = None" using assms(1) by (simp add: wf_inodes_def)
  have m: "\<And>c a. start_cluster_to_inode fs c = Some a \<longleftrightarrow> (\<exists>ino. inodes fs a = Some ino \<and> start_cluster ino = c)"
    using assms(1) by (simp add: wf_inodes_def)
  have n: "start_cluster ino \<noteq> c" if "inodes fs a = Some ino" for a ino
    using that m[of "start_cluster ino" a] assms(2) by auto
  define fs' where "fs' = fs\<lparr>start_cluster_to_inode := (start_cluster_to_inode fs)(c \<mapsto> fresh_inode fs),
      inodes := (inodes fs)(fresh_inode fs \<mapsto> \<lparr>ino_id = n, ino_rc = 0, ino_size = sz, is_directory = dir,
                                             start_cluster = c, ino_name = inode_name nm\<rparr>),
      fresh_inode := Suc (fresh_inode fs)\<rparr>"
  have "start_cluster_to_inode fs' c' = Some a \<longleftrightarrow> (\<exists>ino. inodes fs' a = Some ino \<and> start_cluster ino = c')" for c' a
    using m[of c' a] f n[of a] by (cases "a = fresh_inode fs"; cases "c' = c") (auto simp: fs'_def)
  moreover have "\<forall>a\<ge>fresh_inode fs'. inodes fs' a = None" using assms(1) by (simp add: fs'_def wf_inodes_def)
  ultimately have "wf_inodes fs'" unfolding wf_inodes_def by blast
  then show ?thesis using assms(2) f by (intro exI[of _ fs']) (simp add: new_inode_def fs'_def Let_def)
qed

lemma delete_inode_wf:
  assumes "wf_inodes fs" "delete_inode a fs = Some fs'"
  shows "wf_inodes fs'"
proof -
  obtain d where d: "inodes fs a = Some d" "start_cluster_to_inode fs (start_cluster d) = Some a"
      "fs' = fs\<lparr>start_cluster_to_inode := (start_cluster_to_inode fs)(start_cluster d := None),
               inodes := (inodes fs)(a := None)\<rparr>"
    using assms(2) by (auto simp: delete_inode_def bind_eq_Some_conv)
  have m: "\<And>c a. start_cluster_to_inode fs c = Some a \<longleftrightarrow> (\<exists>ino. inodes fs a = Some ino \<and> start_cluster ino = c)"
    using assms(1) by (simp add: wf_inodes_def)
  have "start_cluster_to_inode fs' c = Some b \<longleftrightarrow> (\<exists>ino. inodes fs' b = Some ino \<and> start_cluster ino = c)" for c b
    using m[of c b] d by (cases "b = a"; cases "c = start_cluster d") auto
  moreover have "\<forall>b\<ge>fresh_inode fs'. inodes fs' b = None" using assms(1) d by (simp add: wf_inodes_def)
  ultimately show ?thesis unfolding wf_inodes_def by blast
qed

text \<open>
  C15. Looking up a name in a directory. With clusters of one page, a chain of clusters that the file
  allocation table links, and either an entry of that name or a terminator in them, \<^verbatim>\<open>lookup\<close> returns: the
  first entry with the name, in directory order, among those before the terminator that are neither
  deleted nor long-name entries, gives the inode registered for its cluster or a new one with its size
  and kind; without such an entry the result is \<^verbatim>\<open>FileNotFound\<close>. There stays one inode for a cluster.
\<close>

theorem fat_lookup:
  assumes "one_page_clusters fs" "wf_inodes fs" "inodes fs a = Some d" "is_directory d"
    and "cluster_chain dev fs cs" "cs \<noteq> []" "hd cs = start_cluster d" "list_all2 (dir_page dev fs) cs pgs"
    and "es = concat (map (\<lambda>pg. entries_from pg 0 128) pgs)"
    and "found = List.find (\<lambda>e. sv_eq (convert_normal_to_8_3_filename name) (short_filename e)) (live_entries es)"
    and "found \<noteq> None \<or> (\<exists>e\<in>set es. terminator e)"
  shows "\<exists>r fs'. lookup dev a name fs = Some (r, fs') \<and> wf_inodes fs' \<and>
           (case found of
              None \<Rightarrow> r = Inl () \<and> fs' = fs
            | Some e \<Rightarrow> \<exists>i ino. r = Inr i \<and> inodes fs' i = Some ino \<and> start_cluster ino = dirent_cluster e \<and>
                (start_cluster_to_inode fs (dirent_cluster e) = Some i \<and> fs' = fs \<or>
                 inodes fs i = None \<and> ino_size ino = file_sz_bytes e \<and>
                 (is_directory ino \<longleftrightarrow> subdir (attr e))))"
proof -
  have it: "iterate_dir dev fs (start_cluster d)
      (\<lambda>e. sv_eq (convert_normal_to_8_3_filename name) (short_filename e)) = Some found"
    using iterate_dir_spec[OF assms(1,5,8,6,9)] assms(7,10,11) by simp
  show ?thesis
  proof (cases found)
    case None
    then show ?thesis using it assms(2-4) by (simp add: lookup_def)
  next
    case (Some e)
    then have "e \<in> set es" using assms(10) live_subset by (metis (no_types, lifting) find_Some_iff nth_mem subsetD)
    then obtain pg c where "e \<in> set (entries_from pg 0 128)" "dir_page dev fs c pg"
      using assms(8,9) by (auto simp: list_all2_conv_all_nth in_set_conv_nth) (metis nth_mem)
    then obtain nm where nm: "convert_8_3_to_normal_filename (short_filename e) = Some nm"
      using entries_name_length convert_8_3_returns by (metis dir_page_def)
    show ?thesis
    proof (cases "start_cluster_to_inode fs (dirent_cluster e)")
      case None
      let ?fs = "fs\<lparr>next_inode := next_inode fs + 1\<rparr>"
      have "wf_inodes ?fs" "start_cluster_to_inode ?fs (dirent_cluster e) = None"
        using assms(2) None by (simp_all add: wf_inodes_def)
      from new_inode_spec[OF this, of "next_inode fs" "file_sz_bytes e" "subdir (attr e)" nm]
      show ?thesis using it assms(3,4) None Some nm by (auto simp: lookup_def)
    next
      case (Some i)
      then obtain ino where "inodes fs i = Some ino" "start_cluster ino = dirent_cluster e"
        using assms(2) by (auto simp: wf_inodes_def)
      then show ?thesis using it assms(2-4) Some \<open>found = Some e\<close> by (simp add: lookup_def)
    qed
  qed
qed

text \<open>A filesystem with one directory that holds one file.\<close>

definition demo_entry :: "u8 list" where
  "demo_entry = map of_char ''INIT    ELF'' @ replicate 15 0 @ [5, 0] @ [7, 0, 0, 0]"

definition demo_page :: "u8 list" where "demo_page = demo_entry @ replicate 4064 0"

definition demo_dev :: device where "demo_dev off = (if off = 51200 then Some demo_page else None)"

definition demo_fs :: filesystem where
  "demo_fs = \<lparr>fs_bytes_per_sector = 512, fs_sectors_per_cluster = 8, dir_entries_per_cluster = 128,
     fat_offset_lba = 50, data_region_offset_lba = 100, fs_root_dir_start_cluster = 2, next_inode = 1,
     start_cluster_to_inode = [2 \<mapsto> 0],
     inodes = [0 \<mapsto> \<lparr>ino_id = 0, ino_rc = 0, ino_size = 0, is_directory = True, start_cluster = 2,
                     ino_name = replicate 12 0\<rparr>],
     fresh_inode = 1\<rparr>"

lemma demo_decoded:
  "read_DirectoryEntry demo_entry =
     \<lparr>short_filename = map of_char ''INIT    ELF'', attr = 0, vfat_case = 0, created_time_fine = 0,
      created_time = 0, created_date = 0, access_date = 0, cluster_hi = 0, modified_time = 0,
      modified_date = 0, cluster_lo = 5, file_sz_bytes = 7\<rparr>"
  by code_simp

lemma read_DirectoryEntry_append: "length bs = 32 \<Longrightarrow> read_DirectoryEntry (bs @ rest) = read_DirectoryEntry bs"
  by (simp add: read_DirectoryEntry_def byte_array_def field_def)

lemma demo_first: "read_DirectoryEntry demo_page = read_DirectoryEntry demo_entry"
  unfolding demo_page_def by (rule read_DirectoryEntry_append) (simp add: demo_entry_def)

lemma demo_find:
  "List.find (\<lambda>e. sv_eq (convert_normal_to_8_3_filename (map of_char ''INIT.ELF'')) (short_filename e))
     (live_entries (concat (map (\<lambda>pg. entries_from pg 0 128) [demo_page]))) = Some (read_DirectoryEntry demo_entry)"
proof -
  have "sv_eq (convert_normal_to_8_3_filename (map of_char ''INIT.ELF'')) (map of_char ''INIT    ELF'')"
    by code_simp
  moreover have "hd (map of_char ''INIT    ELF'') = (73 :: u8)" by (simp add: of_char_def)
  ultimately show ?thesis using entries_from_Suc[of demo_page 0 127] demo_first
    by (simp add: live_entries_def terminator_def demo_decoded)
qed

theorem fat_lookup_witness:
  "\<exists>i fs' ino. lookup demo_dev 0 (map of_char ''INIT.ELF'') demo_fs = Some (Inr i, fs') \<and> wf_inodes fs' \<and>
     inodes fs' i = Some ino \<and> start_cluster ino = 5"
proof -
  have 1: "one_page_clusters demo_fs" "wf_inodes demo_fs" "cluster_chain demo_dev demo_fs [2]"
    by (simp_all add: one_page_clusters_def demo_fs_def wf_inodes_def)
  have 2: "inodes demo_fs 0 = Some \<lparr>ino_id = 0, ino_rc = 0, ino_size = 0, is_directory = True, start_cluster = 2,
      ino_name = replicate 12 0\<rparr>" by (simp add: demo_fs_def)
  have 3: "list_all2 (dir_page demo_dev demo_fs) [2] [demo_page]"
    by (simp add: dir_page_def demo_dev_def cluster_offset_def demo_fs_def demo_page_def demo_entry_def)
  have "dirent_cluster (read_DirectoryEntry demo_entry) = 5" by (simp add: demo_decoded dirent_cluster_def)
  then show ?thesis
    using fat_lookup[OF 1(1,2) 2 _ 1(3) _ _ 3 refl demo_find[symmetric]] by fastforce
qed

section \<open>File offsets\<close>

lemma dev_offset_chain:
  assumes "one_page_clusters fs" "cluster_chain dev fs cs" "k < length cs" "k * 4096 < 2 ^ 64"
  shows "dev_offset_loop dev fs (of_nat (k * 4096)) (hd cs) = Some (cs ! k)"
  using assms(2-4)
proof (induction k arbitrary: cs)
  case 0
  then show ?case by (subst dev_offset_loop.simps) (cases cs; simp)
next
  case (Suc k)
  then obtain c c' cs' where cs: "cs = c # c' # cs'" by (cases cs; cases "tl cs") auto
  then have a: "advance_cluster dev fs c = Some c'" "cluster_chain dev fs (c' # cs')" using Suc.prems(1) by auto
  have u: "unat (of_nat (Suc k * 4096) :: u64) = Suc k * 4096" using Suc.prems(3) by (intro unat_of_nat_small) simp
  then have "(of_nat (Suc k * 4096) :: u64) > 0" by (simp add: word_less_nat_alt)
  moreover have "of_nat (Suc k * 4096) - ucast (fs_sectors_per_cluster fs) * 512 = (of_nat (k * 4096) :: u64)"
    using assms(1) by (simp add: one_page_clusters_def)
  moreover have "dev_offset_loop dev fs (of_nat (k * 4096)) c' = Some ((c' # cs') ! k)"
    using Suc.IH[OF a(2)] Suc.prems cs by simp
  ultimately show ?case using a(1) cs by (subst dev_offset_loop.simps) simp
qed

lemma get_dev_offset_chain:
  assumes "one_page_clusters fs" "\<not> is_directory ino" "cluster_chain dev fs cs" "cs \<noteq> []" "hd cs = start_cluster ino"
    and "k < length cs" "k * 4096 < unat (ino_size ino)" "unat (cluster_offset fs (cs ! k)) < 2 ^ 32"
  shows "get_dev_offset dev fs ino (of_nat (k * 4096)) = Some (cluster_offset fs (cs ! k))"
proof -
  have k: "k * 4096 < 2 ^ 32" using assms(7) unat_lt_u32[of "ino_size ino"] by simp
  then have u: "unat (of_nat (k * 4096) :: u64) = k * 4096" by (intro unat_of_nat_small) simp
  have "PG_ALIGNED (of_nat (k * 4096) :: u64)"
    using and_mask_eq_0_iff[of "of_nat (k * 4096) :: u64" 12] u by (simp add: PG_ALIGNED_def mask_numeral)
  moreover have "PG_ALIGNED (ucast (fs_sectors_per_cluster fs) * 512 :: u32)"
    using assms(1) by (simp add: one_page_clusters_def PG_ALIGNED_def)
  moreover have "\<not> of_nat (k * 4096) \<ge> (ucast (ino_size ino) :: u64)"
    using u assms(7) by (simp add: word_le_nat_alt)
  moreover have "dev_offset_loop dev fs (of_nat (k * 4096)) (start_cluster ino) = Some (cs ! k)"
    using dev_offset_chain[OF assms(1,3,6)] k assms(5) by simp
  moreover define s where "s = data_region_offset_lba fs + (cs ! k - 2) * ucast (fs_sectors_per_cluster fs)"
  have "unat (ucast s * 512 :: u64) = unat s * 512" using unat_lt_u32[of s] by (simp add: unat_word_ariths)
  then have "unat s * 512 < 2 ^ 32" using assms(8) by (simp add: cluster_offset_def s_def)
  then have "ucast (s * 512) = (ucast s * 512 :: u64)"
    using unat_lt_u32[of s] by (simp add: word_unat_eq_iff unat_word_ariths)
  ultimately show ?thesis using assms(2)
    by (simp add: get_dev_offset_def cluster_offset_def s_def del: of_nat_mult)
qed

definition demo_fat :: device where
  "demo_fat off = (if off = 24576 then Some (replicate 1044 0 @ [6, 0, 0, 0] @ replicate 3048 0) else None)"

definition demo_file :: fat_inode where
  "demo_file = \<lparr>ino_id = 1, ino_rc = 1, ino_size = 5000, is_directory = False, start_cluster = 5, ino_name = []\<rparr>"

lemma unat_sub_mod:
  fixes x y :: u64
  assumes "d dvd 2 ^ 64" "unat y mod d = 0"
  shows "unat (x - y) mod d = unat x mod d"
proof (cases "y \<le> x")
  case True
  then have "unat x = unat (x - y) + unat y" by (simp add: unat_sub_no_wrap word_le_nat_alt)
  then show ?thesis using assms(2) by (metis add.right_neutral mod_add_right_eq)
next
  case False
  then have "unat (x - y) + unat y = unat x + 2 ^ 64"
    using unat_lt_u64[of y] by (simp add: unat_sub_if' word_le_nat_alt)
  then show ?thesis using assms by (metis add.right_neutral mod_add_right_eq dvd_imp_mod_0)
qed

lemma cluster_size_divides:
  fixes s :: u8
  assumes "unat s = 2 ^ j"
  shows "512 * unat s dvd 2 ^ 64" "unat (ucast s * 512 :: u64) = 512 * unat s"
proof -
  have lt: "unat s < 256" using unsigned_less[where 'a = nat and 'b = 8, of s] by simp
  then show "unat (ucast s * 512 :: u64) = 512 * unat s" by (simp add: unat_word_ariths unat_ucast_mod)
  have "(2 :: nat) ^ j < 2 ^ 8" using lt assms by simp
  then have "j < 8" by (rule power_less_imp_less_exp[rotated]) simp
  then show "512 * unat s dvd 2 ^ 64" using assms le_imp_power_dvd[of "9 + j" 64 "2 :: nat"] by (simp add: power_add)
qed

lemma dev_offset_loop_multiple:
  assumes "dev_offset_loop dev fs off c = Some r" "unat (fs_sectors_per_cluster fs) = 2 ^ j"
  shows "unat off mod (512 * unat (fs_sectors_per_cluster fs)) = 0"
proof -
  have "unat (fs_sectors_per_cluster fs) = 2 ^ j \<longrightarrow> unat off mod (512 * unat (fs_sectors_per_cluster fs)) = 0"
  proof (rule dev_offset_loop.raw_induct[OF _ assms(1), where P = "\<lambda>dev fs off c r.
      unat (fs_sectors_per_cluster fs) = 2 ^ j \<longrightarrow> unat off mod (512 * unat (fs_sectors_per_cluster fs)) = 0"], intro impI)
    fix loop :: "device \<Rightarrow> filesystem \<Rightarrow> u64 \<Rightarrow> u32 \<Rightarrow> u32 option" and dev and fs :: filesystem and off c r
    let ?y = "ucast (fs_sectors_per_cluster fs) * 512 :: u64"
    assume IH: "\<And>dev (fs :: filesystem) off c r. loop dev fs off c = Some r \<Longrightarrow>
        unat (fs_sectors_per_cluster fs) = 2 ^ j \<longrightarrow> unat off mod (512 * unat (fs_sectors_per_cluster fs)) = 0"
      and body: "(if 0 < off then advance_cluster dev fs c \<bind> loop dev fs (off - ?y) else Some c) = Some r"
      and j: "unat (fs_sectors_per_cluster fs) = 2 ^ j"
    show "unat off mod (512 * unat (fs_sectors_per_cluster fs)) = 0"
    proof (cases "off > 0")
      case True
      then obtain c' where "loop dev fs (off - ?y) c' = Some r" using body by (auto simp: bind_eq_Some_conv)
      then have "unat (off - ?y) mod (512 * unat (fs_sectors_per_cluster fs)) = 0" using IH j by blast
      then show ?thesis using unat_sub_mod[OF cluster_size_divides(1)[OF j], of ?y off] cluster_size_divides(2)[OF j] by simp
    next
      case False
      then show ?thesis by (simp add: word_gt_0)
    qed
  qed
  then show ?thesis using assms(2) by simp
qed

text \<open>
  C36. With clusters larger than a page a file cannot be read past its first page: for a page of the file
  that does not start a cluster the walk subtracts the cluster size below zero, the offset wraps, and
  \<^verbatim>\<open>get_dev_offset\<close> never returns a result; it runs until an assertion stops the machine or forever.
\<close>

theorem large_cluster_offset_wraps:
  assumes "unat (fs_sectors_per_cluster fs) = 2 ^ j" "\<not> is_directory ino" "PG_ALIGNED off"
    and "unat off < unat (ino_size ino)" "unat off mod (512 * unat (fs_sectors_per_cluster fs)) \<noteq> 0"
  shows "get_dev_offset dev fs ino off = None"
proof (rule ccontr)
  assume "get_dev_offset dev fs ino off \<noteq> None"
  then obtain v where "get_dev_offset dev fs ino off = Some v" by blast
  moreover have "\<not> off \<ge> ucast (ino_size ino)" using assms(4) by (simp add: word_le_nat_alt)
  ultimately obtain c where "dev_offset_loop dev fs off (start_cluster ino) = Some c"
    using assms(2,3) by (auto simp: get_dev_offset_def bind_eq_Some_conv)
  from dev_offset_loop_multiple[OF this assms(1)] assms(5) show False by contradiction
qed

theorem large_cluster_offset_wraps_witness:
  "get_dev_offset demo_fat (demo_fs\<lparr>fs_sectors_per_cluster := 16\<rparr>) demo_file 4096 = None"
  by (rule large_cluster_offset_wraps[where j = 4]) (simp_all add: demo_file_def PG_ALIGNED_def)

text \<open>
  C37. Names in directory entries. A name of at most eight characters and an extension of at most three,
  without blanks and without a dot in the name, survives the conversion to the padded form and back.
\<close>

theorem filename_round_trip:
  assumes "length base \<le> 8" "0x20 \<notin> set base" "0x2E \<notin> set base" "length ext \<le> 3" "0x20 \<notin> set ext" "ext \<noteq> []"
  shows "convert_8_3_to_normal_filename (convert_normal_to_8_3_filename (base @ 0x2E # ext)) =
           Some (base @ 0x2E # ext @ replicate (12 - length base - length ext) 0) \<and>
         convert_8_3_to_normal_filename (convert_normal_to_8_3_filename base) =
           Some (base @ replicate (13 - length base) 0)"
  using assms normal_to_8_3[of base ext] normal_of_8_3[of base ext] normal_of_8_3[of base "[]"] by simp

theorem filename_round_trip_witness:
  "convert_8_3_to_normal_filename (convert_normal_to_8_3_filename [0x61, 0x2E, 0x62]) =
     Some ([0x61, 0x2E, 0x62] @ replicate 10 0)"
  using filename_round_trip[of "[0x61]" "[0x62]"] by simp

text \<open>
  The start cluster of a directory entry is assembled with a shift by 2 where its upper half stands 16
  bits higher: every entry with a nonzero upper half gets the wrong cluster.
\<close>

theorem high_cluster_lost:
  assumes "cluster_hi e \<noteq> 0"
  shows "dirent_cluster e \<noteq> push_bit 16 (ucast (cluster_hi e)) OR ucast (cluster_lo e)"
proof
  assume eq: "dirent_cluster e = push_bit 16 (ucast (cluster_hi e)) OR ucast (cluster_lo e)"
  define h where "h = cluster_hi e"
  have b: "bit h n \<longleftrightarrow> bit h (n + 14)" if "n < 16" for n
  proof -
    have "bit (dirent_cluster e) (n + 16) = bit (push_bit 16 (ucast (cluster_hi e)) OR ucast (cluster_lo e) :: u32) (n + 16)"
      using eq by simp
    moreover have "\<not> bit (cluster_lo e) (n + 16)" by (auto dest: bit_imp_le_length)
    ultimately show ?thesis using that by (simp add: dirent_cluster_def h_def bit_simps add.commute)
  qed
  have "\<not> bit h n" for n
  proof (cases "n < 16")
    case True
    then show ?thesis using b[of n] b[of "n + 14"] by (cases "n < 2") (auto dest: bit_imp_le_length)
  qed (auto dest: bit_imp_le_length)
  then have "h = 0" by (intro bit_word_eqI) simp
  then show False using assms by (simp add: h_def)
qed

theorem high_cluster_lost_witness:
  "dirent_cluster ((read_DirectoryEntry demo_entry)\<lparr>cluster_hi := 1\<rparr>) \<noteq> 0x10005"
  using high_cluster_lost[of "(read_DirectoryEntry demo_entry)\<lparr>cluster_hi := 1\<rparr>"] by (simp add: demo_decoded)

end
