(* ===== verification/Vfs.thy ===== *)
theory Vfs
  imports Fat32_Files
begin

text \<open>
  The virtual filesystem: \<^verbatim>\<open>src/src/kernel/fs/vfs.h\<close>, \<^verbatim>\<open>src/src/kernel/fs/vfs.cc\<close> and \<^verbatim>\<open>src/src/kernel/fs/result.h\<close>, over
  the FAT32 driver. Dentries and inodes are named by numbers, their addresses, which are never reused;
  the children of a dentry are the list of its sibling list and the dentry hash table is a map. The
  characters of path components are nonzero, since paths come from C strings.
\<close>

section \<open>Definitions\<close>

datatype result =
  Ok | Unsupported | InvalidArgs | IsDirectory | IsFile | FileNotFound | BadFD | NonExecutable | MappingExists

definition result_to_str :: "result \<Rightarrow> string" where
  "result_to_str res =
     (case res of
        Ok \<Rightarrow> ''Ok''
      | Unsupported \<Rightarrow> ''Unsupported''
      | InvalidArgs \<Rightarrow> ''InvalidArgs''
      | IsDirectory \<Rightarrow> ''IsDirectory''
      | IsFile \<Rightarrow> ''IsFile''
      | FileNotFound \<Rightarrow> ''FileNotFound''
      | BadFD \<Rightarrow> ''BadFD''
      | NonExecutable \<Rightarrow> ''NonExecutable''
      | MappingExists \<Rightarrow> ''MappingExists'')"

subsection \<open>Reading a file\<close>

text \<open>The page of a file, through the page cache.\<close>

definition page_lease :: "device \<Rightarrow> filesystem \<Rightarrow> fat_inode \<Rightarrow> u64 \<Rightarrow> u8 list option" where
  "page_lease dev fs ino offset = do { off \<leftarrow> get_dev_offset dev fs ino offset; dev off }"

function read_loop :: "device \<Rightarrow> filesystem \<Rightarrow> fat_inode \<Rightarrow> u32 \<Rightarrow> u64 \<Rightarrow> u8 list \<Rightarrow> u8 list option" where
  "read_loop dev fs ino cnt pg_it buf =
     (if cnt = 0 then Some buf
      else do {
        let bytes_to_copy = min PG_SZ cnt;
        pg \<leftarrow> page_lease dev fs ino pg_it;
        read_loop dev fs ino (cnt - bytes_to_copy) (pg_it + ucast PG_SZ) (buf @ take (unat bytes_to_copy) pg)
      })"
  by auto
termination
proof (relation "measure (\<lambda>(dev, fs, ino, cnt, pg_it, buf). unat cnt)")
  fix dev fs ino and cnt :: u32 and pg_it :: u64 and buf x pg
  assume "cnt \<noteq> 0" "x = min PG_SZ cnt"
  then have "x \<le> cnt" "0 < unat x" by (auto simp: min_def memdefs unat_gt_0)
  then show "((dev, fs, ino, cnt - x, pg_it + ucast PG_SZ, buf @ take (unat x) pg), dev, fs, ino, cnt, pg_it, buf)
      \<in> measure (\<lambda>(dev, fs, ino, cnt, pg_it, buf). unat cnt)"
    using word_le_nat_alt[of x cnt] by (simp add: unat_sub_no_wrap)
qed simp

declare read_loop.simps [simp del]

text \<open>The bytes copied to the buffer, the value returned and the result; a directory returns \<open>- 1\<close>.\<close>

definition inode_read ::
    "device \<Rightarrow> filesystem \<Rightarrow> fat_inode \<Rightarrow> u32 \<Rightarrow> u32 \<Rightarrow> result \<Rightarrow> (u8 list \<times> 32 word \<times> result) option" where
  "inode_read dev fs ino offset cnt res =
     (if is_directory ino then Some ([], - 1, IsDirectory)
      else if offset \<ge> ino_size ino \<or> cnt = 0 then Some ([], 0, res)
      else do {
        let cnt = min cnt (ino_size ino - offset);
        let pg_it = floor_pow2 4096 (ucast offset);
        (cnt, pg_it, buf) \<leftarrow>
          (if pg_it \<noteq> ucast offset then do {
             pg \<leftarrow> page_lease dev fs ino pg_it;
             let bytes_to_copy = min (PG_SZ - offset mod PG_SZ) cnt;
             Some (cnt - bytes_to_copy, pg_it + ucast PG_SZ,
                   take (unat bytes_to_copy) (drop (unat (offset mod PG_SZ)) pg))
           }
           else Some (cnt, pg_it, []));
        buf \<leftarrow> read_loop dev fs ino cnt pg_it buf;
        Some (buf, of_nat (length buf), res)
      })"

subsection \<open>Dentries\<close>

record dentry =
  d_inode :: nat
  d_parent :: "nat option"
  d_children :: "nat list"
  d_component :: string_view
  in_hashtable :: bool
  to_unlink :: bool
  d_rc :: u32

record vfs =
  vfs_fs :: filesystem
  dentries :: "nat \<rightharpoonup> dentry"
  fresh_dentry :: nat
  dcache_lookup :: "(nat \<times> string_view) \<rightharpoonup> nat"
  root :: nat

definition inode_inc_rc :: "nat \<Rightarrow> filesystem \<Rightarrow> filesystem option" where
  "inode_inc_rc a fs = do {
     ino \<leftarrow> inodes fs a;
     Some (fs\<lparr>inodes := (inodes fs)(a \<mapsto> ino\<lparr>ino_rc := ino_rc ino + 1\<rparr>)\<rparr>)
   }"

definition inode_dec_rc :: "nat \<Rightarrow> filesystem \<Rightarrow> filesystem option" where
  "inode_dec_rc a fs = do {
     ino \<leftarrow> inodes fs a;
     ASSERT (ino_rc ino \<noteq> 0);
     let fs = fs\<lparr>inodes := (inodes fs)(a \<mapsto> ino\<lparr>ino_rc := ino_rc ino - 1\<rparr>)\<rparr>;
     if ino_rc ino - 1 = 0 then delete_inode a fs else Some fs
   }"

definition upd_dentry :: "nat \<Rightarrow> (dentry \<Rightarrow> dentry) \<Rightarrow> vfs \<Rightarrow> vfs option" where
  "upd_dentry d f v = do { x \<leftarrow> dentries v d; Some (v\<lparr>dentries := (dentries v)(d \<mapsto> f x)\<rparr>) }"

definition dentry_inc_rc :: "nat \<Rightarrow> vfs \<Rightarrow> vfs option" where
  "dentry_inc_rc d v = upd_dentry d (\<lambda>x. x\<lparr>d_rc := d_rc x + 1\<rparr>) v"

definition new_dentry :: "nat option \<Rightarrow> nat \<Rightarrow> string_view \<Rightarrow> vfs \<Rightarrow> (nat \<times> vfs) option" where
  "new_dentry parent inode component v = do {
     let d = fresh_dentry v;
     let v = v\<lparr>dentries := (dentries v)(d \<mapsto> \<lparr>d_inode = inode, d_parent = parent, d_children = [],
                 d_component = component, in_hashtable = False, to_unlink = False, d_rc = 0\<rparr>),
               fresh_dentry := Suc d\<rparr>;
     v \<leftarrow> (case parent of
             None \<Rightarrow> Some v
           | Some p \<Rightarrow> do {
               v \<leftarrow> dentry_inc_rc p v;
               v \<leftarrow> upd_dentry p (\<lambda>x. x\<lparr>d_children := d_children x @ [d]\<rparr>) v;
               ASSERT (dcache_lookup v (p, component) = None);
               let v = v\<lparr>dcache_lookup := (dcache_lookup v)((p, component) \<mapsto> d)\<rparr>;
               upd_dentry d (\<lambda>x. x\<lparr>in_hashtable := True\<rparr>) v
             });
     fs \<leftarrow> inode_inc_rc inode (vfs_fs v);
     Some (d, v\<lparr>vfs_fs := fs\<rparr>)
   }"

text \<open>\<^verbatim>\<open>dec_rc\<close> with the destructor that runs when the count reaches zero, which drops the count of the parent.\<close>

partial_function (option) dentry_dec_rc :: "nat \<Rightarrow> vfs \<Rightarrow> vfs option" where
  "dentry_dec_rc d v = do {
     x \<leftarrow> dentries v d;
     ASSERT (d_rc x \<noteq> 0);
     v \<leftarrow> upd_dentry d (\<lambda>x. x\<lparr>d_rc := d_rc x - 1\<rparr>) v;
     if d_rc x - 1 \<noteq> 0 then Some v
     else do {
       ASSERT (d_children x = []);
       fs \<leftarrow> inode_dec_rc (d_inode x) (vfs_fs v);
       let v = v\<lparr>vfs_fs := fs\<rparr>;
       v \<leftarrow> (case d_parent x of
               None \<Rightarrow> Some v
             | Some p \<Rightarrow> do {
                 v \<leftarrow> upd_dentry p (\<lambda>y. y\<lparr>d_children := remove1 d (d_children y)\<rparr>) v;
                 v \<leftarrow> dentry_dec_rc p v;
                 if in_hashtable x then do {
                   ASSERT (dcache_lookup v (p, d_component x) = Some d);
                   Some (v\<lparr>dcache_lookup := (dcache_lookup v)((p, d_component x) := None)\<rparr>)
                 }
                 else Some v
               });
       Some (v\<lparr>dentries := (dentries v)(d := None)\<rparr>)
     }
   }"

declare dentry_dec_rc.simps [code]

text \<open>The root dentry of the filesystem is created with the table still empty, and is referenced once.\<close>

definition vfs_init :: "filesystem \<Rightarrow> vfs option" where
  "vfs_init root_fs = do {
     (ino, fs) \<leftarrow> get_root_inode root_fs;
     (d, v) \<leftarrow> new_dentry None ino (map of_char ''<root>'')
       \<lparr>vfs_fs = fs, dentries = Map.empty, fresh_dentry = 0, dcache_lookup = Map.empty, root = 0\<rparr>;
     v \<leftarrow> dentry_inc_rc d v;
     Some (v\<lparr>root := d\<rparr>)
   }"

subsection \<open>Path lookup\<close>

text \<open>\<open>None\<close> in the value is the null pointer, with the result that says why.\<close>

partial_function (option) lookup_loop ::
    "device \<Rightarrow> string_view \<Rightarrow> nat \<Rightarrow> vfs \<Rightarrow> result \<Rightarrow> (nat option \<times> vfs \<times> result) option" where
  "lookup_loop dev path it v res =
     (if sv_empty path then Some (Some it, v, res)
      else do {
        (component, path) \<leftarrow> left_partition_path path;
        if sv_empty component \<or> sv_eq component [0x2E] then lookup_loop dev path it v res
        else if sv_eq component [0x2E, 0x2E] then do {
          x \<leftarrow> dentries v it;
          lookup_loop dev path (case d_parent x of None \<Rightarrow> it | Some p \<Rightarrow> p) v res
        }
        else case dcache_lookup v (it, component) of
          Some d \<Rightarrow> lookup_loop dev path d v res
        | None \<Rightarrow> do {
            x \<leftarrow> dentries v it;
            (r, fs) \<leftarrow> lookup dev (d_inode x) component (vfs_fs v);
            let res = (case r of Inl _ \<Rightarrow> FileNotFound | Inr _ \<Rightarrow> res);
            ASSERT ((case r of Inl _ \<Rightarrow> True | Inr _ \<Rightarrow> False) \<noteq> (res = Ok));
            case r of
              Inl _ \<Rightarrow> Some (None, v\<lparr>vfs_fs := fs\<rparr>, res)
            | Inr inode \<Rightarrow> do {
                (d, v) \<leftarrow> new_dentry (Some it) inode component (v\<lparr>vfs_fs := fs\<rparr>);
                lookup_loop dev path d v res
              }
          }
      })"

declare lookup_loop.simps [code]

definition pathname_lookup ::
    "device \<Rightarrow> string_view \<Rightarrow> vfs \<Rightarrow> result \<Rightarrow> (nat option \<times> vfs \<times> result) option" where
  "pathname_lookup dev path v res = lookup_loop dev path (root v) v res"

end
