(* ===== verification/Elf.thy ===== *)
theory Elf
  imports Vfs
begin

text \<open>
  The parser of executables: \<^verbatim>\<open>src/src/kernel/proc/elf.h\<close> and \<^verbatim>\<open>src/src/kernel/proc/elf.cc\<close>. The image is the
  prefix of the file that the loader has read; a pointer into it is its offset from the start of the img.
\<close>

section \<open>Definitions\<close>

record ELFHeader =
  e_magic :: u32
  e_class :: u8
  e_endian :: u8
  e_version :: u8
  e_os_abi :: u8
  e_abi_version :: u8
  e_rsv0 :: "56 word"
  e_type :: u16
  e_machine :: u16
  e_version2 :: u32
  e_entry :: u32
  e_phoff :: u32
  e_shoff :: u32
  e_flags :: u32
  e_ehsize :: u16
  e_phentsize :: u16
  e_phnum :: u16
  e_shentsize :: u16
  e_shnum :: u16
  e_shstrndx :: u16

definition expected_magic :: u32 where "expected_magic = 0x464C457F"

definition expected_ehsize :: u16 where "expected_ehsize = 0x34"

definition expected_phentsize :: u16 where "expected_phentsize = 0x20"

definition expected_shentsize :: u16 where "expected_shentsize = 0x28"

definition read_ELFHeader :: "u8 list \<Rightarrow> ELFHeader" where
  "read_ELFHeader bs =
     \<lparr>e_magic = field 0 4 bs, e_class = field 4 1 bs, e_endian = field 5 1 bs, e_version = field 6 1 bs,
      e_os_abi = field 7 1 bs, e_abi_version = field 8 1 bs, e_rsv0 = field 9 7 bs, e_type = field 16 2 bs,
      e_machine = field 18 2 bs, e_version2 = field 20 4 bs, e_entry = field 24 4 bs, e_phoff = field 28 4 bs,
      e_shoff = field 32 4 bs, e_flags = field 36 4 bs, e_ehsize = field 40 2 bs, e_phentsize = field 42 2 bs,
      e_phnum = field 44 2 bs, e_shentsize = field 46 2 bs, e_shnum = field 48 2 bs, e_shstrndx = field 50 2 bs\<rparr>"

definition validate :: "ELFHeader \<Rightarrow> bool" where
  "validate h \<longleftrightarrow>
     e_magic h = expected_magic \<and> e_class h = 1 \<and> e_endian h = 1 \<and> e_version h = 1 \<and> e_os_abi h = 0 \<and>
     e_type h = 2 \<and> e_machine h = 3 \<and> e_ehsize h = expected_ehsize \<and> e_phentsize h = expected_phentsize \<and>
     e_shentsize h = expected_shentsize \<and> e_entry h \<noteq> 0"

record PHEntry =
  ph_type :: u32
  ph_offset :: u32
  ph_vaddr :: u32
  ph_paddr :: u32
  ph_filesz :: u32
  ph_memsz :: u32
  ph_flags :: u32
  ph_align :: u32

definition PH_Load :: u32 where "PH_Load = 1"

definition ph_executable :: "PHEntry \<Rightarrow> bool" where "ph_executable e \<longleftrightarrow> bit (ph_flags e) 0"

definition ph_writable :: "PHEntry \<Rightarrow> bool" where "ph_writable e \<longleftrightarrow> bit (ph_flags e) 1"

definition ph_readable :: "PHEntry \<Rightarrow> bool" where "ph_readable e \<longleftrightarrow> bit (ph_flags e) 2"

definition read_PHEntry :: "u8 list \<Rightarrow> PHEntry" where
  "read_PHEntry bs =
     \<lparr>ph_type = field 0 4 bs, ph_offset = field 4 4 bs, ph_vaddr = field 8 4 bs, ph_paddr = field 12 4 bs,
      ph_filesz = field 16 4 bs, ph_memsz = field 20 4 bs, ph_flags = field 24 4 bs, ph_align = field 28 4 bs\<rparr>"

text \<open>The pointer \<^verbatim>\<open>ph_table\<close> stays uninitialised when the header is not valid.\<close>

record ELFExecutable =
  exe_hdr :: ELFHeader
  exe_ph_table :: "u32 option"

definition parse_executable :: "string_view \<Rightarrow> (result \<times> ELFExecutable) option" where
  "parse_executable elf_image = do {
     ASSERT (sv_size elf_image \<ge> ucast expected_ehsize);
     let hdr = read_ELFHeader elf_image;
     if \<not> validate hdr then Some (NonExecutable, \<lparr>exe_hdr = hdr, exe_ph_table = None\<rparr>)
     else do {
       ASSERT (sv_size elf_image \<ge> e_phoff hdr + ucast (e_phnum hdr) * ucast (e_phentsize hdr));
       Some (Ok, \<lparr>exe_hdr = hdr, exe_ph_table = Some (e_phoff hdr)\<rparr>)
     }
   }"

text \<open>The \<open>i\<close>-th entry of the table at offset \<open>off\<close>; \<open>None\<close> is a read outside of the image.\<close>

definition ph_entry :: "u8 list \<Rightarrow> u32 \<Rightarrow> nat \<Rightarrow> PHEntry option" where
  "ph_entry img off i =
     (if unat off + 32 * i + 32 \<le> length img then Some (read_PHEntry (drop (unat off + 32 * i) img)) else None)"

section \<open>The program header table\<close>

lemma unat_lt_u16: "unat (x :: u16) < 65536"
  using unsigned_less[where 'a = nat and 'b = 16, of x] by simp

lemma unat_ph_end:
  assumes "validate h"
  shows "unat (e_phoff h + ucast (e_phnum h) * ucast (e_phentsize h)) = (unat (e_phoff h) + 32 * unat (e_phnum h)) mod 2 ^ 32"
proof -
  have "e_phentsize h = 0x20" using assms by (simp add: validate_def expected_phentsize_def)
  then have "unat (ucast (e_phnum h) * ucast (e_phentsize h) :: u32) = 32 * unat (e_phnum h)"
    using unat_lt_u16[of "e_phnum h"] by (simp add: unat_word_ariths unat_ucast_mod)
  then show ?thesis by (simp add: unat_word_ariths)
qed

text \<open>The end of the table is below \<open>2 ^ 33\<close>, so it wraps around at most once.\<close>

lemma wrap_once:
  assumes "(x :: nat) < 2 * m" "l < m"
  shows "x mod m \<le> l \<longleftrightarrow> x \<le> l \<or> m \<le> x \<and> x - m \<le> l"
proof (cases "x < m")
  case False
  then have "x mod m = x - m" using assms(1) by (simp add: mod_if)
  then show ?thesis using False assms(2) by auto
qed (use assms(2) in auto)

lemma ph_entries_in_image:
  assumes "0 < n"
  shows "unat off + 32 * n \<le> length img \<longleftrightarrow> (\<forall>i < n. ph_entry img off i \<noteq> None)"
proof
  assume "\<forall>i < n. ph_entry img off i \<noteq> None"
  then have "ph_entry img off (n - 1) \<noteq> None" using assms by simp
  then have "unat off + 32 * (n - 1) + 32 \<le> length img" by (simp add: ph_entry_def split: if_splits)
  then show "unat off + 32 * n \<le> length img" using assms by (cases n) auto
qed (auto simp: ph_entry_def)

definition demo_elf :: "u32 \<Rightarrow> u8 list" where
  "demo_elf off = [0x7F, 0x45, 0x4C, 0x46, 1, 1, 1, 0, 0, 0, 0, 0, 0, 0, 0, 0, 2, 0, 3, 0, 1, 0, 0, 0, 0, 0x80, 4, 8,
     ucast off, ucast (drop_bit 8 off), ucast (drop_bit 16 off), ucast (drop_bit 24 off),
     0, 0, 0, 0, 0, 0, 0, 0, 52, 0, 32, 0, 1, 0, 40, 0, 0, 0, 0, 0]"

section \<open>Claims\<close>

text \<open>
  C38. What the parser does with an image of at most a page. It halts on an image shorter than a header;
  it refuses a header that is not valid; otherwise it accepts exactly when the end of the program header
  table, computed modulo 2^32, lies in the image, and halts if not. Without wrap-around this is exact: a
  nonempty table is accepted iff each of its entries lies in the image. A table whose end wraps around is
  accepted as well when the wrapped end lies in the image, although not even its first entry does.
\<close>

theorem ph_table_bounds:
  assumes "length img \<le> 4096"
  shows "let h = read_ELFHeader img; off = e_phoff h; n = unat (e_phnum h); end = unat off + 32 * n in
    parse_executable img =
      (if length img < 52 then None
       else if \<not> validate h then Some (NonExecutable, \<lparr>exe_hdr = h, exe_ph_table = None\<rparr>)
       else if end \<le> length img \<or> 2 ^ 32 \<le> end \<and> end - 2 ^ 32 \<le> length img
       then Some (Ok, \<lparr>exe_hdr = h, exe_ph_table = Some off\<rparr>)
       else None) \<and>
    (0 < n \<longrightarrow> (end \<le> length img \<longleftrightarrow> (\<forall>i < n. ph_entry img off i \<noteq> None))) \<and>
    (2 ^ 32 \<le> end \<longrightarrow> ph_entry img off 0 = None)"
proof -
  define h where "h = read_ELFHeader img"
  define end' where "end' = unat (e_phoff h) + 32 * unat (e_phnum h)"
  have n: "unat (e_phnum h) < 65536" by (rule unat_lt_u16)
  have off: "unat (e_phoff h) < 2 ^ 32" using unat_lt_u32[of "e_phoff h"] by simp
  have sz: "unat (sv_size img) = length img" using assms by (simp add: sv_size_def unat_of_nat_small)
  have big: "ucast expected_ehsize \<le> sv_size img \<longleftrightarrow> \<not> length img < 52"
    using sz by (auto simp: word_le_nat_alt expected_ehsize_def)
  have chk: "e_phoff h + ucast (e_phnum h) * ucast (e_phentsize h) \<le> sv_size img \<longleftrightarrow>
      end' \<le> length img \<or> 2 ^ 32 \<le> end' \<and> end' - 2 ^ 32 \<le> length img" if "validate h"
    using wrap_once[of end' "2 ^ 32" "length img"] n off assms
    by (simp only: word_le_nat_alt unat_ph_end[OF that] sz end'_def) simp
  have "parse_executable img =
      (if length img < 52 then None
       else if \<not> validate h then Some (NonExecutable, \<lparr>exe_hdr = h, exe_ph_table = None\<rparr>)
       else if end' \<le> length img \<or> 2 ^ 32 \<le> end' \<and> end' - 2 ^ 32 \<le> length img
       then Some (Ok, \<lparr>exe_hdr = h, exe_ph_table = Some (e_phoff h)\<rparr>) else None)"
    unfolding parse_executable_def h_def[symmetric] Let_def using chk by (simp add: big ASSERT_def)
  moreover have "ph_entry img (e_phoff h) 0 = None" if "2 ^ 32 \<le> end'"
    using that n assms by (simp add: ph_entry_def end'_def)
  ultimately show ?thesis
    unfolding Let_def h_def[symmetric] end'_def[symmetric]
    using ph_entries_in_image[of "unat (e_phnum h)" "e_phoff h" img] by (simp add: end'_def)
qed

lemma demo_elf_header:
  assumes "off \<in> {52, 0xFFFFFFE0}"
  shows "read_ELFHeader (demo_elf off @ xs) =
     \<lparr>e_magic = 0x464C457F, e_class = 1, e_endian = 1, e_version = 1, e_os_abi = 0, e_abi_version = 0, e_rsv0 = 0,
      e_type = 2, e_machine = 3, e_version2 = 1, e_entry = 0x08048000, e_phoff = off, e_shoff = 0, e_flags = 0,
      e_ehsize = 52, e_phentsize = 32, e_phnum = 1, e_shentsize = 40, e_shnum = 0, e_shstrndx = 0\<rparr>"
  using assms by (auto simp: read_ELFHeader_def demo_elf_def Fat32.field_def)

lemma demo_elf_validate: "off \<in> {52, 0xFFFFFFE0} \<Longrightarrow> validate (read_ELFHeader (demo_elf off @ xs))"
  unfolding demo_elf_header
  by (simp add: validate_def expected_magic_def expected_ehsize_def expected_phentsize_def expected_shentsize_def)

theorem ph_table_bounds_witness:
  "(\<exists>exe. parse_executable (demo_elf 52 @ replicate 32 0) = Some (Ok, exe)) \<and>
   ph_entry (demo_elf 52 @ replicate 32 0) 52 0 \<noteq> None \<and>
   parse_executable (demo_elf 52 @ replicate 31 0) = None \<and>
   (\<exists>exe. parse_executable (demo_elf 0xFFFFFFE0) = Some (Ok, exe)) \<and> ph_entry (demo_elf 0xFFFFFFE0) 0xFFFFFFE0 0 = None"
proof -
  have l: "length (demo_elf off) = 52" for off by (simp add: demo_elf_def)
  note v = demo_elf_validate[of 52] demo_elf_validate[of "0xFFFFFFE0" "[]"]
  note h = demo_elf_header[of 52] demo_elf_header[of "0xFFFFFFE0" "[]"]
  show ?thesis
    using ph_table_bounds[of "demo_elf 52 @ replicate 32 0"] ph_table_bounds[of "demo_elf 52 @ replicate 31 0"]
      ph_table_bounds[of "demo_elf 0xFFFFFFE0"] v h
    by (simp add: l Let_def)
qed

end
