(* ===== verification/Page_Cache.thy ===== *)
theory Page_Cache
  imports Lru Virtual_Memory Vfs
begin

text \<open>
  The page cache: \<^verbatim>\<open>src/src/kernel/fs/page_cache.cc\<close> and \<^verbatim>\<open>src/src/kernel/fs/page_cache.h\<close>, the LRU cache over the
  memory of the machine. \<open>devs\<close> gives the contents of the block devices by their address; reading a page of
  a device writes it to physical memory. The world of the LRU cache is the memory, \<open>None\<close> once an
  assertion in a callback has failed.
\<close>

section \<open>Definitions\<close>

record PageCacheKey =
  key_dev :: ptr
  key_offset :: u64

text \<open>The page is the index of its descriptor.\<close>

record PageCacheEntry =
  entry_page :: nat

type_synonym 'h page_cache = "(PageCacheKey, PageCacheEntry, 'h mmu option) lru_cache"

text \<open>The effect of \<^verbatim>\<open>BlockDevice::read_page_direct\<close>: whether the device could be read, and the memory.\<close>

definition read_page_direct :: "device \<Rightarrow> u64 \<Rightarrow> u64 \<Rightarrow> 'h mmu \<Rightarrow> bool \<times> 'h mmu" where
  "read_page_direct dev paddr off s =
     (case dev off of
        None \<Rightarrow> (False, s)
      | Some bs \<Rightarrow>
          (True, s\<lparr>pmem := \<lambda>i. if unat paddr div 4 \<le> i \<and> i < unat paddr div 4 + 1024
                              then Fat32.field (4 * (i - unat paddr div 4)) 4 bs else pmem s i\<rparr>))"

definition fetch_page ::
  "('h \<Rightarrow> (ptr \<times> 'h) option) \<Rightarrow> (ptr \<Rightarrow> device) \<Rightarrow> PageCacheKey \<Rightarrow> 'h mmu \<Rightarrow> (PageCacheEntry \<times> 'h mmu) option" where
  "fetch_page newp devs k s = do {
     (pg, h') \<leftarrow> newp (pages s);
     ASSERT (pg \<noteq> 0);
     paddr \<leftarrow> hhdm_to_direct pg;
     let (ok, s) = read_page_direct (devs (key_dev k)) paddr (key_offset k) (s\<lparr>pages := h'\<rparr>);
     ASSERT ok;
     Some (\<lparr>entry_page = pfd_idx paddr\<rparr>, s)
   }"

definition populate_cache ::
  "('h \<Rightarrow> (ptr \<times> 'h) option) \<Rightarrow> (ptr \<Rightarrow> device) \<Rightarrow> PageCacheKey \<Rightarrow> 'h mmu option \<Rightarrow> PageCacheEntry \<times> 'h mmu option" where
  "populate_cache newp devs k w =
     (case w \<bind> fetch_page newp devs k of
        None \<Rightarrow> (\<lparr>entry_page = 0\<rparr>, None)
      | Some (e, s) \<Rightarrow> (e, Some s))"

text \<open>The cache with its temporary buffer, and the state of the I/O window that the buffer is taken from.\<close>

definition cache_init :: "PageCacheKey option links \<Rightarrow> size_t \<Rightarrow> ('h page_cache \<times> ptr \<times> size_t) option" where
  "cache_init ls io_region_offset = do {
     let cache = LRUCache None ls;
     let (buf, io_region_offset) = io_alloc 1 io_region_offset;
     ASSERT (buf \<noteq> 0);
     Some (cache, buf, io_region_offset)
   }"

definition cache_get ::
  "('h \<Rightarrow> (ptr \<times> 'h) option) \<Rightarrow> (ptr \<Rightarrow> device) \<Rightarrow> PageCacheKey \<Rightarrow> 'h page_cache \<Rightarrow> 'h mmu
     \<Rightarrow> (PageCacheKey lease \<times> 'h page_cache \<times> 'h mmu) option" where
  "cache_get newp devs k cache s = do {
     (l, cache) \<leftarrow> lru_get (populate_cache newp devs) k True (cache\<lparr>world := Some s\<rparr>);
     s \<leftarrow> world cache;
     Some (l, cache, s)
   }"

definition cache_get_inode ::
  "('h \<Rightarrow> (ptr \<times> 'h) option) \<Rightarrow> (ptr \<Rightarrow> device) \<Rightarrow> ptr \<Rightarrow> filesystem \<Rightarrow> fat_inode \<Rightarrow> u64 \<Rightarrow> 'h page_cache \<Rightarrow> 'h mmu
     \<Rightarrow> (PageCacheKey lease \<times> 'h page_cache \<times> 'h mmu) option" where
  "cache_get_inode newp devs d fs ino offset cache s = do {
     off \<leftarrow> get_dev_offset (devs d) fs ino offset;
     cache_get newp devs \<lparr>key_dev = d, key_offset = off\<rparr> cache s
   }"

definition VirtLease ::
  "('h \<Rightarrow> (ptr \<times> 'h) option) \<Rightarrow> (ptr \<Rightarrow> device) \<Rightarrow> ptr \<Rightarrow> PageCacheKey \<Rightarrow> 'h page_cache \<Rightarrow> 'h mmu
     \<Rightarrow> (PageCacheKey lease \<times> 'h page_cache \<times> 'h mmu) option" where
  "VirtLease newp devs buf k cache s = do {
     (l, cache, s) \<leftarrow> cache_get newp devs k cache s;
     e \<leftarrow> lease_value cache l;
     (ok, s) \<leftarrow> map_page newp (get_paddr (entry_page e)) buf False True False s;
     ASSERT ok;
     Some (l, cache, s)
   }"

definition delete_VirtLease ::
  "ptr \<Rightarrow> PageCacheKey lease \<Rightarrow> 'h page_cache \<Rightarrow> 'h mmu \<Rightarrow> ('h page_cache \<times> 'h mmu) option" where
  "delete_VirtLease buf l cache s = do {
     (_, s) \<leftarrow> unmap buf s;
     cache \<leftarrow> lease_drop l cache;
     Some (cache, s)
   }"

end
