(* ===== verification/Vfs_Paths.thy ===== *)
theory Vfs_Paths
  imports Vfs
begin

text \<open>
  Correctness of the virtual filesystem: reading returns the contents of a file, the loop over a path is a
  walk over its components, and the walk keeps the tree of dentries, its hash table and the reference
  counts consistent and returns the dentry of the normalised path.
\<close>

section \<open>Contents of a file\<close>

text \<open>The pages of a regular file, one for each cluster of its chain.\<close>

definition file_pages :: "device \<Rightarrow> filesystem \<Rightarrow> fat_inode \<Rightarrow> u32 list \<Rightarrow> u8 list list \<Rightarrow> bool" where
  "file_pages dev fs ino cs pgs \<longleftrightarrow>
     one_page_clusters fs \<and> \<not> is_directory ino \<and> cs \<noteq> [] \<and> hd cs = start_cluster ino \<and> cluster_chain dev fs cs \<and>
     list_all2 (dir_page dev fs) cs pgs \<and> unat (ino_size ino) \<le> 4096 * length cs"

lemma page_lease_spec:
  assumes "file_pages dev fs ino cs pgs" "k * 4096 < unat (ino_size ino)"
  shows "page_lease dev fs ino (of_nat (k * 4096)) = Some (pgs ! k)" "length (pgs ! k) = 4096" "k < length pgs"
proof -
  have k: "k < length cs" using assms by (simp add: file_pages_def)
  then show "k < length pgs" using assms(1) by (auto simp: file_pages_def dest: list_all2_lengthD)
  have p: "dir_page dev fs (cs ! k) (pgs ! k)" using assms(1) k by (auto simp: file_pages_def list_all2_nthD)
  then show "length (pgs ! k) = 4096" by (simp add: dir_page_def)
  have "get_dev_offset dev fs ino (of_nat (k * 4096)) = Some (cluster_offset fs (cs ! k))"
    by (rule get_dev_offset_chain) (use assms p k in \<open>auto simp: file_pages_def dir_page_def\<close>)
  then show "page_lease dev fs ino (of_nat (k * 4096)) = Some (pgs ! k)"
    using p by (simp add: page_lease_def dir_page_def)
qed

lemma concat_pages:
  assumes "\<forall>pg\<in>set pgs. length pg = n"
  shows "drop (k * n) (concat pgs) = concat (drop k pgs)"
  using assms
proof (induction pgs arbitrary: k)
  case (Cons pg pgs)
  then show ?case by (cases k) auto
qed simp

lemma pages_length: "file_pages dev fs ino cs pgs \<Longrightarrow> \<forall>pg\<in>set pgs. length pg = 4096"
  by (auto simp: file_pages_def dir_page_def list_all2_conv_all_nth in_set_conv_nth)

lemma drop_pages:
  assumes "file_pages dev fs ino cs pgs" "k < length pgs" "r \<le> 4096"
  shows "drop (k * 4096 + r) (concat pgs) = drop r (pgs ! k) @ drop (Suc k * 4096) (concat pgs)"
proof -
  have l: "\<forall>pg\<in>set pgs. length pg = 4096" using assms(1) by (rule pages_length)
  have "drop (k * 4096) (concat pgs) = pgs ! k @ concat (drop (Suc k) pgs)"
    using concat_pages[OF l, of k] assms(2) by (simp add: Cons_nth_drop_Suc[symmetric])
  moreover have "length (pgs ! k) = 4096" using l assms(2) by simp
  ultimately show ?thesis using concat_pages[OF l, of "Suc k"] assms(3)
    by (simp add: drop_drop[symmetric] add.commute[of "k * 4096"])
qed

lemma read_loop_spec:
  assumes "file_pages dev fs ino cs pgs" "k * 4096 + unat cnt \<le> unat (ino_size ino)"
  shows "read_loop dev fs ino cnt (of_nat (k * 4096)) buf = Some (buf @ take (unat cnt) (drop (k * 4096) (concat pgs)))"
  using assms(2)
proof (induction "unat cnt" arbitrary: cnt k buf rule: less_induct)
  case less
  show ?case
  proof (cases "cnt = 0")
    case True
    then show ?thesis by (simp add: read_loop.simps)
  next
    case False
    define n where "n = min PG_SZ cnt"
    have un: "unat n = min 4096 (unat cnt)" by (simp add: n_def min_def memdefs word_le_nat_alt)
    have "0 < unat cnt" using False by (simp add: unat_gt_0)
    then have k: "k * 4096 < unat (ino_size ino)" using less.prems by linarith
    note pg = page_lease_spec[OF assms(1) k]
    have d: "unat (cnt - n) = unat cnt - unat n" using un by (simp add: unat_sub_no_wrap word_le_nat_alt)
    have e: "of_nat (k * 4096) + ucast PG_SZ = (of_nat (Suc k * 4096) :: u64)" by (simp add: memdefs)
    have "read_loop dev fs ino (cnt - n) (of_nat (Suc k * 4096)) (buf @ take (unat n) (pgs ! k)) =
        Some ((buf @ take (unat n) (pgs ! k)) @ take (unat (cnt - n)) (drop (Suc k * 4096) (concat pgs)))"
    proof (cases "unat (cnt - n) = 0")
      case True
      then have "cnt - n = 0" by (simp only: unat_eq_zero)
      then show ?thesis by (simp add: read_loop.simps)
    next
      case f: False
      show ?thesis by (rule less.hyps) (use f d un less.prems \<open>0 < unat cnt\<close> in auto)
    qed
    moreover have "take (unat n) (pgs ! k) @ take (unat (cnt - n)) (drop (Suc k * 4096) (concat pgs)) =
        take (unat cnt) (drop (k * 4096) (concat pgs))"
      using drop_pages[OF assms(1) pg(3), of 0] pg(2) un d by (auto simp: min_def)
    ultimately show ?thesis using False pg(1) e
      by (subst read_loop.simps) (simp add: n_def[symmetric] add.commute del: of_nat_mult of_nat_Suc)
  qed
qed

lemma take_drop_cut: "take c (drop off (take n xs)) = take (min c (n - off)) (drop off xs)"
  by (simp add: drop_take min.commute)

lemma floor_page: "floor_pow2 4096 (ucast (offset :: u32)) = of_nat (unat offset div 4096 * 4096)"
proof -
  have "unat (floor_pow2 4096 (ucast offset)) = unat offset div 4096 * 4096"
    using unat_floor_mask[of "ucast offset :: u64" 12] by (simp add: floor_pow2_def mask_numeral)
  moreover have "unat (of_nat (unat offset div 4096 * 4096) :: u64) = unat offset div 4096 * 4096"
    using unat_lt_u32[of offset] by (intro unat_of_nat_small) simp
  ultimately show ?thesis by (simp only: word_unat_eq_iff)
qed

lemma aligned_page: "of_nat (unat offset div 4096 * 4096) = (ucast (offset :: u32) :: u64) \<longleftrightarrow> unat offset mod 4096 = 0"
proof -
  have "unat (of_nat (unat offset div 4096 * 4096) :: u64) = unat offset div 4096 * 4096"
    using unat_lt_u32[of offset] by (intro unat_of_nat_small) simp
  moreover have "unat (ucast offset :: u64) = unat offset" by simp
  moreover have "x div 4096 * 4096 = x \<longleftrightarrow> x mod 4096 = 0" for x :: nat
    by (metis add.right_neutral add_left_cancel div_mult_mod_eq)
  ultimately show ?thesis by (simp only: word_unat_eq_iff)
qed

text \<open>The walk of a read over the pages, with the offsets as numbers.\<close>

lemma inode_read_unfold:
  fixes offset :: u32
  assumes "\<not> is_directory ino" "offset < ino_size ino" "cnt \<noteq> 0"
    and "c = min cnt (ino_size ino - offset)" "k = unat offset div 4096" "r = unat offset mod 4096"
  shows "inode_read dev fs ino offset cnt res = do {
      (cnt, pg_it, buf) \<leftarrow>
        (if r \<noteq> 0 then do {
           pg \<leftarrow> page_lease dev fs ino (of_nat (k * 4096));
           let b = min (PG_SZ - offset mod PG_SZ) c;
           Some (c - b, of_nat (Suc k * 4096), take (unat b) (drop r pg))
         }
         else Some (c, of_nat (k * 4096), []));
      buf \<leftarrow> read_loop dev fs ino cnt pg_it buf;
      Some (buf, of_nat (length buf), res)
    }"
proof -
  have ur: "unat (offset mod PG_SZ) = r" using assms(6) by (simp add: memdefs unat_mod_distrib)
  have e: "of_nat (k * 4096) + ucast PG_SZ = (of_nat (Suc k * 4096) :: u64)" by (simp add: memdefs)
  have "\<not> ino_size ino \<le> offset" using assms(2) by (simp add: not_le)
  then show ?thesis
    using assms(1,3) aligned_page[of offset]
    by (simp add: inode_read_def floor_page ur e Let_def assms(4)[symmetric] assms(5)[symmetric] assms(6)[symmetric]
          del: of_nat_mult of_nat_Suc)
qed

lemma pages_cover: "file_pages dev fs ino cs pgs \<Longrightarrow> unat (ino_size ino) \<le> length (concat pgs)"
  using pages_length[of dev fs ino cs pgs]
  by (auto simp: file_pages_def length_concat sum_list_triv dest: list_all2_lengthD cong: map_cong)

lemma inode_read_spec:
  assumes "file_pages dev fs ino cs pgs"
    and "offset < ino_size ino" "cnt \<noteq> 0" "n = min (unat cnt) (unat (ino_size ino) - unat offset)"
  shows "inode_read dev fs ino offset cnt res = Some (take n (drop (unat offset) (concat pgs)), of_nat n, res)"
proof -
  define c where "c = min cnt (ino_size ino - offset)"
  define k where "k = unat offset div 4096"
  define r where "r = unat offset mod 4096"
  have o: "unat offset < unat (ino_size ino)" using assms(2) by (simp add: word_less_nat_alt)
  then have uc: "unat c = n" using assms(4) by (simp add: c_def min_def word_le_nat_alt unat_sub_no_wrap)
  have on: "unat offset + n \<le> unat (ino_size ino)" using o assms(4) by simp
  have kr: "unat offset = k * 4096 + r" "r < 4096" by (simp_all add: k_def r_def)
  have kp: "k * 4096 < unat (ino_size ino)" using o kr by simp
  note pg = page_lease_spec[OF assms(1) kp]
  have len: "length (take n (drop (unat offset) (concat pgs))) = n" using pages_cover[OF assms(1)] on by simp
  have nd: "\<not> is_directory ino" using assms(1) by (simp add: file_pages_def)
  note body = inode_read_unfold[OF nd assms(2,3) c_def k_def r_def, of dev fs res]
  show ?thesis
  proof (cases "r = 0")
    case True
    have "read_loop dev fs ino c (of_nat (k * 4096)) [] = Some (take n (drop (unat offset) (concat pgs)))"
      using read_loop_spec[OF assms(1), of k c "[]"] on kr True uc by simp
    then show ?thesis using body len True by (simp del: of_nat_mult)
  next
    case False
    define b where "b = min (PG_SZ - offset mod PG_SZ) c"
    have "unat (offset mod PG_SZ) = r" by (simp add: r_def memdefs unat_mod_distrib)
    then have "unat (PG_SZ - offset mod PG_SZ) = 4096 - r" using kr(2) by (simp add: unat_sub_no_wrap word_le_nat_alt memdefs)
    then have ub: "unat b = min (4096 - r) n" using uc by (simp add: b_def min_def word_le_nat_alt)
    have d: "unat (c - b) = n - unat b" using ub uc by (simp add: unat_sub_no_wrap word_le_nat_alt)
    have "read_loop dev fs ino (c - b) (of_nat (Suc k * 4096)) (take (unat b) (drop r (pgs ! k))) =
        Some (take (unat b) (drop r (pgs ! k)) @ take (unat (c - b)) (drop (Suc k * 4096) (concat pgs)))"
    proof (cases "c - b = 0")
      case f: False
      then have "0 < n - unat b" using d unat_gt_0[of "c - b"] by simp
      then show ?thesis by (intro read_loop_spec[OF assms(1)]) (use d ub on kr in simp)
    qed (simp add: read_loop.simps)
    moreover have "take (unat b) (drop r (pgs ! k)) @ take (unat (c - b)) (drop (Suc k * 4096) (concat pgs)) =
        take n (drop (unat offset) (concat pgs))"
      using drop_pages[OF assms(1) pg(3), of r] pg(2) kr ub d by (auto simp: min_def)
    ultimately show ?thesis using body len False pg(1) by (simp add: b_def[symmetric] del: of_nat_mult of_nat_Suc)
  qed
qed

text \<open>
  C5. Reading a file returns its contents: for a regular file whose chain of one-page clusters covers its
  size, \<^verbatim>\<open>Inode::read\<close> at any offset and for any count, aligned or not, returns exactly the bytes of the file
  from that offset, cut at the end of the file, and their number.
\<close>

theorem inode_read_contents:
  assumes "file_pages dev fs ino cs pgs" "contents = take (unat (ino_size ino)) (concat pgs)"
    and "bytes = take (unat cnt) (drop (unat offset) contents)"
  shows "inode_read dev fs ino offset cnt res = Some (bytes, of_nat (length bytes), res)"
proof (cases "offset < ino_size ino \<and> cnt \<noteq> 0")
  case True
  then have o: "unat offset < unat (ino_size ino)" by (simp add: word_less_nat_alt)
  have b: "bytes = take (min (unat cnt) (unat (ino_size ino) - unat offset)) (drop (unat offset) (concat pgs))"
    by (simp add: assms(2,3) take_drop_cut)
  then have "length bytes = min (unat cnt) (unat (ino_size ino) - unat offset)"
    using pages_cover[OF assms(1)] o by simp
  then show ?thesis using inode_read_spec[OF assms(1)] True b by simp
next
  case False
  then have "offset \<ge> ino_size ino \<or> cnt = 0" by auto
  moreover from this have "bytes = []" by (auto simp: assms(2,3) word_le_nat_alt)
  ultimately show ?thesis using assms(1) by (simp add: inode_read_def file_pages_def)
qed

definition demo_data :: device where
  "demo_data off = (if off = 63488 then Some (map of_char ''hello'' @ replicate 4091 0) else None)"

theorem inode_read_contents_witness:
  "inode_read demo_data demo_fs (demo_file\<lparr>ino_size := 5\<rparr>) 1 100 Ok = Some (map of_char ''ello'', 4, Ok)"
proof -
  have "file_pages demo_data demo_fs (demo_file\<lparr>ino_size := 5\<rparr>) [5] [map of_char ''hello'' @ replicate 4091 0]"
    by (simp add: file_pages_def one_page_clusters_def demo_fs_def demo_file_def dir_page_def cluster_offset_def demo_data_def)
  from inode_read_contents[OF this refl refl, of 1 100 Ok] show ?thesis by (simp add: demo_file_def)
qed

section \<open>Paths\<close>

text \<open>The components of a path, and the walk over them.\<close>

function components :: "string_view \<Rightarrow> string_view list" where
  "components path =
     (if path = [] then []
      else let c = takeWhile (\<lambda>x. x \<noteq> slash) path in c # components (drop (Suc (length c)) path))"
  by auto
termination by (relation "measure length") auto

declare components.simps [simp del]

definition lookup_step ::
    "device \<Rightarrow> string_view \<Rightarrow> nat \<Rightarrow> vfs \<Rightarrow> result \<Rightarrow> (nat option \<times> vfs \<times> result) option" where
  "lookup_step dev c it v res =
     (if c = [] \<or> c = [0x2E] then Some (Some it, v, res)
      else if c = [0x2E, 0x2E] then do {
        x \<leftarrow> dentries v it;
        Some (Some (case d_parent x of None \<Rightarrow> it | Some p \<Rightarrow> p), v, res)
      }
      else case dcache_lookup v (it, c) of
        Some d \<Rightarrow> Some (Some d, v, res)
      | None \<Rightarrow> do {
          x \<leftarrow> dentries v it;
          (r, fs) \<leftarrow> lookup dev (d_inode x) c (vfs_fs v);
          case r of
            Inl _ \<Rightarrow> Some (None, v\<lparr>vfs_fs := fs\<rparr>, FileNotFound)
          | Inr inode \<Rightarrow> do {
              ASSERT (res = Ok);
              (d, v) \<leftarrow> new_dentry (Some it) inode c (v\<lparr>vfs_fs := fs\<rparr>);
              Some (Some d, v, res)
            }
        })"

primrec walk ::
    "device \<Rightarrow> string_view list \<Rightarrow> nat \<Rightarrow> vfs \<Rightarrow> result \<Rightarrow> (nat option \<times> vfs \<times> result) option" where
  "walk dev [] it v res = Some (Some it, v, res)"
| "walk dev (c # cs) it v res = do {
     (r, v, res) \<leftarrow> lookup_step dev c it v res;
     case r of None \<Rightarrow> Some (None, v, res) | Some d \<Rightarrow> walk dev cs d v res
   }"

lemma dot_iff: "sv_eq c [0x2E] \<longleftrightarrow> c = [0x2E]" "sv_eq c [0x2E, 0x2E] \<longleftrightarrow> c = [0x2E, 0x2E]"
  by (simp_all add: sv_eq_iff)

lemma sv_empty_iff: "length s < 2 ^ 31 \<Longrightarrow> sv_empty s \<longleftrightarrow> s = []"
proof -
  assume "length s < 2 ^ 31"
  then have "unat (sv_size s) = length s" by (simp add: sv_size_def unat_of_nat_small)
  then show ?thesis by (auto simp: sv_empty_def sv_size_def)
qed

lemma lookup_loop_walk:
  "length path < 2 ^ 31 \<Longrightarrow> lookup_loop dev path it v res = walk dev (components path) it v res"
proof (induction path arbitrary: it v res rule: components.induct)
  case (1 path)
  show ?case
  proof (cases "path = []")
    case True
    then show ?thesis by (subst lookup_loop.simps) (simp add: sv_empty_def sv_size_def components.simps)
  next
    case False
    define c where "c = takeWhile (\<lambda>x. x \<noteq> slash) path"
    define rest where "rest = drop (Suc (length c)) path"
    have l: "length rest < 2 ^ 31" "length c < 2 ^ 31"
      using 1(2) length_takeWhile_le[of "\<lambda>x. x \<noteq> slash" path] by (simp_all add: rest_def c_def)
    have IH: "lookup_loop dev rest it v res = walk dev (components rest) it v res" for it v res
      using 1(1)[OF False c_def] l(1) by (simp add: rest_def)
    have p: "left_partition_path path = Some (c, rest)"
      using left_partition_path_spec[OF 1(2)] by (simp add: c_def rest_def)
    have "components path = c # components rest"
      using False by (subst components.simps) (simp add: c_def rest_def Let_def)
    moreover have "lookup_loop dev path it v res = do {
        (r, v, res) \<leftarrow> lookup_step dev c it v res;
        case r of None \<Rightarrow> Some (None, v, res) | Some d \<Rightarrow> walk dev (components rest) d v res
      }"
      using False sv_empty_iff[OF 1(2)] sv_empty_iff[OF l(2)]
      by (subst lookup_loop.simps)
        (auto simp: p IH dot_iff lookup_step_def bind_assoc split: option.splits sum.splits bind_splits)
    ultimately show ?thesis by simp
  qed
qed

section \<open>The dentry tree\<close>

definition children_of :: "vfs \<Rightarrow> nat \<Rightarrow> nat set" where
  "children_of v p = {d. \<exists>x. dentries v d = Some x \<and> d_parent x = Some p}"

definition users_of :: "vfs \<Rightarrow> nat \<Rightarrow> nat set" where
  "users_of v a = {d. \<exists>x. dentries v d = Some x \<and> d_inode x = a}"

text \<open>The parents form a tree below the root, and the hash table is the edge relation of the tree.\<close>

definition tree_inv :: "vfs \<Rightarrow> bool" where
  "tree_inv v \<longleftrightarrow>
     (\<exists>x. dentries v (root v) = Some x \<and> d_parent x = None) \<and>
     (\<forall>d x. dentries v d = Some x \<longrightarrow> d < fresh_dentry v \<and>
        (case d_parent x of None \<Rightarrow> d = root v | Some p \<Rightarrow> p < d \<and> dentries v p \<noteq> None \<and> in_hashtable x)) \<and>
     (\<forall>p c d. dcache_lookup v (p, c) = Some d \<longleftrightarrow>
        (\<exists>x. dentries v d = Some x \<and> d_parent x = Some p \<and> d_component x = c)) \<and>
     (\<forall>p y. dentries v p = Some y \<longrightarrow> distinct (d_children y) \<and> set (d_children y) = children_of v p)"

text \<open>A dentry counts its children and the references \<open>ext\<close> that files and mappings hold; the root is always held.\<close>

definition rc_inv :: "(nat \<Rightarrow> nat) \<Rightarrow> vfs \<Rightarrow> bool" where
  "rc_inv ext v \<longleftrightarrow>
     (\<forall>d x. dentries v d = Some x \<longrightarrow> unat (d_rc x) = length (d_children x) + ext d) \<and>
     (\<forall>d. 0 < ext d \<longrightarrow> dentries v d \<noteq> None) \<and> 0 < ext (root v)"

text \<open>An inode counts the dentries that name it.\<close>

definition inode_inv :: "vfs \<Rightarrow> bool" where
  "inode_inv v \<longleftrightarrow>
     wf_inodes (vfs_fs v) \<and>
     (\<forall>d x. dentries v d = Some x \<longrightarrow> inodes (vfs_fs v) (d_inode x) \<noteq> None) \<and>
     (\<forall>a ino. inodes (vfs_fs v) a = Some ino \<longrightarrow> unat (ino_rc ino) = card (users_of v a))"

definition vfs_inv :: "(nat \<Rightarrow> nat) \<Rightarrow> vfs \<Rightarrow> bool" where
  "vfs_inv ext v \<longleftrightarrow> tree_inv v \<and> rc_inv ext v \<and> inode_inv v"

lemma tree_invD:
  assumes "tree_inv v"
  shows "\<And>d x. dentries v d = Some x \<Longrightarrow> d < fresh_dentry v"
    and "\<And>d x p. dentries v d = Some x \<Longrightarrow> d_parent x = Some p \<Longrightarrow> p < d \<and> dentries v p \<noteq> None \<and> in_hashtable x"
    and "\<And>d x. dentries v d = Some x \<Longrightarrow> d_parent x = None \<Longrightarrow> d = root v"
    and "\<And>p c d. dcache_lookup v (p, c) = Some d \<longleftrightarrow>
        (\<exists>x. dentries v d = Some x \<and> d_parent x = Some p \<and> d_component x = c)"
    and "\<And>p y. dentries v p = Some y \<Longrightarrow> distinct (d_children y) \<and> set (d_children y) = children_of v p"
    and "\<exists>x. dentries v (root v) = Some x \<and> d_parent x = None"
    and "dentries v (fresh_dentry v) = None"
proof -
  show 1: "\<And>d x. dentries v d = Some x \<Longrightarrow> d < fresh_dentry v" using assms by (simp add: tree_inv_def)
  then show "dentries v (fresh_dentry v) = None" by (metis less_irrefl not_None_eq)
  show "\<And>d x p. dentries v d = Some x \<Longrightarrow> d_parent x = Some p \<Longrightarrow> p < d \<and> dentries v p \<noteq> None \<and> in_hashtable x"
    "\<And>d x. dentries v d = Some x \<Longrightarrow> d_parent x = None \<Longrightarrow> d = root v"
    using assms by (fastforce simp: tree_inv_def)+
  show "\<And>p c d. dcache_lookup v (p, c) = Some d \<longleftrightarrow>
        (\<exists>x. dentries v d = Some x \<and> d_parent x = Some p \<and> d_component x = c)"
    "\<And>p y. dentries v p = Some y \<Longrightarrow> distinct (d_children y) \<and> set (d_children y) = children_of v p"
    "\<exists>x. dentries v (root v) = Some x \<and> d_parent x = None"
    using assms unfolding tree_inv_def by blast+
qed

lemma finite_users: "tree_inv v \<Longrightarrow> finite (users_of v a) \<and> card (users_of v a) \<le> fresh_dentry v"
proof -
  assume t: "tree_inv v"
  have "users_of v a \<subseteq> {..<fresh_dentry v}" using tree_invD(1)[OF t] by (auto simp: users_of_def)
  then show ?thesis by (metis card_lessThan card_mono finite_lessThan finite_subset)
qed

text \<open>The state after a dentry for inode \<open>a\<close> was created below \<open>p\<close>.\<close>

definition with_dentry :: "nat \<Rightarrow> dentry \<Rightarrow> nat \<Rightarrow> fat_inode \<Rightarrow> string_view \<Rightarrow> vfs \<Rightarrow> vfs" where
  "with_dentry p y a ino c v =
     v\<lparr>fresh_dentry := Suc (fresh_dentry v),
       dcache_lookup := (dcache_lookup v)((p, c) \<mapsto> fresh_dentry v),
       dentries := (dentries v)(fresh_dentry v \<mapsto> \<lparr>d_inode = a, d_parent = Some p, d_children = [], d_component = c,
                                 in_hashtable = True, to_unlink = False, d_rc = 0\<rparr>,
                              p \<mapsto> y\<lparr>d_rc := d_rc y + 1, d_children := d_children y @ [fresh_dentry v]\<rparr>),
       vfs_fs := (vfs_fs v)\<lparr>inodes := (inodes (vfs_fs v))(a \<mapsto> ino\<lparr>ino_rc := ino_rc ino + 1\<rparr>)\<rparr>\<rparr>"

lemma new_dentry_eq:
  assumes "tree_inv v" "dentries v p = Some y" "dcache_lookup v (p, c) = None" "inodes (vfs_fs v) a = Some ino"
  shows "new_dentry (Some p) a c v = Some (fresh_dentry v, with_dentry p y a ino c v)"
proof -
  have "p \<noteq> fresh_dentry v" using tree_invD(7)[OF assms(1)] assms(2) by auto
  then show ?thesis using assms(2-4)
    by (simp add: with_dentry_def new_dentry_def dentry_inc_rc_def upd_dentry_def inode_inc_rc_def Let_def fun_upd_twist)
qed

lemma fresh_unused:
  assumes "tree_inv v"
  shows "fresh_dentry v \<notin> children_of v p" "fresh_dentry v \<notin> users_of v a"
    and "dentries v p = Some y \<Longrightarrow> p < fresh_dentry v"
  using tree_invD(7)[OF assms] tree_invD(1)[OF assms, of p y] by (simp_all add: children_of_def users_of_def)

definition new_child :: "nat \<Rightarrow> nat \<Rightarrow> string_view \<Rightarrow> dentry" where
  "new_child p a c = \<lparr>d_inode = a, d_parent = Some p, d_children = [], d_component = c,
     in_hashtable = True, to_unlink = False, d_rc = 0\<rparr>"

definition new_parent :: "nat \<Rightarrow> dentry \<Rightarrow> dentry" where
  "new_parent d y = y\<lparr>d_rc := d_rc y + 1, d_children := d_children y @ [d]\<rparr>"

lemma new_child_sel [simp]:
  "d_inode (new_child p a c) = a" "d_parent (new_child p a c) = Some p" "d_children (new_child p a c) = []"
  "d_component (new_child p a c) = c" "in_hashtable (new_child p a c)" "d_rc (new_child p a c) = 0"
  by (simp_all add: new_child_def)

lemma new_parent_sel [simp]:
  "d_inode (new_parent d y) = d_inode y" "d_parent (new_parent d y) = d_parent y"
  "d_children (new_parent d y) = d_children y @ [d]" "d_component (new_parent d y) = d_component y"
  "in_hashtable (new_parent d y) = in_hashtable y" "d_rc (new_parent d y) = d_rc y + 1"
  by (simp_all add: new_parent_def)

lemma with_dentry_sel [simp]:
  "fresh_dentry (with_dentry p y a ino c v) = Suc (fresh_dentry v)" "root (with_dentry p y a ino c v) = root v"
  "dcache_lookup (with_dentry p y a ino c v) = (dcache_lookup v)((p, c) \<mapsto> fresh_dentry v)"
  "vfs_fs (with_dentry p y a ino c v) =
     (vfs_fs v)\<lparr>inodes := (inodes (vfs_fs v))(a \<mapsto> ino\<lparr>ino_rc := ino_rc ino + 1\<rparr>)\<rparr>"
  by (simp_all add: with_dentry_def)

lemma with_dentry_dentries:
  assumes "tree_inv v" "dentries v p = Some y"
  shows "dentries (with_dentry p y a ino c v) p = Some (new_parent (fresh_dentry v) y)"
    and "dentries (with_dentry p y a ino c v) (fresh_dentry v) = Some (new_child p a c)"
    and "d \<noteq> p \<Longrightarrow> d \<noteq> fresh_dentry v \<Longrightarrow> dentries (with_dentry p y a ino c v) d = dentries v d"
  using fresh_unused(3)[OF assms] by (simp_all add: with_dentry_def new_child_def new_parent_def)

text \<open>Three kinds of dentries after the creation: the parent, the new one, and the others, unchanged.\<close>

lemma with_dentry_cases [consumes 3, case_names parent child other]:
  assumes "tree_inv v" "dentries v p = Some y" "dentries (with_dentry p y a ino c v) d = Some x"
  obtains "d = p" "d \<noteq> fresh_dentry v" "x = new_parent (fresh_dentry v) y"
    | "d = fresh_dentry v" "d \<noteq> p" "x = new_child p a c"
    | "d \<noteq> p" "d \<noteq> fresh_dentry v" "dentries v d = Some x"
  using with_dentry_dentries[OF assms(1,2), where a = a and ino = ino and c = c] assms(3) fresh_unused(3)[OF assms(1,2)]
  by (cases "d = p"; cases "d = fresh_dentry v") auto

lemma with_dentry_sets:
  assumes "tree_inv v" "dentries v p = Some y"
  shows "children_of (with_dentry p y a ino c v) q =
           (if q = p then insert (fresh_dentry v) (children_of v p) else children_of v q)"
    and "users_of (with_dentry p y a ino c v) b =
           (if b = a then insert (fresh_dentry v) (users_of v a) else users_of v b)"
proof -
  let ?w = "with_dentry p y a ino c v"
  note parts = with_dentry_dentries[OF assms, where a = a and ino = ino and c = c]
  have pf: "p \<noteq> fresh_dentry v" "dentries v (fresh_dentry v) = None"
    using fresh_unused(3)[OF assms] tree_invD(7)[OF assms(1)] by auto
  have d: "(d \<in> children_of ?w q \<longleftrightarrow> (if d = fresh_dentry v then q = p else d \<in> children_of v q)) \<and>
      (d \<in> users_of ?w b \<longleftrightarrow> (if d = fresh_dentry v then b = a else d \<in> users_of v b))" for d q b
  proof -
    consider "d = fresh_dentry v" | "d = p" | "d \<noteq> p" "d \<noteq> fresh_dentry v" by blast
    then show ?thesis
    proof cases
      case 1
      then show ?thesis using parts(2) by (auto simp: children_of_def users_of_def)
    next
      case 2
      then show ?thesis using parts(1) pf assms(2) by (auto simp: children_of_def users_of_def)
    next
      case 3
      then show ?thesis using parts(3) by (simp add: children_of_def users_of_def)
    qed
  qed
  show "children_of ?w q = (if q = p then insert (fresh_dentry v) (children_of v p) else children_of v q)"
    using d pf by (auto simp: children_of_def)
  show "users_of ?w b = (if b = a then insert (fresh_dentry v) (users_of v a) else users_of v b)"
    using d pf by (auto simp: users_of_def)
qed

lemma with_dentry_tree:
  assumes "tree_inv v" "dentries v p = Some y" "dcache_lookup v (p, c) = None"
  shows "tree_inv (with_dentry p y a ino c v)"
proof -
  let ?w = "with_dentry p y a ino c v"
  note inv = tree_invD[OF assms(1)]
  note at = with_dentry_dentries[OF assms(1,2), where a = a and ino = ino and c = c]
  have pf: "p < fresh_dentry v" by (rule fresh_unused(3)[OF assms(1,2)])
  have f: "dentries v (fresh_dentry v) = None" by (rule inv(7))
  have ex: "dentries ?w q \<noteq> None" if "dentries v q \<noteq> None" for q
    using that at f by (cases "q = p"; cases "q = fresh_dentry v") simp_all
  obtain rx where rx: "dentries v (root v) = Some rx" "d_parent rx = None" using inv(6) by blast
  have "\<exists>x. dentries ?w (root ?w) = Some x \<and> d_parent x = None"
    using rx assms(2) at f by (cases "root v = p"; cases "root v = fresh_dentry v") simp_all
  moreover have "d < fresh_dentry ?w \<and>
      (case d_parent x of None \<Rightarrow> d = root ?w | Some q \<Rightarrow> q < d \<and> dentries ?w q \<noteq> None \<and> in_hashtable x)"
    if "dentries ?w d = Some x" for d x
    using assms(1,2) that
  proof (cases rule: with_dentry_cases)
    case parent
    then show ?thesis using inv(1)[OF assms(2)] inv(2)[OF assms(2)] inv(3)[OF assms(2)] ex by (cases "d_parent y") auto
  next
    case child
    then show ?thesis using ex[of p] assms(2) pf by simp
  next
    case other
    then show ?thesis using inv(1)[OF other(3)] inv(2)[OF other(3)] inv(3)[OF other(3)] ex by (cases "d_parent x") auto
  qed
  moreover have "dcache_lookup ?w (q, b) = Some d \<longleftrightarrow>
      (\<exists>x. dentries ?w d = Some x \<and> d_parent x = Some q \<and> d_component x = b)" for q b d
  proof -
    have o: "dcache_lookup v (q, b) = Some d \<longleftrightarrow> (\<exists>x. dentries v d = Some x \<and> d_parent x = Some q \<and> d_component x = b)"
      by (rule inv(4))
    consider "d = fresh_dentry v" | "d = p" | "d \<noteq> p" "d \<noteq> fresh_dentry v" by blast
    then show ?thesis using o f assms(2,3) pf at by cases (auto split: if_splits)
  qed
  moreover have "distinct (d_children x) \<and> set (d_children x) = children_of ?w q" if "dentries ?w q = Some x" for q x
    using assms(1,2) that
  proof (cases rule: with_dentry_cases)
    case child
    have "children_of v (fresh_dentry v) = {}" using inv(2) f by (fastforce simp: children_of_def)
    then show ?thesis using child with_dentry_sets(1)[OF assms(1,2), of a ino c q] by simp
  qed (use inv(5) assms(2) with_dentry_sets(1)[OF assms(1,2), of a ino c q] fresh_unused(1)[OF assms(1)] in auto)
  ultimately show ?thesis unfolding tree_inv_def by blast
qed

lemma with_dentry_rc:
  assumes "tree_inv v" "rc_inv ext v" "dentries v p = Some y" "length (d_children y) + ext p < 2 ^ 32 - 1"
  shows "rc_inv ext (with_dentry p y a ino c v)"
proof -
  let ?w = "with_dentry p y a ino c v"
  note at = with_dentry_dentries[OF assms(1,3), where a = a and ino = ino and c = c]
  have f: "dentries v (fresh_dentry v) = None" by (rule tree_invD(7)[OF assms(1)])
  then have ef: "ext (fresh_dentry v) = 0" using assms(2) by (auto simp: rc_inv_def)
  have "unat (d_rc y) = length (d_children y) + ext p" using assms(2,3) by (simp add: rc_inv_def)
  then have y: "unat (d_rc y + 1) = Suc (length (d_children y) + ext p)" using assms(4) by (subst unat_add_no_wrap) simp_all
  have "unat (d_rc x) = length (d_children x) + ext d" if "dentries ?w d = Some x" for d x
    using assms(1,3) that by (cases rule: with_dentry_cases) (use y ef assms(2) in \<open>simp_all add: rc_inv_def\<close>)
  moreover have "dentries ?w d \<noteq> None" if "0 < ext d" for d
    using that assms(2) at by (cases "d = p"; cases "d = fresh_dentry v") (auto simp: rc_inv_def ef)
  ultimately show ?thesis using assms(2) by (simp add: rc_inv_def)
qed

lemma wf_inodes_upd_rc:
  assumes "wf_inodes fs" "inodes fs a = Some ino"
  shows "wf_inodes (fs\<lparr>inodes := (inodes fs)(a \<mapsto> ino\<lparr>ino_rc := r\<rparr>)\<rparr>)"
proof -
  have m: "start_cluster_to_inode fs c = Some b \<longleftrightarrow> (\<exists>i. inodes fs b = Some i \<and> start_cluster i = c)" for c b
    using assms(1) by (simp add: wf_inodes_def)
  have "a < fresh_inode fs" using assms by (metis not_le_imp_less option.distinct(1) wf_inodes_def)
  moreover have "(\<exists>i. ((inodes fs)(a \<mapsto> ino\<lparr>ino_rc := r\<rparr>)) b = Some i \<and> start_cluster i = c) \<longleftrightarrow>
      (\<exists>i. inodes fs b = Some i \<and> start_cluster i = c)" for b c
    using assms(2) by (cases "b = a") auto
  ultimately show ?thesis using assms(1) m by (simp add: wf_inodes_def)
qed

lemma with_dentry_inode:
  assumes "tree_inv v" "inode_inv v" "dentries v p = Some y" "inodes (vfs_fs v) a = Some ino"
    and "fresh_dentry v < 2 ^ 32 - 1"
  shows "inode_inv (with_dentry p y a ino c v)"
proof -
  let ?w = "with_dentry p y a ino c v"
  have u: "finite (users_of v a)" "card (users_of v a) \<le> fresh_dentry v" using finite_users[OF assms(1)] by auto
  note us = with_dentry_sets(2)[OF assms(1,3), of a ino c]
  have "unat (ino_rc ino) = card (users_of v a)" using assms(2,4) by (simp add: inode_inv_def)
  then have r: "unat (ino_rc ino + 1) = card (users_of ?w a)"
    using u assms(5) us[of a] fresh_unused(2)[OF assms(1)] by (subst unat_add_no_wrap) simp_all
  have "wf_inodes (vfs_fs ?w)" using assms(2,4) by (simp add: inode_inv_def wf_inodes_upd_rc)
  moreover have "inodes (vfs_fs ?w) (d_inode x) \<noteq> None" if "dentries ?w d = Some x" for d x
    using assms(1,3) that by (cases rule: with_dentry_cases) (use assms(2,3) in \<open>auto simp: inode_inv_def\<close>)
  moreover have "unat (ino_rc i) = card (users_of ?w b)" if "inodes (vfs_fs ?w) b = Some i" for b i
    using that r assms(2) us[of b] by (cases "b = a") (auto simp: inode_inv_def)
  ultimately show ?thesis unfolding inode_inv_def by blast
qed

lemma new_dentry_inv:
  assumes "vfs_inv ext v" "dentries v p = Some y" "dcache_lookup v (p, c) = None" "inodes (vfs_fs v) a = Some ino"
    and "fresh_dentry v < 2 ^ 31" "ext p < 2 ^ 31"
  shows "new_dentry (Some p) a c v = Some (fresh_dentry v, with_dentry p y a ino c v)"
    and "vfs_inv ext (with_dentry p y a ino c v)"
proof -
  have t: "tree_inv v" "rc_inv ext v" "inode_inv v" using assms(1) by (simp_all add: vfs_inv_def)
  show "new_dentry (Some p) a c v = Some (fresh_dentry v, with_dentry p y a ino c v)"
    by (rule new_dentry_eq[OF t(1) assms(2-4)])
  have "set (d_children y) \<subseteq> {..<fresh_dentry v}" "distinct (d_children y)"
    using tree_invD(5)[OF t(1) assms(2)] tree_invD(1)[OF t(1)] by (auto simp: children_of_def)
  then have "length (d_children y) \<le> fresh_dentry v"
    by (metis card_lessThan card_mono distinct_card finite_lessThan)
  then have "length (d_children y) + ext p < 2 ^ 32 - 1" using assms(5,6) by simp
  then show "vfs_inv ext (with_dentry p y a ino c v)"
    unfolding vfs_inv_def
    using with_dentry_tree[OF t(1) assms(2,3)] with_dentry_rc[OF t(1,2) assms(2)] with_dentry_inode[OF t(1,3) assms(2,4)]
      assms(5) by simp
qed

section \<open>Resolving paths\<close>

text \<open>The path of a dentry: the components from the root.\<close>

inductive at_path :: "vfs \<Rightarrow> nat \<Rightarrow> string_view list \<Rightarrow> bool" for v where
  at_root: "at_path v (root v) []"
| at_child: "at_path v p cs \<Longrightarrow> dentries v d = Some x \<Longrightarrow> d_parent x = Some p \<Longrightarrow> at_path v d (cs @ [d_component x])"

inductive_cases at_path_snocE: "at_path v d (cs @ [c])"

text \<open>Two dentries never have the same path.\<close>

lemma at_path_unique:
  assumes "tree_inv v" "at_path v d cs" "at_path v d' cs"
  shows "d = d'"
  using assms(2,3)
proof (induction arbitrary: d' rule: at_path.induct)
  case at_root
  then show ?case by (cases rule: at_path.cases) auto
next
  case (at_child p cs d x)
  from at_child.prems obtain p' x' where "at_path v p' cs" "dentries v d' = Some x'" "d_parent x' = Some p'"
      "d_component x' = d_component x"
    by (auto elim: at_path_snocE)
  moreover from this have "p = p'" using at_child.IH by blast
  ultimately have "dcache_lookup v (p, d_component x) = Some d" "dcache_lookup v (p, d_component x) = Some d'"
    using at_child.hyps tree_invD(4)[OF assms(1)] by metis+
  then show ?case by simp
qed

fun normalize :: "string_view list \<Rightarrow> string_view list \<Rightarrow> string_view list" where
  "normalize here [] = here"
| "normalize here (c # cs) =
     (if c = [] \<or> c = [0x2E] then normalize here cs
      else if c = [0x2E, 0x2E] then normalize (butlast here) cs
      else normalize (here @ [c]) cs)"

lemma lookup_effect:
  assumes "wf_inodes fs" "lookup dev a name fs = Some (r, fs')"
  shows "r = Inl () \<and> fs' = fs \<or>
    (\<exists>i ino. r = Inr i \<and> inodes fs' i = Some ino \<and> wf_inodes fs' \<and>
       (fs' = fs \<or> inodes fs i = None \<and> ino_rc ino = 0 \<and> inodes fs' = (inodes fs)(i \<mapsto> ino)))"
proof -
  obtain this found where 1: "inodes fs a = Some this" "is_directory this"
      "iterate_dir dev fs (start_cluster this)
         (\<lambda>it. sv_eq (convert_normal_to_8_3_filename name) (short_filename it)) = Some found"
    using assms(2) by (auto simp: lookup_def bind_eq_Some_conv)
  show ?thesis
  proof (cases found)
    case None
    then show ?thesis using 1 assms(2) by (auto simp: lookup_def)
  next
    case (Some e)
    show ?thesis
    proof (cases "start_cluster_to_inode fs (dirent_cluster e)")
      case None
      let ?fs = "fs\<lparr>next_inode := next_inode fs + 1\<rparr>"
      obtain nm i where n: "new_inode (next_inode fs) (dirent_cluster e) (file_sz_bytes e) (subdir (attr e)) nm ?fs = Some (i, fs')"
          "r = Inr i"
        using 1 assms(2) Some None by (auto simp: lookup_def bind_eq_Some_conv)
      have "wf_inodes ?fs" "start_cluster_to_inode ?fs (dirent_cluster e) = None"
        using assms(1) None by (simp_all add: wf_inodes_def)
      from new_inode_spec[OF this, of "next_inode fs" "file_sz_bytes e" "subdir (attr e)" nm]
      show ?thesis using n by auto
    next
      case (Some i)
      then show ?thesis using 1 assms \<open>found = Some e\<close> by (auto simp: lookup_def wf_inodes_def)
    qed
  qed
qed

lemma set_fs_inv:
  assumes "vfs_inv ext v" "wf_inodes fs'" "inodes (vfs_fs v) i = None" "ino_rc ino = 0"
    "inodes fs' = (inodes (vfs_fs v))(i \<mapsto> ino)"
  shows "vfs_inv ext (v\<lparr>vfs_fs := fs'\<rparr>)"
proof -
  have "users_of v i = {}" using assms(1,3) by (fastforce simp: users_of_def vfs_inv_def inode_inv_def)
  moreover have "users_of (v\<lparr>vfs_fs := fs'\<rparr>) a = users_of v a" for a by (simp add: users_of_def)
  ultimately have "inode_inv (v\<lparr>vfs_fs := fs'\<rparr>)"
    using assms by (auto simp: vfs_inv_def inode_inv_def)
  moreover have "tree_inv (v\<lparr>vfs_fs := fs'\<rparr>)" "rc_inv ext (v\<lparr>vfs_fs := fs'\<rparr>)"
    using assms(1) by (simp_all add: vfs_inv_def tree_inv_def rc_inv_def children_of_def cong: option.case_cong)
  ultimately show ?thesis by (simp add: vfs_inv_def)
qed

lemma at_path_mono:
  assumes "at_path v d cs" "root w = root v"
    and "\<And>d x. dentries v d = Some x \<Longrightarrow> \<exists>x'. dentries w d = Some x' \<and> d_parent x' = d_parent x \<and> d_component x' = d_component x"
  shows "at_path w d cs"
  using assms(1)
proof (induction rule: at_path.induct)
  case at_root
  then show ?case by (metis assms(2) at_path.at_root)
next
  case (at_child p cs d x)
  obtain x' where "dentries w d = Some x'" "d_parent x' = Some p" "d_component x' = d_component x"
    using assms(3)[OF at_child.hyps(2)] at_child.hyps(3) by auto
  then show ?case using at_path.at_child[OF at_child.IH] by metis
qed

lemma with_dentry_path:
  assumes "tree_inv v" "dentries v p = Some y" "at_path v d cs"
  shows "at_path (with_dentry p y a ino c v) d cs"
proof (rule at_path_mono[OF assms(3)])
  fix d x assume "dentries v d = Some x"
  then show "\<exists>x'. dentries (with_dentry p y a ino c v) d = Some x' \<and> d_parent x' = d_parent x \<and> d_component x' = d_component x"
    using with_dentry_dentries[OF assms(1,2), where a = a and ino = ino and c = c] assms(2) tree_invD(7)[OF assms(1)]
    by (cases "d = p"; cases "d = fresh_dentry v") auto
qed simp

lemma at_path_dentry: "tree_inv v \<Longrightarrow> at_path v d cs \<Longrightarrow> \<exists>x. dentries v d = Some x"
  by (erule at_path.cases) (auto dest: tree_invD(6))

lemma at_path_parent:
  assumes "tree_inv v" "at_path v d cs" "dentries v d = Some x"
  shows "at_path v (case d_parent x of None \<Rightarrow> d | Some p \<Rightarrow> p) (butlast cs)"
  using assms(2)
proof (cases rule: at_path.cases)
  case at_root
  then show ?thesis using assms(3) tree_invD(6)[OF assms(1)] at_path.at_root by auto
next
  case (at_child p cs' y)
  then show ?thesis using assms(3) by simp
qed

text \<open>One step of the walk.\<close>

lemma lookup_step_spec:
  assumes "vfs_inv ext v" "at_path v it here" "fresh_dentry v < 2 ^ 31" "\<forall>d. ext d < 2 ^ 31"
    and "lookup_step dev c it v Ok = Some (r, w, res)"
  shows "vfs_inv ext w \<and> fresh_dentry w \<le> Suc (fresh_dentry v) \<and> root w = root v \<and>
    (\<forall>d cs. at_path v d cs \<longrightarrow> at_path w d cs) \<and>
    (case r of None \<Rightarrow> res = FileNotFound | Some d \<Rightarrow> res = Ok \<and> at_path w d (normalize here [c]))"
proof -
  have t: "tree_inv v" "inode_inv v" using assms(1) by (simp_all add: vfs_inv_def)
  obtain x where x: "dentries v it = Some x" using at_path_dentry[OF t(1) assms(2)] by blast
  consider "c = [] \<or> c = [0x2E]" | "c = [0x2E, 0x2E]"
    | (hit) d where "c \<notin> {[], [0x2E], [0x2E, 0x2E]}" "dcache_lookup v (it, c) = Some d"
    | (miss) "c \<notin> {[], [0x2E], [0x2E, 0x2E]}" "dcache_lookup v (it, c) = None"
    by auto
  then show ?thesis
  proof cases
    case 1
    then show ?thesis using assms by (auto simp: lookup_step_def)
  next
    case 2
    then show ?thesis using assms x at_path_parent[OF t(1) assms(2) x] by (auto simp: lookup_step_def)
  next
    case hit
    then obtain z where "dentries v d = Some z" "d_parent z = Some it" "d_component z = c"
      using tree_invD(4)[OF t(1)] by blast
    then have "at_path v d (here @ [c])" using at_path.at_child[OF assms(2)] by metis
    moreover have "r = Some d" "w = v" "res = Ok" using hit assms(5) by (simp_all add: lookup_step_def)
    ultimately show ?thesis using hit(1) assms(1) by simp
  next
    case miss
    obtain q fs where l: "lookup dev (d_inode x) c (vfs_fs v) = Some (q, fs)"
      using assms(5) miss x by (auto simp: lookup_step_def bind_eq_Some_conv)
    have wf: "wf_inodes (vfs_fs v)" using t(2) by (simp add: inode_inv_def)
    consider "q = Inl ()" "fs = vfs_fs v" | (found) i ino where "q = Inr i" "inodes fs i = Some ino" "vfs_inv ext (v\<lparr>vfs_fs := fs\<rparr>)"
      using lookup_effect[OF wf l] set_fs_inv[OF assms(1)] assms(1) by fastforce
    then show ?thesis
    proof cases
      case 1
      then show ?thesis using assms miss x l by (auto simp: lookup_step_def)
    next
      case found
      let ?v = "v\<lparr>vfs_fs := fs\<rparr>"
      have "new_dentry (Some it) i c ?v = Some (fresh_dentry v, with_dentry it x i ino c ?v)"
        "vfs_inv ext (with_dentry it x i ino c ?v)"
        using new_dentry_inv[OF found(3), of it x c i ino] found(2) x miss assms(3,4) by simp_all
      moreover have tv: "tree_inv ?v" using found(3) by (simp add: vfs_inv_def)
      have "at_path ?v d cs" if "at_path v d cs" for d cs by (rule at_path_mono[OF that]) simp_all
      then have m: "at_path (with_dentry it x i ino c ?v) d cs" if "at_path v d cs" for d cs
        using with_dentry_path[OF tv, of it x d cs i ino c] x that by simp
      have "at_path (with_dentry it x i ino c ?v) (fresh_dentry v) (here @ [c])"
        using at_path.at_child[OF m[OF assms(2)], of "fresh_dentry v" "new_child it i c"]
          with_dentry_dentries(2)[OF tv, of it x i ino c] x by simp
      ultimately show ?thesis using found(1) assms(5) miss x l m by (auto simp: lookup_step_def)
    qed
  qed
qed

lemma normalize_step: "normalize (normalize here [c]) cs = normalize here (c # cs)"
  by simp

lemma walk_spec:
  assumes "vfs_inv ext v" "at_path v it here" "fresh_dentry v + length cs < 2 ^ 31" "\<forall>d. ext d < 2 ^ 31"
    and "walk dev cs it v Ok = Some (r, w, res)"
  shows "vfs_inv ext w \<and> (fresh_dentry w \<le> fresh_dentry v + length cs \<and> root w = root v) \<and>
    (\<forall>d ds. at_path v d ds \<longrightarrow> at_path w d ds) \<and>
    (case r of None \<Rightarrow> res = FileNotFound | Some d \<Rightarrow> res = Ok \<and> at_path w d (normalize here cs))"
  using assms
proof (induction cs arbitrary: it v here)
  case (Cons c cs)
  obtain r1 v1 res1 where s: "lookup_step dev c it v Ok = Some (r1, v1, res1)"
    using Cons.prems(5) by (auto simp: bind_eq_Some_conv)
  have st: "vfs_inv ext v1 \<and> fresh_dentry v1 \<le> Suc (fresh_dentry v) \<and> root v1 = root v \<and>
      (\<forall>d cs. at_path v d cs \<longrightarrow> at_path v1 d cs) \<and>
      (case r1 of None \<Rightarrow> res1 = FileNotFound | Some d \<Rightarrow> res1 = Ok \<and> at_path v1 d (normalize here [c]))"
    by (rule lookup_step_spec[OF Cons.prems(1,2) _ Cons.prems(4) s]) (use Cons.prems(3) in simp)
  show ?case
  proof (cases r1)
    case None
    then show ?thesis using st s Cons.prems(5) by auto
  next
    case (Some d)
    have "walk dev cs d v1 Ok = Some (r, w, res)" using Some st s Cons.prems(5) by auto
    moreover have "fresh_dentry v1 + length cs < 2 ^ 31" using st Cons.prems(3) by simp
    ultimately have ih: "vfs_inv ext w \<and> (fresh_dentry w \<le> fresh_dentry v1 + length cs \<and> root w = root v1) \<and>
        (\<forall>d ds. at_path v1 d ds \<longrightarrow> at_path w d ds) \<and>
        (case r of None \<Rightarrow> res = FileNotFound | Some d \<Rightarrow> res = Ok \<and> at_path w d (normalize here (c # cs)))"
      using Cons.IH[of v1 d "normalize here [c]"] Some st Cons.prems(4)
      by (simp only: option.case normalize_step) blast
    then have "fresh_dentry w \<le> fresh_dentry v + length (c # cs) \<and> root w = root v" using st by simp
    then show ?thesis using ih st by blast
  qed
qed auto

text \<open>
  C4. Resolving a path. The loop over the path always ends: it is the walk over the components of the path.
  When the walk is not halted by an assertion, a dentry it returns is the one whose path from the root is
  the normalised path, with empty components and single dots skipped and double dots going up but not
  above the root; otherwise the result is \<^verbatim>\<open>FileNotFound\<close>. Every dentry keeps its path, and the tree, the
  hash table and the reference counts of dentries and inodes stay consistent.
\<close>

theorem pathname_resolves:
  assumes "vfs_inv ext v" "length path < 2 ^ 31" "fresh_dentry v + length (components path) < 2 ^ 31" "\<forall>d. ext d < 2 ^ 31"
  shows "pathname_lookup dev path v Ok = walk dev (components path) (root v) v Ok \<and>
    (\<forall>r w res. pathname_lookup dev path v Ok = Some (r, w, res) \<longrightarrow>
       vfs_inv ext w \<and> (\<forall>d cs. at_path v d cs \<longrightarrow> at_path w d cs) \<and>
       (case r of None \<Rightarrow> res = FileNotFound
        | Some d \<Rightarrow> res = Ok \<and> at_path w d (normalize [] (components path))))"
proof -
  have e: "pathname_lookup dev path v Ok = walk dev (components path) (root v) v Ok"
    by (simp add: pathname_lookup_def lookup_loop_walk[OF assms(2)])
  show ?thesis unfolding e using walk_spec[OF assms(1) at_root assms(3,4)] by blast
qed

definition demo_vfs :: vfs where
  "demo_vfs = \<lparr>
     vfs_fs = demo_fs\<lparr>
       start_cluster_to_inode := [2 \<mapsto> 0, 5 \<mapsto> 1],
       inodes := [0 \<mapsto> \<lparr>ino_id = 0, ino_rc = 1, ino_size = 0, is_directory = True, start_cluster = 2, ino_name = []\<rparr>,
                  1 \<mapsto> \<lparr>ino_id = 1, ino_rc = 1, ino_size = 0, is_directory = True, start_cluster = 5, ino_name = []\<rparr>],
       fresh_inode := 2\<rparr>,
     dentries = [0 \<mapsto> \<lparr>d_inode = 0, d_parent = None, d_children = [1], d_component = [], in_hashtable = False,
                      to_unlink = False, d_rc = 2\<rparr>,
                 1 \<mapsto> \<lparr>d_inode = 1, d_parent = Some 0, d_children = [], d_component = [98], in_hashtable = True,
                      to_unlink = False, d_rc = 1\<rparr>],
     fresh_dentry = 2, dcache_lookup = [(0, [98]) \<mapsto> 1], root = 0\<rparr>"

definition demo_ext :: "nat \<Rightarrow> nat" where "demo_ext d = (if d < 2 then 1 else 0)"

lemma demo_vfs_inv: "vfs_inv demo_ext demo_vfs"
proof -
  have c: "children_of demo_vfs p = (if p = 0 then {1} else {})" for p
    by (auto simp: children_of_def demo_vfs_def split: if_splits)
  have u: "users_of demo_vfs a = (if a \<le> 1 then {a} else {})" for a
    by (cases "a = 0"; cases "a = 1") (auto simp: users_of_def demo_vfs_def split: if_splits)
  have "tree_inv demo_vfs" unfolding tree_inv_def c
    by (simp add: demo_vfs_def)
  moreover have "rc_inv demo_ext demo_vfs" by (simp add: rc_inv_def demo_vfs_def demo_ext_def)
  moreover have "inode_inv demo_vfs" unfolding inode_inv_def u
    by (simp add: demo_vfs_def demo_fs_def wf_inodes_def)
  ultimately show ?thesis by (simp add: vfs_inv_def)
qed

theorem pathname_resolves_witness:
  "\<exists>w. pathname_lookup demo_dev [0x2F, 98, 0x2F, 0x2E] demo_vfs Ok = Some (Some 1, w, Ok) \<and> at_path w 1 [[98]]"
proof -
  have l: "pathname_lookup demo_dev [0x2F, 98, 0x2F, 0x2E] demo_vfs Ok = Some (Some 1, demo_vfs, Ok)"
    and c: "components [0x2F, 98, 0x2F, 0x2E] = [[], [98], [0x2E]]"
    by (simp_all add: pathname_lookup_def lookup_loop_walk components.simps slash_def lookup_step_def demo_vfs_def)
  have "fresh_dentry demo_vfs + length (components [0x2F, 98, 0x2F, 0x2E]) < 2 ^ 31" "\<forall>d. demo_ext d < 2 ^ 31"
    by (simp_all add: c demo_vfs_def demo_ext_def)
  from conjunct2[OF pathname_resolves[OF demo_vfs_inv _ this, of demo_dev], rule_format, OF _ l]
  show ?thesis using l by (simp add: c)
qed

end
