(* ===== verification/Vfs_Refs.thy ===== *)
theory Vfs_Refs
  imports Vfs_Paths
begin

text \<open>
  Releasing dentries: dropping the last reference to a dentry frees it and drops its reference to the
  parent, up the tree. The release never fails an assertion, and it frees nothing that is still
  referenced.
\<close>

section \<open>One release\<close>

lemma dec_rc_keep:
  assumes "dentries v q = Some x" "d_rc x \<noteq> 0" "d_rc x - 1 \<noteq> 0"
  shows "dentry_dec_rc q v = Some (v\<lparr>dentries := (dentries v)(q \<mapsto> x\<lparr>d_rc := d_rc x - 1\<rparr>)\<rparr>)"
  using assms by (subst dentry_dec_rc.simps) (simp add: upd_dentry_def)

lemma dec_rc_free:
  assumes "dentries v q = Some x" "d_rc x = 1" "d_children x = []" "d_parent x = Some p" "in_hashtable x"
    and "inode_dec_rc (d_inode x) (vfs_fs v) = Some fs'" "dentries v p = Some y" "p \<noteq> q"
    and "dentry_dec_rc p (v\<lparr>vfs_fs := fs',
           dentries := (dentries v)(q \<mapsto> x\<lparr>d_rc := 0\<rparr>, p \<mapsto> y\<lparr>d_children := remove1 q (d_children y)\<rparr>)\<rparr>) = Some w"
    and "dcache_lookup w (p, d_component x) = Some q"
  shows "dentry_dec_rc q v = Some (w\<lparr>dcache_lookup := (dcache_lookup w)((p, d_component x) := None),
                                  dentries := (dentries w)(q := None)\<rparr>)"
  using assms by (subst dentry_dec_rc.simps) (simp add: upd_dentry_def)

section \<open>Dentries that are being freed\<close>

text \<open>A state with more dentries and more entries of the hash table.\<close>

definition extended :: "(nat \<rightharpoonup> dentry) \<Rightarrow> (nat \<times> string_view \<rightharpoonup> nat) \<Rightarrow> vfs \<Rightarrow> vfs" where
  "extended E C v = v\<lparr>dentries := dentries v ++ E, dcache_lookup := dcache_lookup v ++ C\<rparr>"

definition apart :: "(nat \<rightharpoonup> dentry) \<Rightarrow> (nat \<times> string_view \<rightharpoonup> nat) \<Rightarrow> vfs \<Rightarrow> bool" where
  "apart E C v \<longleftrightarrow> dom E \<inter> dom (dentries v) = {} \<and> dom C \<inter> dom (dcache_lookup v) = {}"

lemma extended_dentry: "apart E C v \<Longrightarrow> dentries v d = Some x \<Longrightarrow> dentries (extended E C v) d = Some x"
  by (auto simp: extended_def apart_def map_add_def split: option.splits)

text \<open>The state without the dentry \<open>q\<close>, a leaf below \<open>p\<close>.\<close>

definition without :: "nat \<Rightarrow> nat \<Rightarrow> dentry \<Rightarrow> string_view \<Rightarrow> filesystem \<Rightarrow> vfs \<Rightarrow> vfs" where
  "without q p y c fs' v =
     v\<lparr>vfs_fs := fs', dentries := (dentries v)(q := None, p \<mapsto> y\<lparr>d_children := remove1 q (d_children y)\<rparr>),
       dcache_lookup := (dcache_lookup v)((p, c) := None)\<rparr>"

lemma without_sel [simp]:
  "vfs_fs (without q p y c fs' v) = fs'" "root (without q p y c fs' v) = root v"
  "fresh_dentry (without q p y c fs' v) = fresh_dentry v"
  "dcache_lookup (without q p y c fs' v) = (dcache_lookup v)((p, c) := None)"
  by (simp_all add: without_def)

lemma without_dentries:
  assumes "dentries v p = Some y" "p \<noteq> q"
  shows "dentries (without q p y c fs' v) q = None"
    and "dentries (without q p y c fs' v) p = Some (y\<lparr>d_children := remove1 q (d_children y)\<rparr>)"
    and "d \<noteq> q \<Longrightarrow> d \<noteq> p \<Longrightarrow> dentries (without q p y c fs' v) d = dentries v d"
  using assms by (simp_all add: without_def)

lemma without_sets:
  assumes "dentries v p = Some y" "p \<noteq> q"
  shows "children_of (without q p y c fs' v) r = children_of v r - {q}"
    and "users_of (without q p y c fs' v) b = users_of v b - {q}"
proof -
  note at = without_dentries[OF assms, where c = c and fs' = fs']
  have "(d \<in> children_of (without q p y c fs' v) r \<longleftrightarrow> d \<in> children_of v r \<and> d \<noteq> q) \<and>
      (d \<in> users_of (without q p y c fs' v) b \<longleftrightarrow> d \<in> users_of v b \<and> d \<noteq> q)" for d r b
    using at assms by (cases "d = q"; cases "d = p") (simp_all add: children_of_def users_of_def)
  then show "children_of (without q p y c fs' v) r = children_of v r - {q}"
    "users_of (without q p y c fs' v) b = users_of v b - {q}" by auto
qed

lemma without_tree:
  assumes "tree_inv v" "dentries v q = Some x" "d_children x = []" "d_parent x = Some p" "dentries v p = Some y"
  shows "tree_inv (without q p y (d_component x) fs' v)"
proof -
  let ?u = "without q p y (d_component x) fs' v"
  note inv = tree_invD[OF assms(1)]
  have pq: "p < q" using inv(2)[OF assms(2,4)] by simp
  then have "p \<noteq> q" by simp
  note at = without_dentries[OF assms(5) this, where c = "d_component x" and fs' = fs']
  have nc: "children_of v q = {}" using inv(5)[OF assms(2)] assms(3) by simp
  have rq: "root v \<noteq> q" using inv(6) assms(2,4) by auto
  obtain rx where rx: "dentries v (root v) = Some rx" "d_parent rx = None" using inv(6) by blast
  have src: "\<exists>z. dentries v d = Some z \<and> d_parent z = d_parent x' \<and> d_component z = d_component x' \<and> in_hashtable z = in_hashtable x' \<and>
      d \<noteq> q" if "dentries ?u d = Some x'" for d x'
    using that at assms(5) by (cases "d = q"; cases "d = p") auto
  have dst: "\<exists>z. dentries ?u d = Some z \<and> d_parent z = d_parent x' \<and> d_component z = d_component x'"
    if "dentries v d = Some x'" "d \<noteq> q" for d x'
    using that at assms(5) by (cases "d = p") auto
  have "\<exists>x. dentries ?u (root ?u) = Some x \<and> d_parent x = None" using dst[OF rx(1) rq] rx(2) by auto
  moreover have "d < fresh_dentry ?u \<and>
      (case d_parent x' of None \<Rightarrow> d = root ?u | Some r \<Rightarrow> r < d \<and> dentries ?u r \<noteq> None \<and> in_hashtable x')"
    if a: "dentries ?u d = Some x'" for d x'
  proof -
    obtain z where z: "dentries v d = Some z" "d_parent z = d_parent x'" "in_hashtable z = in_hashtable x'" "d \<noteq> q"
      using src[OF a] by blast
    have "dentries ?u r \<noteq> None" if "d_parent x' = Some r" for r
    proof -
      have "r \<noteq> q" using nc z that by (auto simp: children_of_def)
      then show ?thesis using dst inv(2)[OF z(1)] z(2) that by fastforce
    qed
    then show ?thesis using inv(1)[OF z(1)] inv(2)[OF z(1)] inv(3)[OF z(1)] z by (cases "d_parent x'") auto
  qed
  moreover have "dcache_lookup ?u (r, b) = Some d \<longleftrightarrow>
      (\<exists>x'. dentries ?u d = Some x' \<and> d_parent x' = Some r \<and> d_component x' = b)" for r b d
  proof -
    have q: "dcache_lookup v (p, d_component x) = Some q" using inv(4) assms(2,4) by blast
    have "dcache_lookup ?u (r, b) = Some d \<longleftrightarrow> dcache_lookup v (r, b) = Some d \<and> d \<noteq> q"
      using q inv(4)[of r b q] assms(2,4) by auto
    also have "\<dots> \<longleftrightarrow> (\<exists>x'. dentries ?u d = Some x' \<and> d_parent x' = Some r \<and> d_component x' = b)"
    proof
      assume "dcache_lookup v (r, b) = Some d \<and> d \<noteq> q"
      then obtain z where "dentries v d = Some z" "d_parent z = Some r" "d_component z = b" "d \<noteq> q"
        using inv(4) by blast
      then show "\<exists>x'. dentries ?u d = Some x' \<and> d_parent x' = Some r \<and> d_component x' = b" using dst by fastforce
    next
      assume "\<exists>x'. dentries ?u d = Some x' \<and> d_parent x' = Some r \<and> d_component x' = b"
      then obtain z where "dentries v d = Some z" "d_parent z = Some r" "d_component z = b" "d \<noteq> q"
        using src by fastforce
      then show "dcache_lookup v (r, b) = Some d \<and> d \<noteq> q" using inv(4) by blast
    qed
    finally show ?thesis .
  qed
  moreover have "distinct (d_children x') \<and> set (d_children x') = children_of ?u r" if a: "dentries ?u r = Some x'" for r x'
  proof -
    note c = without_sets(1)[OF assms(5) \<open>p \<noteq> q\<close>, of "d_component x" fs' r]
    consider "r = p" "d_children x' = remove1 q (d_children y)" | "r \<noteq> p" "r \<noteq> q" "dentries v r = Some x'"
      using a at by (cases "r = q"; cases "r = p") auto
    then show ?thesis
    proof cases
      case 1
      then show ?thesis using inv(5)[OF assms(5)] c by (simp add: set_remove1_eq)
    next
      case 2
      then have "q \<notin> children_of v r" using assms(2,4) by (auto simp: children_of_def)
      then show ?thesis using inv(5)[OF 2(3)] c by simp
    qed
  qed
  ultimately show ?thesis unfolding tree_inv_def by blast
qed

lemma without_rc:
  assumes "tree_inv v" "rc_inv ext v" "dentries v q = Some x" "d_parent x = Some p" "dentries v p = Some y"
  shows "rc_inv (ext(q := 0, p := Suc (ext p))) (without q p y (d_component x) fs' v)"
proof -
  let ?u = "without q p y (d_component x) fs' v"
  have pq: "p \<noteq> q" using tree_invD(2)[OF assms(1,3,4)] by auto
  note at = without_dentries[OF assms(5) pq, where c = "d_component x" and fs' = fs']
  have "q \<in> set (d_children y)" using tree_invD(5)[OF assms(1,5)] assms(3,4) by (auto simp: children_of_def)
  then have "length (d_children y) = Suc (length (remove1 q (d_children y)))"
    by (simp add: length_remove1) (metis Suc_pred length_pos_if_in_set)
  moreover have "unat (d_rc y) = length (d_children y) + ext p" using assms(2,5) by (simp add: rc_inv_def)
  ultimately have y: "unat (d_rc y) = length (remove1 q (d_children y)) + Suc (ext p)" by simp
  have "unat (d_rc x') = length (d_children x') + (ext(q := 0, p := Suc (ext p))) d" if "dentries ?u d = Some x'" for d x'
    using that y at assms(2) by (cases "d = q"; cases "d = p") (auto simp: rc_inv_def)
  moreover have "dentries ?u d \<noteq> None" if "0 < (ext(q := 0, p := Suc (ext p))) d" for d
    using that at assms(2) by (cases "d = q"; cases "d = p") (auto simp: rc_inv_def)
  moreover have "root v \<noteq> q" using tree_invD(6)[OF assms(1)] assms(3,4) by auto
  ultimately show ?thesis using assms(2) by (simp add: rc_inv_def)
qed

lemma inode_dec_rc_spec:
  assumes "tree_inv v" "inode_inv v" "dentries v q = Some x"
  shows "\<exists>fs'. inode_dec_rc (d_inode x) (vfs_fs v) = Some fs' \<and> wf_inodes fs' \<and>
    (\<forall>b i. inodes fs' b = Some i \<longrightarrow> (\<exists>i0. inodes (vfs_fs v) b = Some i0) \<and> unat (ino_rc i) = card (users_of v b - {q})) \<and>
    (\<forall>b. inodes (vfs_fs v) b \<noteq> None \<longrightarrow> users_of v b - {q} \<noteq> {} \<longrightarrow> inodes fs' b \<noteq> None)"
proof -
  let ?a = "d_inode x" and ?fs = "vfs_fs v"
  have "inodes ?fs ?a \<noteq> None" using assms(2,3) unfolding inode_inv_def by blast
  then obtain ino where ino: "inodes ?fs ?a = Some ino" by blast
  have wf: "wf_inodes ?fs" and rc: "\<And>b i. inodes ?fs b = Some i \<Longrightarrow> unat (ino_rc i) = card (users_of v b)"
    using assms(2) by (auto simp: inode_inv_def)
  have fin: "finite (users_of v b)" for b using finite_users[OF assms(1)] by blast
  have qa: "q \<in> users_of v ?a" and qb: "\<And>b. b \<noteq> ?a \<Longrightarrow> q \<notin> users_of v b" using assms(3) by (auto simp: users_of_def)
  have c: "card (users_of v ?a) = Suc (card (users_of v ?a - {q}))" using qa fin by (metis card.remove)
  then have r0: "ino_rc ino \<noteq> 0" using rc[OF ino] by auto
  then have r1: "unat (ino_rc ino - 1) = card (users_of v ?a - {q})"
    using rc[OF ino] c by (simp add: unat_sub_no_wrap word_le_nat_alt)
  define fs1 where "fs1 = ?fs\<lparr>inodes := (inodes ?fs)(?a \<mapsto> ino\<lparr>ino_rc := ino_rc ino - 1\<rparr>)\<rparr>"
  have wf1: "wf_inodes fs1" unfolding fs1_def by (rule wf_inodes_upd_rc[OF wf ino])
  show ?thesis
  proof (cases "ino_rc ino - 1 = 0")
    case True
    have "start_cluster_to_inode ?fs (start_cluster ino) = Some ?a" using wf ino by (auto simp: wf_inodes_def)
    then obtain fs2 where d: "delete_inode ?a fs1 = Some fs2" "inodes fs2 = (inodes fs1)(?a := None)"
      by (simp add: delete_inode_def fs1_def)
    have "users_of v ?a - {q} = {}" using r1 True fin by simp
    then show ?thesis using d True r0 ino delete_inode_wf[OF wf1 d(1)] rc qb
      by (intro exI[of _ fs2]) (auto simp: inode_dec_rc_def fs1_def)
  next
    case False
    then show ?thesis using r0 r1 ino wf1 rc qb
      by (intro exI[of _ fs1]) (auto simp: inode_dec_rc_def fs1_def)
  qed
qed

lemma without_inode:
  assumes "tree_inv v" "inode_inv v" "dentries v q = Some x" "dentries v p = Some y" "p \<noteq> q" "wf_inodes fs'"
    and "\<And>b i. inodes fs' b = Some i \<Longrightarrow> unat (ino_rc i) = card (users_of v b - {q})"
    and "\<And>b. inodes (vfs_fs v) b \<noteq> None \<Longrightarrow> users_of v b - {q} \<noteq> {} \<Longrightarrow> inodes fs' b \<noteq> None"
  shows "inode_inv (without q p y c fs' v)"
proof -
  let ?u = "without q p y c fs' v"
  note at = without_dentries[OF assms(4,5), where c = c and fs' = fs']
  have "inodes fs' (d_inode x') \<noteq> None" if "dentries ?u d = Some x'" for d x'
  proof -
    from that obtain z where z: "dentries v d = Some z" "d_inode z = d_inode x'" "d \<noteq> q"
      using at assms(4) by (cases "d = q"; cases "d = p") auto
    then have "d \<in> users_of v (d_inode x') - {q}" by (auto simp: users_of_def)
    moreover have "inodes (vfs_fs v) (d_inode x') \<noteq> None" using assms(2) z unfolding inode_inv_def by metis
    ultimately show ?thesis using assms(8) by blast
  qed
  then show ?thesis using assms(6,7) without_sets(2)[OF assms(4,5), of c fs'] by (simp add: inode_inv_def)
qed

lemma extended_without:
  assumes "apart E C v" "dentries v q = Some x" "dentries v p = Some y" "p \<noteq> q" "dcache_lookup v (p, c) = Some q"
  shows "(extended E C v)\<lparr>vfs_fs := fs',
            dentries := (dentries (extended E C v))(q \<mapsto> x', p \<mapsto> y\<lparr>d_children := remove1 q (d_children y)\<rparr>)\<rparr> =
         extended (E(q \<mapsto> x')) (C((p, c) \<mapsto> q)) (without q p y c fs' v)"
    and "apart (E(q \<mapsto> x')) (C((p, c) \<mapsto> q)) (without q p y c fs' v)"
proof -
  have nd: "q \<notin> dom E" "p \<notin> dom E" "(p, c) \<notin> dom C" using assms by (auto simp: apart_def)
  have "(dentries v ++ E)(q \<mapsto> x', p \<mapsto> y\<lparr>d_children := remove1 q (d_children y)\<rparr>) =
      (dentries v)(q := None, p \<mapsto> y\<lparr>d_children := remove1 q (d_children y)\<rparr>) ++ E(q \<mapsto> x')"
    using nd assms(4) by (intro ext) (auto simp: map_add_def split: option.splits)
  moreover have "dcache_lookup v ++ C = (dcache_lookup v)((p, c) := None) ++ C((p, c) \<mapsto> q)"
    using nd assms(5) by (intro ext) (auto simp: map_add_def split: option.splits)
  ultimately show "(extended E C v)\<lparr>vfs_fs := fs',
            dentries := (dentries (extended E C v))(q \<mapsto> x', p \<mapsto> y\<lparr>d_children := remove1 q (d_children y)\<rparr>)\<rparr> =
         extended (E(q \<mapsto> x')) (C((p, c) \<mapsto> q)) (without q p y c fs' v)"
    by (simp add: extended_def without_def)
  show "apart (E(q \<mapsto> x')) (C((p, c) \<mapsto> q)) (without q p y c fs' v)"
    using assms nd by (auto simp: apart_def without_def split: if_splits)
qed

lemma map_add_drop:
  assumes "k \<notin> dom m" "k \<notin> dom C"
  shows "(m ++ C(k \<mapsto> z))(k := None) = m ++ C"
proof (rule ext)
  fix j
  show "((m ++ C(k \<mapsto> z))(k := None)) j = (m ++ C) j"
    using assms by (cases "j = k") (simp_all add: map_add_def domIff)
qed

lemma extended_drop:
  assumes "q \<notin> dom (dentries w)" "q \<notin> dom E" "k \<notin> dom (dcache_lookup w)" "k \<notin> dom C"
  shows "(extended (E(q \<mapsto> x)) (C(k \<mapsto> q)) w)
           \<lparr>dcache_lookup := (dcache_lookup (extended (E(q \<mapsto> x)) (C(k \<mapsto> q)) w))(k := None),
            dentries := (dentries (extended (E(q \<mapsto> x)) (C(k \<mapsto> q)) w))(q := None)\<rparr> = extended E C w"
  using map_add_drop[OF assms(1,2), of x] map_add_drop[OF assms(3,4), of q] by (simp add: extended_def)

text \<open>Everything of a dentry but its reference count.\<close>

definition shape :: "dentry \<Rightarrow> nat \<times> nat option \<times> nat list \<times> string_view \<times> bool" where
  "shape x = (d_inode x, d_parent x, d_children x, d_component x, in_hashtable x)"

lemma same_shape_tree:
  assumes "tree_inv v" "root w = root v" "fresh_dentry w = fresh_dentry v" "dcache_lookup w = dcache_lookup v"
    and s: "\<And>d. map_option shape (dentries w d) = map_option shape (dentries v d)"
  shows "tree_inv w" "children_of w = children_of v" "users_of w = users_of v"
proof -
  note inv = tree_invD[OF assms(1)]
  have src: "\<exists>z. dentries v d = Some z \<and> shape z = shape x" if "dentries w d = Some x" for d x
    using s[of d] that by (cases "dentries v d") auto
  have dst: "\<exists>z. dentries w d = Some z \<and> shape z = shape x" if "dentries v d = Some x" for d x
    using s[of d] that by (cases "dentries w d") auto
  have ex: "(\<exists>x. dentries w d = Some x \<and> P (shape x)) \<longleftrightarrow> (\<exists>x. dentries v d = Some x \<and> P (shape x))" for d P
    using src[of d] dst[of d] by metis
  have par: "(\<exists>x. dentries w d = Some x \<and> d_parent x = Some p \<and> d_component x = c) \<longleftrightarrow>
      (\<exists>x. dentries v d = Some x \<and> d_parent x = Some p \<and> d_component x = c)" for d p c
    using ex[of d "\<lambda>(_, q, _, b, _). q = Some p \<and> b = c"] by (simp add: shape_def)
  show c: "children_of w = children_of v"
    using ex[of _ "\<lambda>(_, q, _, _, _). q = Some _"] by (auto simp: children_of_def shape_def fun_eq_iff)
  show "users_of w = users_of v"
    using ex[of _ "\<lambda>(i, _, _, _, _). i = _"] by (auto simp: users_of_def shape_def fun_eq_iff)
  have "\<exists>x. dentries w (root w) = Some x \<and> d_parent x = None"
    using inv(6) ex[of "root v" "\<lambda>(_, q, _, _, _). q = None"] assms(2) by (simp add: shape_def)
  moreover have "d < fresh_dentry w \<and>
      (case d_parent x of None \<Rightarrow> d = root w | Some r \<Rightarrow> r < d \<and> dentries w r \<noteq> None \<and> in_hashtable x)"
    if a: "dentries w d = Some x" for d x
  proof -
    obtain z where z: "dentries v d = Some z" "shape z = shape x" using src[OF a] by blast
    have "dentries w r \<noteq> None" if "dentries v r \<noteq> None" for r using that dst by fastforce
    then show ?thesis using inv(1)[OF z(1)] inv(2)[OF z(1)] inv(3)[OF z(1)] z(2) assms(2,3)
      by (cases "d_parent x") (auto simp: shape_def)
  qed
  moreover have "distinct (d_children x) \<and> set (d_children x) = children_of w d" if a: "dentries w d = Some x" for d x
  proof -
    obtain z where z: "dentries v d = Some z" "shape z = shape x" using src[OF a] by blast
    then show ?thesis using inv(5)[OF z(1)] c by (simp add: shape_def)
  qed
  moreover have "dcache_lookup w (p, c) = Some d \<longleftrightarrow>
      (\<exists>x. dentries w d = Some x \<and> d_parent x = Some p \<and> d_component x = c)" for p c d
    unfolding par assms(4) by (rule inv(4))
  ultimately show "tree_inv w" unfolding tree_inv_def by blast
qed

lemma set_rc_inv:
  assumes "vfs_inv ext v" "dentries v q = Some x" "unat r = length (d_children x) + e" "q = root v \<longrightarrow> 0 < e"
  shows "vfs_inv (ext(q := e)) (v\<lparr>dentries := (dentries v)(q \<mapsto> x\<lparr>d_rc := r\<rparr>)\<rparr>)"
proof -
  let ?w = "v\<lparr>dentries := (dentries v)(q \<mapsto> x\<lparr>d_rc := r\<rparr>)\<rparr>"
  have t: "tree_inv v" "rc_inv ext v" "inode_inv v" using assms(1) by (simp_all add: vfs_inv_def)
  have "map_option shape (dentries ?w d) = map_option shape (dentries v d)" for d
    using assms(2) by (simp add: shape_def)
  from same_shape_tree[OF t(1) _ _ _ this] have "tree_inv ?w" "users_of ?w = users_of v" by simp_all
  moreover have "rc_inv (ext(q := e)) ?w" using t(2) assms(2-4) by (auto simp: rc_inv_def)
  moreover have "inode_inv ?w" using t(3) assms(2) \<open>users_of ?w = users_of v\<close> by (auto simp: inode_inv_def)
  ultimately show ?thesis by (simp add: vfs_inv_def)
qed

section \<open>Releasing references\<close>

lemma dec_rc_free_extended:
  assumes "apart E C v" "dentries v q = Some x" "d_rc x = 1" "d_children x = []" "d_parent x = Some p" "in_hashtable x"
    and "inode_dec_rc (d_inode x) (vfs_fs v) = Some fs'" "dentries v p = Some y" "p \<noteq> q"
    and "dcache_lookup v (p, d_component x) = Some q"
    and "\<And>E C. apart E C (without q p y (d_component x) fs' v) \<Longrightarrow>
          dentry_dec_rc p (extended E C (without q p y (d_component x) fs' v)) = Some (extended E C w)"
    and "q \<notin> dom (dentries w)" "(p, d_component x) \<notin> dom (dcache_lookup w)"
  shows "dentry_dec_rc q (extended E C v) = Some (extended E C w)"
proof -
  note e = extended_without[OF assms(1,2,8,9,10), where fs' = fs' and x' = "x\<lparr>d_rc := 0\<rparr>"]
  let ?w = "extended (E(q \<mapsto> x\<lparr>d_rc := 0\<rparr>)) (C((p, d_component x) \<mapsto> q)) w"
  have f: "q \<notin> dom E" "(p, d_component x) \<notin> dom C" using assms(1,2,10) by (auto simp: apart_def)
  have "inode_dec_rc (d_inode x) (vfs_fs (extended E C v)) = Some fs'" using assms(7) by (simp add: extended_def)
  moreover have "dcache_lookup ?w (p, d_component x) = Some q" by (simp add: extended_def)
  ultimately show ?thesis
    using dec_rc_free[OF extended_dentry[OF assms(1,2)] assms(3-6) _ extended_dentry[OF assms(1,8)] assms(9), of fs' ?w]
      assms(11)[OF e(2)] e(1) extended_drop[OF assms(12) f(1) assms(13) f(2)] by simp
qed

lemma dec_rc_frame:
  assumes "vfs_inv ext v" "0 < ext q" "q = root v \<longrightarrow> 1 < ext q"
  shows "\<exists>w. vfs_inv (ext(q := ext q - 1)) w \<and>
    dom (dentries w) \<subseteq> dom (dentries v) \<and> dom (dcache_lookup w) \<subseteq> dom (dcache_lookup v) \<and>
    (\<forall>E C. apart E C v \<longrightarrow> dentry_dec_rc q (extended E C v) = Some (extended E C w))"
  using assms
proof (induction q arbitrary: ext v rule: less_induct)
  case (less q)
  have t: "tree_inv v" "rc_inv ext v" "inode_inv v" using less.prems(1) by (simp_all add: vfs_inv_def)
  have "dentries v q \<noteq> None" using t(2) less.prems(2) unfolding rc_inv_def by blast
  then obtain x where x: "dentries v q = Some x" by blast
  have rc: "unat (d_rc x) = length (d_children x) + ext q" using t(2) x by (simp add: rc_inv_def)
  then have r0: "d_rc x \<noteq> 0" using less.prems(2) by auto
  then have r1: "unat (d_rc x - 1) = length (d_children x) + (ext q - 1)"
    using rc less.prems(2) by (simp add: unat_sub_no_wrap word_le_nat_alt)
  show ?case
  proof (cases "d_rc x - 1 = 0")
    case False
    define w where "w = v\<lparr>dentries := (dentries v)(q \<mapsto> x\<lparr>d_rc := d_rc x - 1\<rparr>)\<rparr>"
    have "vfs_inv (ext(q := ext q - 1)) w"
      unfolding w_def by (rule set_rc_inv[OF less.prems(1) x r1]) (use less.prems(3) in auto)
    moreover have "dentry_dec_rc q (extended E C v) = Some (extended E C w)" if "apart E C v" for E C
    proof -
      have "q \<notin> dom E" using that x by (auto simp: apart_def)
      then show ?thesis using dec_rc_keep[OF extended_dentry[OF that x] r0 False]
        by (simp add: extended_def w_def map_add_upd_left)
    qed
    moreover have "dom (dentries w) \<subseteq> dom (dentries v)" "dom (dcache_lookup w) \<subseteq> dom (dcache_lookup v)"
      using x by (auto simp: w_def split: if_splits)
    ultimately show ?thesis by blast
  next
    case True
    then have r: "d_rc x = 1" by simp
    then have "length (d_children x) + ext q = 1" using rc by simp
    then have c: "d_children x = []" "ext q = 1" using less.prems(2) by (cases "d_children x"; simp)+
    then have "q \<noteq> root v" using less.prems(3) by auto
    then obtain p where p: "d_parent x = Some p" using tree_invD(3)[OF t(1) x] by (cases "d_parent x") auto
    obtain y where y: "dentries v p = Some y" "p < q" "in_hashtable x" using tree_invD(2)[OF t(1) x p] by auto
    obtain fs' where fs: "inode_dec_rc (d_inode x) (vfs_fs v) = Some fs'" "wf_inodes fs'"
        "\<And>b i. inodes fs' b = Some i \<Longrightarrow> unat (ino_rc i) = card (users_of v b - {q})"
        "\<And>b. inodes (vfs_fs v) b \<noteq> None \<Longrightarrow> users_of v b - {q} \<noteq> {} \<Longrightarrow> inodes fs' b \<noteq> None"
      using inode_dec_rc_spec[OF t(1,3) x] by blast
    let ?k = "(p, d_component x)" and ?u = "without q p y (d_component x) fs' v"
    define e where "e = ext(q := 0, p := Suc (ext p))"
    have dc: "dcache_lookup v ?k = Some q" using tree_invD(4)[OF t(1)] x p by blast
    have u: "vfs_inv e ?u"
      unfolding vfs_inv_def e_def using without_tree[OF t(1) x c(1) p y(1)] without_rc[OF t(1,2) x p y(1)]
        without_inode[OF t(1,3) x y(1) _ fs(2-4)] y(2) by simp
    have "0 < e p" "p = root ?u \<longrightarrow> 1 < e p" using t(2) by (auto simp: e_def rc_inv_def)
    from less.IH[OF y(2) u this] obtain w where w: "vfs_inv (e(p := e p - 1)) w" "dom (dentries w) \<subseteq> dom (dentries ?u)"
        "dom (dcache_lookup w) \<subseteq> dom (dcache_lookup ?u)"
        "\<And>E C. apart E C ?u \<Longrightarrow> dentry_dec_rc p (extended E C ?u) = Some (extended E C w)"
      by blast
    have "e(p := e p - 1) = ext(q := ext q - 1)" using y(2) c(2) by (auto simp: e_def)
    then have "vfs_inv (ext(q := ext q - 1)) w" using w(1) by (simp only:)
    moreover have nq: "q \<notin> dom (dentries w)" "?k \<notin> dom (dcache_lookup w)"
      using w(2,3) y(2) by (auto simp: without_def)
    moreover have "dentry_dec_rc q (extended E C v) = Some (extended E C w)" if a: "apart E C v" for E C
      by (rule dec_rc_free_extended[OF a x r c(1) p y(3) fs(1) y(1) _ dc w(4) nq]) (use y(2) in simp)
    moreover have "dom (dentries ?u) \<subseteq> dom (dentries v)" "dom (dcache_lookup ?u) \<subseteq> dom (dcache_lookup v)"
      using x y(1) by (auto simp: without_def split: if_splits)
    ultimately show ?thesis using w(2,3) by (meson subset_trans)
  qed
qed

lemma extended_empty [simp]: "extended Map.empty Map.empty v = v" "apart Map.empty Map.empty v"
  by (simp_all add: extended_def apart_def)

text \<open>The state after mounting: the root alone, referenced once.\<close>

lemma vfs_init_inv:
  assumes "inodes fs = Map.empty" "start_cluster_to_inode fs = Map.empty" "fresh_inode fs = 0"
  shows "\<exists>v. vfs_init fs = Some v \<and> vfs_inv (\<lambda>d. if d = 0 then 1 else 0) v"
proof -
  define v where "v = \<lparr>vfs_fs = fs\<lparr>next_inode := next_inode fs + 1,
        start_cluster_to_inode := [fs_root_dir_start_cluster fs \<mapsto> 0],
        inodes := [0 \<mapsto> \<lparr>ino_id = next_inode fs, ino_rc = 1, ino_size = 0, is_directory = True,
                       start_cluster = fs_root_dir_start_cluster fs, ino_name = inode_name (replicate 13 0)\<rparr>],
        fresh_inode := 1\<rparr>,
      dentries = [0 \<mapsto> \<lparr>d_inode = 0, d_parent = None, d_children = [], d_component = map of_char ''<root>'',
                       in_hashtable = False, to_unlink = False, d_rc = 1\<rparr>],
      fresh_dentry = 1, dcache_lookup = Map.empty, root = 0\<rparr>"
  have "vfs_init fs = Some v"
    using assms by (simp add: vfs_init_def get_root_inode_def new_inode_def new_dentry_def inode_inc_rc_def
        dentry_inc_rc_def upd_dentry_def Let_def v_def)
  moreover have "children_of v p = {}" "users_of v a = (if a = 0 then {0} else {})" for p a
    by (auto simp: children_of_def users_of_def v_def)
  then have "vfs_inv (\<lambda>d. if d = 0 then 1 else 0) v"
    by (simp add: vfs_inv_def tree_inv_def rc_inv_def inode_inv_def wf_inodes_def) (simp add: v_def)
  ultimately show ?thesis by blast
qed

text \<open>
  C8. Dropping a reference is safe. In a consistent filesystem, releasing a reference that a file or a
  mapping holds always returns: no assertion fails however many ancestors are freed on the way. What is
  freed is consistent again with one reference less, and every dentry that is still referenced is kept.
\<close>

theorem release_safe:
  assumes "vfs_inv ext v" "0 < ext d" "d = root v \<longrightarrow> 1 < ext d"
  shows "\<exists>w. dentry_dec_rc d v = Some w \<and> vfs_inv (ext(d := ext d - 1)) w \<and>
           (\<forall>d'. 0 < (ext(d := ext d - 1)) d' \<longrightarrow> dentries w d' \<noteq> None)"
proof -
  obtain w where w: "vfs_inv (ext(d := ext d - 1)) w" "dentry_dec_rc d v = Some w"
    using dec_rc_frame[OF assms] extended_empty by metis
  then have "\<forall>d'. 0 < (ext(d := ext d - 1)) d' \<longrightarrow> dentries w d' \<noteq> None"
    unfolding vfs_inv_def rc_inv_def by blast
  then show ?thesis using w by blast
qed

theorem release_safe_witness:
  "\<exists>w. dentry_dec_rc 1 demo_vfs = Some w \<and> vfs_inv (demo_ext(1 := 0)) w \<and> dentries w 0 \<noteq> None"
  using release_safe[OF demo_vfs_inv, of 1] by (auto simp: demo_ext_def demo_vfs_def)

end
