(* ===== verification/Process.thy ===== *)
theory Process
  imports Elf Page_Cache Sched Vfs_Refs
begin

text \<open>
  Processes: \<^verbatim>\<open>src/src/kernel/proc/process.h\<close> and \<^verbatim>\<open>src/src/kernel/proc/process.cc\<close>, and the page fault and
  system call handlers of \<^verbatim>\<open>src/src/kernel/arch/x86/isrs.cc\<close>. The reference parameter \<^verbatim>\<open>res\<close> of the system calls
  is part of the state. Kernel buffers that live only during a call are lists of bytes.
\<close>

section \<open>Files and memory areas\<close>

type_synonym FileDescriptor = u32

definition InvalidFD :: FileDescriptor where "InvalidFD = - 1"

record open_file =
  f_dentry :: nat
  f_offset :: u64
  f_fd :: FileDescriptor

text \<open>The constructor does not store the descriptor that it is given.\<close>

definition new_file :: "nat \<Rightarrow> FileDescriptor \<Rightarrow> vfs \<Rightarrow> (open_file \<times> vfs) option" where
  "new_file d fd v = do { v \<leftarrow> dentry_inc_rc d v; Some (\<lparr>f_dentry = d, f_offset = 0, f_fd = 0\<rparr>, v) }"

definition delete_file :: "open_file \<Rightarrow> vfs \<Rightarrow> vfs option" where
  "delete_file f v = dentry_dec_rc (f_dentry f) v"

record vma_access =
  acc_executable :: bool
  acc_writable :: bool
  acc_readable :: bool

record vma_flags =
  map_anon :: bool
  map_private :: bool

record vma =
  vma_addr :: u32
  vma_len :: u32
  vma_prot :: vma_access
  vma_flags :: vma_flags
  vma_dentry :: "nat option"
  vma_offset :: u32

definition new_vma ::
    "u32 \<Rightarrow> u32 \<Rightarrow> vma_access \<Rightarrow> vma_flags \<Rightarrow> nat option \<Rightarrow> u32 \<Rightarrow> vfs \<Rightarrow> result \<Rightarrow> (vma \<times> vfs \<times> result) option" where
  "new_vma addr sz prot flags dentry offset v res =
     (let vm = \<lparr>vma_addr = addr, vma_len = sz, vma_prot = prot, vma_flags = flags, vma_dentry = dentry, vma_offset = offset\<rparr>
      in if (dentry = None) \<noteq> map_anon flags then Some (vm, v, InvalidArgs)
         else if \<not> PG_ALIGNED addr \<or> \<not> PG_ALIGNED offset \<or> sz = 0 then Some (vm, v, InvalidArgs)
         else case dentry of
           None \<Rightarrow> Some (vm, v, res)
         | Some d \<Rightarrow> do { v \<leftarrow> dentry_inc_rc d v; Some (vm, v, res) })"

definition delete_vma :: "vma \<Rightarrow> vfs \<Rightarrow> vfs option" where
  "delete_vma vm v = (case vma_dentry vm of None \<Rightarrow> Some v | Some d \<Rightarrow> dentry_dec_rc d v)"

section \<open>System calls\<close>

datatype Seek = Seek_Set | Seek_Cur | Seek_End

record process =
  eip3 :: ptr
  esp3 :: ptr
  p_tid :: ThreadID
  p_fds :: "open_file option list"
  p_vmas :: "vma list"
  page_directory :: ptr

record sys =
  s_proc :: process
  s_vfs :: vfs
  s_res :: result

definition fd_file :: "FileDescriptor \<Rightarrow> process \<Rightarrow> open_file option" where
  "fd_file fd pr = (if unat fd < length (p_fds pr) then p_fds pr ! unat fd else None)"

definition set_fd :: "FileDescriptor \<Rightarrow> open_file option \<Rightarrow> process \<Rightarrow> process" where
  "set_fd fd f pr = pr\<lparr>p_fds := (p_fds pr)[unat fd := f]\<rparr>"

fun free_fd :: "open_file option list \<Rightarrow> FileDescriptor \<Rightarrow> FileDescriptor option" where
  "free_fd [] fd = None"
| "free_fd (f # fs) fd = (if f = None then Some fd else free_fd fs (fd + 1))"

definition get_next_fd :: "process \<Rightarrow> FileDescriptor \<times> process" where
  "get_next_fd pr =
     (case free_fd (p_fds pr) 0 of
        Some fd \<Rightarrow> (fd, pr)
      | None \<Rightarrow> let pr = pr\<lparr>p_fds := p_fds pr @ [None]\<rparr> in (of_nat (length (p_fds pr)) - 1, pr))"

definition open_path :: "device \<Rightarrow> string_view \<Rightarrow> sys \<Rightarrow> (FileDescriptor \<times> sys) option" where
  "open_path dev path s = do {
     (dentry, v, res) \<leftarrow> pathname_lookup dev path (s_vfs s) (s_res s);
     case dentry of
       None \<Rightarrow> Some (InvalidFD, s\<lparr>s_vfs := v, s_res := res\<rparr>)
     | Some d \<Rightarrow> do {
         let (fd, pr) = get_next_fd (s_proc s);
         (f, v) \<leftarrow> new_file d fd v;
         Some (fd, \<lparr>s_proc = set_fd fd (Some f) pr, s_vfs = v, s_res = res\<rparr>)
       }
   }"

definition close_file :: "FileDescriptor \<Rightarrow> sys \<Rightarrow> sys option" where
  "close_file fd s =
     (case fd_file fd (s_proc s) of
        None \<Rightarrow> Some (s\<lparr>s_res := BadFD\<rparr>)
      | Some f \<Rightarrow> do { v \<leftarrow> delete_file f (s_vfs s); Some (s\<lparr>s_proc := set_fd fd None (s_proc s), s_vfs := v\<rparr>) })"

definition inode_of :: "nat \<Rightarrow> vfs \<Rightarrow> fat_inode option" where
  "inode_of d v = do { x \<leftarrow> dentries v d; inodes (vfs_fs v) (d_inode x) }"

definition truncate_file :: "string_view \<Rightarrow> u64 \<Rightarrow> sys \<Rightarrow> sys option" where
  "truncate_file path sz s = Some s"

definition mkdir :: "string_view \<Rightarrow> sys \<Rightarrow> sys option" where "mkdir path s = Some s"

definition rmdir :: "string_view \<Rightarrow> sys \<Rightarrow> sys option" where "rmdir path s = Some s"

definition link_file :: "string_view \<Rightarrow> string_view \<Rightarrow> sys \<Rightarrow> sys option" where "link_file target path s = Some s"

definition unlink :: "string_view \<Rightarrow> sys \<Rightarrow> sys option" where "unlink path s = Some s"

text \<open>\<^verbatim>\<open>Inode::creat\<close> of the FAT32 driver is not supported.\<close>

definition inode_creat :: "fat_inode \<Rightarrow> string_view \<Rightarrow> result" where
  "inode_creat ino name = Unsupported"

definition creat :: "device \<Rightarrow> string_view \<Rightarrow> sys \<Rightarrow> sys option" where
  "creat dev path s = do {
     (dentry, v, res) \<leftarrow> pathname_lookup dev path (s_vfs s) (s_res s);
     let s = s\<lparr>s_vfs := v, s_res := res\<rparr>;
     case dentry of
       Some d \<Rightarrow> do {
         ino \<leftarrow> inode_of d v;
         if is_directory ino then Some (s\<lparr>s_res := IsDirectory\<rparr>) else truncate_file path 0 s
       }
     | None \<Rightarrow> do {
         (dirname, basename) \<leftarrow> partition_path path;
         (parent, v, res) \<leftarrow> pathname_lookup dev dirname v res;
         let s = s\<lparr>s_vfs := v, s_res := res\<rparr>;
         case parent of
           None \<Rightarrow> Some (s\<lparr>s_res := FileNotFound\<rparr>)
         | Some p \<Rightarrow> do {
             ino \<leftarrow> inode_of p v;
             if \<not> is_directory ino then Some (s\<lparr>s_res := IsFile\<rparr>)
             else Some (s\<lparr>s_res := inode_creat ino basename\<rparr>)
           }
       }
   }"

definition lseek :: "FileDescriptor \<Rightarrow> 32 word \<Rightarrow> Seek \<Rightarrow> sys \<Rightarrow> sys option" where
  "lseek fd offset whence s =
     (case fd_file fd (s_proc s) of
        None \<Rightarrow> Some (s\<lparr>s_res := BadFD\<rparr>)
      | Some f \<Rightarrow>
          let seek = (\<lambda>new_seek :: 64 word.
            if sint new_seek < 0 then s\<lparr>s_res := InvalidArgs\<rparr>
            else s\<lparr>s_proc := set_fd fd (Some (f\<lparr>f_offset := new_seek\<rparr>)) (s_proc s)\<rparr>)
          in case whence of
            Seek_Set \<Rightarrow> Some (seek (scast offset))
          | Seek_Cur \<Rightarrow> Some (seek (f_offset f + scast offset))
          | Seek_End \<Rightarrow> Some (s\<lparr>s_res := Unsupported\<rparr>))"

text \<open>Where a new area is inserted; \<open>None\<close> when it overlaps an area met before that.\<close>

fun vma_slot :: "u32 \<Rightarrow> u32 \<Rightarrow> vma list \<Rightarrow> nat option" where
  "vma_slot addr sz [] = Some 0"
| "vma_slot addr sz (it # vmas) =
     (if range_overlaps2 addr sz (vma_addr it) (vma_len it) False then None
      else if vma_addr it > addr then Some 0
      else map_option Suc (vma_slot addr sz vmas))"

definition mmap ::
    "u32 \<Rightarrow> u32 \<Rightarrow> vma_access \<Rightarrow> vma_flags \<Rightarrow> FileDescriptor \<Rightarrow> u32 \<Rightarrow> sys \<Rightarrow> (ptr \<times> sys) option" where
  "mmap addr sz prot flags fd offset s =
     (if fd \<noteq> InvalidFD \<and> fd_file fd (s_proc s) = None then Some (0, s\<lparr>s_res := BadFD\<rparr>)
      else
        let dentry = (if fd = InvalidFD then None else map_option f_dentry (fd_file fd (s_proc s)));
            pr = s_proc s
        in case vma_slot addr sz (p_vmas pr) of
          None \<Rightarrow> Some (0, s\<lparr>s_res := MappingExists\<rparr>)
        | Some i \<Rightarrow> do {
            (vm, v, res) \<leftarrow> new_vma addr sz prot flags dentry offset (s_vfs s) (s_res s);
            if res \<noteq> Ok then do {
              v \<leftarrow> delete_vma vm v;
              Some (0, s\<lparr>s_vfs := v, s_res := res\<rparr>)
            }
            else Some (addr, \<lparr>s_proc = pr\<lparr>p_vmas := take i (p_vmas pr) @ vm # drop i (p_vmas pr)\<rparr>,
                              s_vfs = v, s_res = res\<rparr>)
          })"

text \<open>The bytes read, the value returned and the state; the offset of the file is passed as 32 bits.\<close>

definition read_file :: "device \<Rightarrow> FileDescriptor \<Rightarrow> u32 \<Rightarrow> sys \<Rightarrow> (u8 list \<times> 32 word \<times> sys) option" where
  "read_file dev fd cnt s =
     (case fd_file fd (s_proc s) of
        None \<Rightarrow> Some ([], - 1, s\<lparr>s_res := BadFD\<rparr>)
      | Some f \<Rightarrow> do {
          ino \<leftarrow> inode_of (f_dentry f) (s_vfs s);
          (buf, rval, res) \<leftarrow> inode_read dev (vfs_fs (s_vfs s)) ino (ucast (f_offset f)) cnt (s_res s);
          ASSERT ((sint rval < 0) \<noteq> (res = Ok));
          let f = (if sint rval > 0 then f\<lparr>f_offset := f_offset f + scast rval\<rparr> else f);
          Some (buf, rval, s\<lparr>s_proc := set_fd fd (Some f) (s_proc s), s_res := res\<rparr>)
        })"

end
