(* ===== verification/Exec.thy ===== *)
theory Exec
  imports Process
begin

text \<open>
  Processes in the kernel: the page fault and system call handlers of \<^verbatim>\<open>src/src/kernel/arch/x86/isrs.cc\<close>, and the
  loader, construction and exit of processes of \<^verbatim>\<open>src/src/kernel/proc/process.cc\<close>, over the scheduler, the page
  tables, the page cache and the filesystem. Processes are named by their addresses. What the
  hardware and the heap supply is in the environment \<open>env\<close>: \<^verbatim>\<open>::operator new(PG_SZ)\<close>, the contents of the block
  devices, and the stack pointer and the time stamps of a context switch.
\<close>

section \<open>The kernel\<close>

record 'h kernel =
  k_vfs :: vfs
  k_dev :: ptr
  k_sched :: scheduler
  k_mmu :: "'h mmu"
  k_cache :: "'h page_cache"
  k_procs :: "ptr \<rightharpoonup> process"

record 'h env =
  env_newp :: "'h \<Rightarrow> (ptr \<times> 'h) option"
  env_devs :: "ptr \<Rightarrow> device"
  env_esp :: ptr
  env_start :: u64
  env_now :: u64

subsection \<open>Exit\<close>

fun delete_vmas :: "vma list \<Rightarrow> vfs \<Rightarrow> vfs option" where
  "delete_vmas [] v = Some v"
| "delete_vmas (vm # vmas) v = delete_vma vm v \<bind> delete_vmas vmas"

fun delete_files :: "open_file option list \<Rightarrow> vfs \<Rightarrow> vfs option" where
  "delete_files [] v = Some v"
| "delete_files (f # fs) v = (case f of None \<Rightarrow> Some v | Some f \<Rightarrow> delete_file f v) \<bind> delete_files fs"

text \<open>The members are destroyed in the reverse order of their declaration.\<close>

definition delete_process :: "ptr \<Rightarrow> 'h kernel \<Rightarrow> 'h kernel option" where
  "delete_process p k = do {
     pr \<leftarrow> k_procs k p;
     v \<leftarrow> delete_vmas (p_vmas pr) (k_vfs k);
     v \<leftarrow> delete_files (p_fds pr) v;
     Some (k\<lparr>k_vfs := v, k_procs := (k_procs k)(p := None)\<rparr>)
   }"

text \<open>
  Destroying the running thread switches to another thread and does not return. The value says whether
  \<^verbatim>\<open>exit\<close> returns to its caller.
\<close>

definition exit_process :: "'h env \<Rightarrow> ptr \<Rightarrow> 'h kernel \<Rightarrow> (bool \<times> 'h kernel) option" where
  "exit_process env p k = do {
     pr \<leftarrow> k_procs k p;
     ASSERT (p_tid pr \<noteq> InvalidTID);
     let m = tid_map (k_sched k);
     t \<leftarrow> value_at (hm_find tid_hash (p_tid pr) m) m;
     let dirs = (\<lambda>q. map_option page_directory (k_procs k q));
     s \<leftarrow> destroy_thread_tid dirs (p_tid pr) (env_esp env) (env_start env) (env_now env) (k_sched k);
     let k' = k\<lparr>k_sched := s\<rparr>;
     if t = running (k_sched k) then Some (False, k')
     else do { k' \<leftarrow> delete_process p k'; Some (True, k') }
   }"

subsection \<open>Page faults\<close>

record PFErrorCode =
  err_p :: bool
  err_w :: bool
  err_u :: bool
  err_r :: bool
  err_i :: bool
  err_pk :: bool
  err_rsv0 :: u8
  err_ss :: bool
  err_sgx :: bool
  err_rsv1 :: u8

definition decode_PFErrorCode :: "u32 \<Rightarrow> PFErrorCode" where
  "decode_PFErrorCode e =
     \<lparr>err_p = bit e 0, err_w = bit e 1, err_u = bit e 2, err_r = bit e 3, err_i = bit e 4, err_pk = bit e 5,
      err_rsv0 = ucast (drop_bit 8 e), err_ss = bit e 16, err_sgx = bit e 17, err_rsv1 = ucast (drop_bit 24 e)\<rparr>"

definition pg_floor :: "u32 \<Rightarrow> u32" where "pg_floor a = ucast (floor_pow2 4096 (ucast a))"

definition pg_ceil :: "u32 \<Rightarrow> u64" where "pg_ceil a = ceil_pow2 4096 (ucast a)"

text \<open>Mapping the page of a fault in an area. The results of \<^verbatim>\<open>vmalloc\<close> and \<^verbatim>\<open>map\<close> are ignored.\<close>

definition map_fault :: "'h env \<Rightarrow> vma \<Rightarrow> ptr \<Rightarrow> 'h kernel \<Rightarrow> 'h kernel option" where
  "map_fault env vm addr k =
     (if map_anon (vma_flags vm) \<and> map_private (vma_flags vm) then do {
        (_, s) \<leftarrow> vmalloc (env_newp env) (pg_floor addr) 1 (acc_writable (vma_prot vm)) (k_mmu k);
        Some (k\<lparr>k_mmu := s\<rparr>)
      }
      else do {
        d \<leftarrow> vma_dentry vm;
        ino \<leftarrow> inode_of d (k_vfs k);
        (l, c, s) \<leftarrow> cache_get_inode (env_newp env) (env_devs env) (k_dev k) (vfs_fs (k_vfs k)) ino
          (floor_pow2 4096 (ucast (vma_offset vm))) (k_cache k) (k_mmu k);
        e \<leftarrow> lease_value c l;
        (_, s) \<leftarrow> map_page (env_newp env) (get_paddr (entry_page e)) (pg_floor addr) True (acc_writable (vma_prot vm)) False s;
        c \<leftarrow> lease_drop l c;
        Some (k\<lparr>k_cache := c, k_mmu := s\<rparr>)
      })"

definition in_vma :: "ptr \<Rightarrow> vma \<Rightarrow> bool" where
  "in_vma addr vm \<longleftrightarrow> \<not> (addr < vma_addr vm \<or> addr \<ge> vma_addr vm + vma_len vm)"

definition access_denied :: "PFErrorCode \<Rightarrow> vma \<Rightarrow> bool" where
  "access_denied err vm \<longleftrightarrow>
     \<not> err_w err \<and> \<not> acc_readable (vma_prot vm) \<or> err_w err \<and> \<not> acc_writable (vma_prot vm) \<or>
     err_i err \<and> \<not> acc_executable (vma_prot vm)"

text \<open>
  The process does not run on after \<^verbatim>\<open>exit\<close>: were it to return, the handler would go on with a deleted
  process, which is \<open>None\<close>, except at its end.
\<close>

definition isr_pf :: "'h env \<Rightarrow> ptr \<Rightarrow> u32 \<Rightarrow> 'h kernel \<Rightarrow> 'h kernel option" where
  "isr_pf env faulted_addr error_code k = do {
     let p = curr_proc (k_sched k);
     ASSERT (p \<noteq> 0);
     pr \<leftarrow> k_procs k p;
     let err = decode_PFErrorCode error_code;
     if err_p err then do { (ret, k) \<leftarrow> exit_process env p k; ASSERT (\<not> ret); Some k }
     else case List.find (in_vma faulted_addr) (p_vmas pr) of
       Some vm \<Rightarrow>
         if access_denied err vm \<and> \<not> (faulted_addr < hhdm_start \<and> \<not> err_u err)
         then do { (ret, k) \<leftarrow> exit_process env p k; ASSERT (\<not> ret); Some k }
         else map_fault env vm faulted_addr k
     | None \<Rightarrow> do { (ret, k) \<leftarrow> exit_process env p k; Some k }
   }"

subsection \<open>System calls\<close>

text \<open>The number of the system call is narrowed to 16 bits.\<close>

definition isr_syscall :: "'h env \<Rightarrow> u32 \<Rightarrow> u32 \<Rightarrow> 'h kernel \<Rightarrow> 'h kernel option" where
  "isr_syscall env eax ebx k = do {
     let p = curr_proc (k_sched k);
     ASSERT (p \<noteq> 0);
     if (ucast eax :: u16) = 1 then do { (ret, k) \<leftarrow> exit_process env p k; Some k }
     else None
   }"

subsection \<open>Writing to the memory of a process\<close>

definition put_byte :: "nat \<Rightarrow> u8 \<Rightarrow> u32 \<Rightarrow> u32" where
  "put_byte j b w = (w AND NOT (push_bit (8 * j) 0xFF)) OR push_bit (8 * j) (ucast b)"

definition set_byte :: "nat \<Rightarrow> u8 \<Rightarrow> 'h mmu \<Rightarrow> 'h mmu" where
  "set_byte i b s = set_word (i div 4) (put_byte (i mod 4) b (pmem s (i div 4))) s"

text \<open>
  A write of the kernel, whose page may be read-only since write protection is off in kernel mode. A
  page that is not present faults; the write is then repeated, forever if the page is still missing.
\<close>

definition store_byte :: "'h env \<Rightarrow> ptr \<Rightarrow> u8 \<Rightarrow> 'h kernel \<Rightarrow> 'h kernel option" where
  "store_byte env addr b k = do {
     k \<leftarrow> (if translate (k_mmu k) addr = None then isr_pf env addr 2 k else Some k);
     (pa, _, _) \<leftarrow> translate (k_mmu k) addr;
     Some (k\<lparr>k_mmu := set_byte (unat pa) b (k_mmu k)\<rparr>)
   }"

fun store_bytes :: "'h env \<Rightarrow> ptr \<Rightarrow> u8 list \<Rightarrow> 'h kernel \<Rightarrow> 'h kernel option" where
  "store_bytes env addr [] k = Some k"
| "store_bytes env addr (b # bs) k = store_byte env addr b k \<bind> store_bytes env (addr + 1) bs"

subsection \<open>Loading an executable\<close>

text \<open>The state of the loader: the kernel and the buffer \<^verbatim>\<open>scoped_buf\<close>. A step starts with result \<^verbatim>\<open>Ok\<close>.\<close>

type_synonym 'h load = "'h kernel \<times> u8 list"

definition check_res :: "(result \<times> 'h load) option \<Rightarrow> ('h load \<Rightarrow> (result \<times> 'h load) option) \<Rightarrow> (result \<times> 'h load) option" where
  "check_res m f = do { (res, st) \<leftarrow> m; if res \<noteq> Ok then Some (res, st) else f st }"

definition sys_step :: "ptr \<Rightarrow> (sys \<Rightarrow> ('a \<times> sys) option) \<Rightarrow> 'h kernel \<Rightarrow> ('a \<times> result \<times> 'h kernel) option" where
  "sys_step p f k = do {
     pr \<leftarrow> k_procs k p;
     (x, s) \<leftarrow> f \<lparr>s_proc = pr, s_vfs = k_vfs k, s_res = Ok\<rparr>;
     Some (x, s_res s, k\<lparr>k_vfs := s_vfs s, k_procs := (k_procs k)(p \<mapsto> s_proc s)\<rparr>)
   }"

definition mmap_step :: "ptr \<Rightarrow> u32 \<Rightarrow> u32 \<Rightarrow> vma_access \<Rightarrow> vma_flags \<Rightarrow> FileDescriptor \<Rightarrow> u32 \<Rightarrow> 'h load \<Rightarrow> (result \<times> 'h load) option" where
  "mmap_step p addr sz prot flags fd offset st = do {
     (_, res, k) \<leftarrow> sys_step p (mmap addr sz prot flags fd offset) (fst st);
     Some (res, k, snd st)
   }"

definition read_step :: "device \<Rightarrow> ptr \<Rightarrow> FileDescriptor \<Rightarrow> 'h load \<Rightarrow> (result \<times> 'h load) option" where
  "read_step dev p fd st = do {
     (bytes, res, k) \<leftarrow> sys_step p (\<lambda>s. do { (bytes, n, s) \<leftarrow> read_file dev fd PG_SZ s; Some (bytes, s) }) (fst st);
     Some (res, k, bytes @ drop (length bytes) (snd st))
   }"

definition copy_page_step :: "'h env \<Rightarrow> ptr \<Rightarrow> FileDescriptor \<Rightarrow> u32 \<Rightarrow> 'h load \<Rightarrow> (result \<times> 'h load) option" where
  "copy_page_step env p fd offset st = do {
     ASSERT (PG_ALIGNED offset);
     check_res
       (do { (_, res, k) \<leftarrow> sys_step p (\<lambda>s. do { s \<leftarrow> lseek fd offset Seek_Set s; Some ((), s) }) (fst st); Some (res, k, snd st) })
       (\<lambda>st. read_step (env_devs env (k_dev (fst st))) p fd st)
   }"

definition store_step :: "'h env \<Rightarrow> ptr \<Rightarrow> u8 list \<Rightarrow> 'h load \<Rightarrow> 'h load option" where
  "store_step env addr bs st = do { k \<leftarrow> store_bytes env addr bs (fst st); Some (k, snd st) }"

text \<open>Bytes of a buffer; \<open>None\<close> is a read past its end.\<close>

definition buf_slice :: "nat \<Rightarrow> nat \<Rightarrow> u8 list \<Rightarrow> u8 list option" where
  "buf_slice i n buf = (if i + n \<le> length buf then Some (take n (drop i buf)) else None)"

definition seg_prot :: "PHEntry \<Rightarrow> vma_access" where
  "seg_prot ph = \<lparr>acc_executable = ph_executable ph, acc_writable = ph_writable ph, acc_readable = ph_readable ph\<rparr>"

definition flags_file :: vma_flags where "flags_file = \<lparr>map_anon = False, map_private = True\<rparr>"

definition flags_anon :: vma_flags where "flags_anon = \<lparr>map_anon = True, map_private = True\<rparr>"

text \<open>The four parts of a segment.\<close>

definition head_copy :: "'h env \<Rightarrow> PHEntry \<Rightarrow> 'h load \<Rightarrow> (result \<times> 'h load) option" where
  "head_copy env ph st = do {
     let pg_start = pg_floor (ph_vaddr ph);
     let start_off = ph_vaddr ph mod PG_SZ;
     let end_off = (ucast (min (ucast (ph_vaddr ph + ph_filesz ph)) (pg_ceil (ph_vaddr ph)) - ucast pg_start) :: u32);
     st \<leftarrow> store_step env pg_start (replicate (unat start_off) 0) st;
     bytes \<leftarrow> buf_slice (unat start_off) (unat (end_off - start_off)) (snd st);
     st \<leftarrow> store_step env (pg_start + start_off) bytes st;
     st \<leftarrow> store_step env (pg_start + end_off) (replicate (unat (PG_SZ - end_off)) 0) st;
     Some (Ok, st)
   }"

definition seg_head :: "'h env \<Rightarrow> ptr \<Rightarrow> FileDescriptor \<Rightarrow> PHEntry \<Rightarrow> 'h load \<Rightarrow> (result \<times> 'h load) option" where
  "seg_head env p bin_fd ph st =
     (if PG_ALIGNED (ph_vaddr ph) then Some (Ok, st)
      else check_res
        (check_res (mmap_step p (pg_floor (ph_vaddr ph)) PG_SZ (seg_prot ph) flags_anon InvalidFD 0 st)
           (copy_page_step env p bin_fd (pg_floor (ph_offset ph))))
        (head_copy env ph))"

definition full_pg_start :: "PHEntry \<Rightarrow> u32" where "full_pg_start ph = ucast (pg_ceil (ph_vaddr ph))"

definition full_pg_end :: "PHEntry \<Rightarrow> u32" where "full_pg_end ph = pg_floor (ph_vaddr ph + ph_filesz ph)"

definition filesz_ceil :: "PHEntry \<Rightarrow> u32" where "filesz_ceil ph = ucast (pg_ceil (ph_vaddr ph + ph_filesz ph))"

definition memsz_ceil :: "PHEntry \<Rightarrow> u32" where "memsz_ceil ph = ucast (pg_ceil (ph_vaddr ph + ph_memsz ph))"

definition seg_full :: "ptr \<Rightarrow> FileDescriptor \<Rightarrow> PHEntry \<Rightarrow> 'h load \<Rightarrow> (result \<times> 'h load) option" where
  "seg_full p bin_fd ph st =
     (if full_pg_end ph > full_pg_start ph
      then mmap_step p (full_pg_start ph) (full_pg_end ph - full_pg_start ph) (seg_prot ph) flags_file bin_fd
             (ph_offset ph + (full_pg_start ph - ph_vaddr ph)) st
      else Some (Ok, st))"

definition tail_copy :: "'h env \<Rightarrow> PHEntry \<Rightarrow> 'h load \<Rightarrow> (result \<times> 'h load) option" where
  "tail_copy env ph st = do {
     let pg_start = full_pg_end ph;
     let end_off = ph_vaddr ph + ph_filesz ph - pg_start;
     bytes \<leftarrow> buf_slice 0 (unat end_off) (snd st);
     st \<leftarrow> store_step env pg_start bytes st;
     st \<leftarrow> store_step env (pg_start + end_off) (replicate (unat (PG_SZ - end_off)) 0) st;
     Some (Ok, st)
   }"

definition seg_tail :: "'h env \<Rightarrow> ptr \<Rightarrow> FileDescriptor \<Rightarrow> PHEntry \<Rightarrow> 'h load \<Rightarrow> (result \<times> 'h load) option" where
  "seg_tail env p bin_fd ph st =
     (if filesz_ceil ph > full_pg_end ph \<and> full_pg_end ph \<ge> full_pg_start ph
      then check_res
        (check_res (mmap_step p (full_pg_end ph) PG_SZ (seg_prot ph) flags_anon InvalidFD 0 st)
           (copy_page_step env p bin_fd (ph_offset ph + (full_pg_end ph - ph_vaddr ph))))
        (tail_copy env ph)
      else Some (Ok, st))"

definition seg_bss :: "ptr \<Rightarrow> PHEntry \<Rightarrow> 'h load \<Rightarrow> (result \<times> 'h load) option" where
  "seg_bss p ph st =
     (if memsz_ceil ph > filesz_ceil ph
      then mmap_step p (filesz_ceil ph) (memsz_ceil ph - filesz_ceil ph) (seg_prot ph) flags_anon InvalidFD 0 st
      else Some (Ok, st))"

definition map_segment :: "'h env \<Rightarrow> ptr \<Rightarrow> FileDescriptor \<Rightarrow> PHEntry \<Rightarrow> 'h load \<Rightarrow> (result \<times> 'h load) option" where
  "map_segment env p bin_fd ph st =
     (if ph_type ph \<noteq> PH_Load then Some (Ok, st)
      else if ph_vaddr ph mod PG_SZ \<noteq> ph_offset ph mod PG_SZ then Some (NonExecutable, st)
      else check_res
        (check_res
          (check_res (seg_head env p bin_fd ph st) (seg_full p bin_fd ph))
          (seg_tail env p bin_fd ph))
        (seg_bss p ph))"

fun map_segments :: "'h env \<Rightarrow> ptr \<Rightarrow> FileDescriptor \<Rightarrow> u8 list \<Rightarrow> u32 \<Rightarrow> nat list \<Rightarrow> 'h load \<Rightarrow> (result \<times> 'h load) option" where
  "map_segments env p bin_fd img table [] st = Some (Ok, st)"
| "map_segments env p bin_fd img table (i # is) st = do {
     ph \<leftarrow> ph_entry img table i;
     check_res (map_segment env p bin_fd ph st) (map_segments env p bin_fd img table is)
   }"

text \<open>\<open>junk\<close> is the initial contents of the buffer, which is not initialised.\<close>

definition map_elf_segments :: "'h env \<Rightarrow> ptr \<Rightarrow> string_view \<Rightarrow> u8 list \<Rightarrow> 'h kernel \<Rightarrow> (result \<times> 'h kernel) option" where
  "map_elf_segments env p bin_path junk k = do {
     let dev = env_devs env (k_dev k);
     (bin_fd, res, k) \<leftarrow> sys_step p (open_path dev bin_path) k;
     if res \<noteq> Ok then Some (res, k)
     else do {
       (img, res, k) \<leftarrow> sys_step p (\<lambda>s. do { (bytes, n, s) \<leftarrow> read_file dev bin_fd PG_SZ s; Some (bytes, s) }) k;
       if res \<noteq> Ok then Some (res, k)
       else do {
         (res, exe) \<leftarrow> parse_executable img;
         if res \<noteq> Ok then Some (res, k)
         else do {
           pr \<leftarrow> k_procs k p;
           let k = k\<lparr>k_procs := (k_procs k)(p \<mapsto> pr\<lparr>eip3 := e_entry (exe_hdr exe)\<rparr>)\<rparr>;
           table \<leftarrow> exe_ph_table exe;
           (res, k, _) \<leftarrow> map_segments env p bin_fd img table [0..<unat (e_phnum (exe_hdr exe))] (k, junk);
           if res \<noteq> Ok then Some (res, k)
           else do {
             (_, res, k) \<leftarrow> sys_step p (\<lambda>s. do { s \<leftarrow> close_file bin_fd s; Some ((), s) }) k;
             Some (res, k)
           }
         }
       }
     }
   }"

subsection \<open>Construction\<close>

definition enter_virtual_address_space :: "process \<Rightarrow> 'h mmu \<Rightarrow> 'h mmu option" where
  "enter_virtual_address_space pr s = do { ASSERT (page_directory pr \<noteq> 0); set_page_directory (page_directory pr) s }"

definition enter_proc_context :: "ptr \<Rightarrow> ptr \<Rightarrow> 'h kernel \<Rightarrow> (ptr \<times> 'h kernel) option" where
  "enter_proc_context p pd k = do {
     prev_pd \<leftarrow> get_page_directory (k_mmu k);
     s \<leftarrow> override_curr_proc p (k_sched k);
     m \<leftarrow> set_page_directory pd (k_mmu k);
     Some (prev_pd, k\<lparr>k_sched := s, k_mmu := m\<rparr>)
   }"

definition leave_proc_context :: "ptr \<Rightarrow> 'h kernel \<Rightarrow> 'h kernel option" where
  "leave_proc_context prev_pd k = do {
     m \<leftarrow> set_page_directory prev_pd (k_mmu k);
     s \<leftarrow> override_curr_proc 0 (k_sched k);
     Some (k\<lparr>k_sched := s, k_mmu := m\<rparr>)
   }"

text \<open>
  \<open>p\<close> is the address of the new process. \<open>stk\<close>, \<open>t\<close> and \<open>junk_thread\<close> are the allocations of the new thread, as in
  \<open>new_thread\<close>.
\<close>

definition new_process ::
    "'h env \<Rightarrow> ptr \<Rightarrow> ptr \<Rightarrow> ptr \<Rightarrow> kernel_thread \<Rightarrow> u8 list \<Rightarrow> string_view \<Rightarrow> 'h kernel \<Rightarrow> (result \<times> 'h kernel) option" where
  "new_process env p stk t junk_thread junk bin_path k = do {
     (pd, m) \<leftarrow> clone_kernel_page_directory (env_newp env) (k_mmu k);
     let k = k\<lparr>k_mmu := m, k_procs := (k_procs k)(p \<mapsto>
       \<lparr>eip3 = 0, esp3 = 0, p_tid = InvalidTID, p_fds = [], p_vmas = [], page_directory = pd\<rparr>)\<rparr>;
     (prev_pd, k) \<leftarrow> enter_proc_context p pd k;
     (res, k) \<leftarrow> map_elf_segments env p bin_path junk k;
     k \<leftarrow> leave_proc_context prev_pd k;
     if res \<noteq> Ok then Some (res, k)
     else do {
       let stack_size = 8 * 1024;
       let stack_top = hhdm_start;
       (_, res, k) \<leftarrow> sys_step p (mmap (stack_top - stack_size) stack_size
         \<lparr>acc_executable = False, acc_writable = True, acc_readable = True\<rparr> flags_anon InvalidFD 0) k;
       if res \<noteq> Ok then Some (res, k)
       else do {
         (new_tid, s) \<leftarrow> new_thread p stk t junk_thread (k_sched k);
         pr \<leftarrow> k_procs k p;
         Some (res, k\<lparr>k_sched := s, k_procs := (k_procs k)(p \<mapsto> pr\<lparr>esp3 := stack_top, p_tid := new_tid\<rparr>)\<rparr>)
       }
     }
   }"

text \<open>
  The entry to user mode: the kernel stack pointer for traps, from the stack pointer \<open>esp\<close>, and the user
  stack and instruction pointers.
\<close>

definition jump_to_userspace :: "ptr \<Rightarrow> process \<Rightarrow> ptr \<times> ptr \<times> ptr" where
  "jump_to_userspace esp pr = (ucast (pg_ceil esp), esp3 pr, eip3 pr)"

end
