(* ===== verification/Process_Calls.thy ===== *)
theory Process_Calls
  imports Process
begin

text \<open>
  The properties of the system calls: the list of memory areas, the descriptors, and the references that
  a process holds on dentries.
\<close>

section \<open>Memory areas\<close>

definition areas_overlap :: "u32 \<Rightarrow> u32 \<Rightarrow> vma \<Rightarrow> bool" where
  "areas_overlap addr sz x \<longleftrightarrow>
     unat addr < unat (vma_addr x) + unat (vma_len x) \<and> unat (vma_addr x) < unat addr + unat sz"

definition vma_ok :: "vma \<Rightarrow> bool" where
  "vma_ok x \<longleftrightarrow> no_wrap (vma_addr x) (vma_len x) \<and> vma_len x \<noteq> 0 \<and> PG_ALIGNED (vma_addr x) \<and> PG_ALIGNED (vma_offset x) \<and>
     (vma_dentry x = None \<longleftrightarrow> map_anon (vma_flags x))"

abbreviation below :: "vma \<Rightarrow> vma \<Rightarrow> bool" where
  "below x y \<equiv> unat (vma_addr x) + unat (vma_len x) \<le> unat (vma_addr y)"

text \<open>The areas are sorted by address, disjoint, aligned and not empty.\<close>

definition vmas_ok :: "vma list \<Rightarrow> bool" where
  "vmas_ok xs \<longleftrightarrow> (\<forall>x\<in>set xs. vma_ok x) \<and> sorted_wrt below xs"

lemma vma_slot_Cons:
  assumes "vma_ok x" "no_wrap addr sz"
  shows "vma_slot addr sz (x # xs) =
    (if areas_overlap addr sz x then None
     else if unat addr < unat (vma_addr x) then Some 0 else map_option Suc (vma_slot addr sz xs))"
  using assms by (simp add: range_overlaps2_nat areas_overlap_def vma_ok_def word_less_nat_alt)

declare vma_slot.simps(2) [simp del]

lemma vma_slot_None:
  "vmas_ok xs \<Longrightarrow> no_wrap addr sz \<Longrightarrow> vma_slot addr sz xs = None \<longleftrightarrow> (\<exists>x\<in>set xs. areas_overlap addr sz x)"
proof (induction xs)
  case (Cons x xs)
  have ok: "vma_ok x" "vmas_ok xs" "\<And>y. y \<in> set xs \<Longrightarrow> below x y"
    using Cons.prems(1) by (auto simp: vmas_ok_def)
  have "\<not> areas_overlap addr sz y" if "y \<in> set xs" "\<not> areas_overlap addr sz x" "unat addr < unat (vma_addr x)" for y
    using ok(3)[OF that(1)] that(2,3) by (auto simp: areas_overlap_def)
  then show ?case
    using Cons.IH[OF ok(2) Cons.prems(2)] by (auto simp: vma_slot_Cons[OF ok(1) Cons.prems(2)])
qed simp



section \<open>References\<close>

definition refs :: "process \<Rightarrow> nat \<Rightarrow> nat" where
  "refs pr d = length (filter (\<lambda>f. map_option f_dentry f = Some d) (p_fds pr)) +
     length (filter (\<lambda>vm. vma_dentry vm = Some d) (p_vmas pr))"

text \<open>\<open>ext\<close> are the references of the rest of the system, one of them to the root.\<close>

definition proc_inv :: "(nat \<Rightarrow> nat) \<Rightarrow> sys \<Rightarrow> bool" where
  "proc_inv ext s \<longleftrightarrow> vfs_inv (\<lambda>d. ext d + refs (s_proc s) d) (s_vfs s) \<and> 0 < ext (vfs.root (s_vfs s)) \<and>
     vmas_ok (p_vmas (s_proc s))"

definition proc_bounds :: "(nat \<Rightarrow> nat) \<Rightarrow> nat \<Rightarrow> sys \<Rightarrow> bool" where
  "proc_bounds ext n s \<longleftrightarrow> fresh_dentry (s_vfs s) + n < 2 ^ 31 \<and> (\<forall>d. ext d + refs (s_proc s) d < 2 ^ 31) \<and>
     length (p_fds (s_proc s)) < 2 ^ 31"

lemma filter_update:
  "i < length xs \<Longrightarrow> length (filter P (xs[i := y])) + of_bool (P (xs ! i)) = length (filter P xs) + of_bool (P y)"
proof (induction xs arbitrary: i)
  case (Cons x xs)
  then show ?case by (cases i) (auto simp: algebra_simps)
qed simp

lemma refs_set_fd:
  assumes "unat fd < length (p_fds pr)"
  shows "refs (set_fd fd f pr) d + of_bool (map_option f_dentry (p_fds pr ! unat fd) = Some d) =
    refs pr d + of_bool (map_option f_dentry f = Some d)"
  using filter_update[OF assms, of "\<lambda>f. map_option f_dentry f = Some d" f] by (simp add: refs_def set_fd_def)

lemma refs_open_fd: "fd_file fd pr = Some f \<Longrightarrow> 0 < refs pr (f_dentry f)"
proof -
  assume "fd_file fd pr = Some f"
  then have "Some f \<in> set (p_fds pr)" by (metis fd_file_def nth_mem option.distinct(1))
  then have "filter (\<lambda>g. map_option f_dentry g = Some (f_dentry f)) (p_fds pr) \<noteq> []"
    by (auto simp: filter_empty_conv)
  then show ?thesis by (simp add: refs_def)
qed


lemma inc_rc_inv:
  assumes "vfs_inv ext v" "dentries v d \<noteq> None" "fresh_dentry v < 2 ^ 31" "ext d < 2 ^ 31"
  shows "\<exists>w. dentry_inc_rc d v = Some w \<and> vfs_inv (ext(d := ext d + 1)) w \<and> vfs.root w = vfs.root v \<and>
    (\<forall>p cs. at_path v p cs \<longrightarrow> at_path w p cs)"
proof -
  have t: "tree_inv v" "rc_inv ext v" using assms(1) by (simp_all add: vfs_inv_def)
  obtain x where x: "dentries v d = Some x" using assms(2) by blast
  let ?w = "v\<lparr>dentries := (dentries v)(d \<mapsto> x\<lparr>d_rc := d_rc x + 1\<rparr>)\<rparr>"
  have "set (d_children x) \<subseteq> {..<fresh_dentry v}" "distinct (d_children x)"
    using tree_invD(1,5)[OF t(1)] x by (auto simp: children_of_def)
  then have "length (d_children x) \<le> fresh_dentry v"
    by (metis card_lessThan card_mono distinct_card finite_lessThan)
  moreover have "unat (d_rc x) = length (d_children x) + ext d" using t(2) x by (simp add: rc_inv_def)
  ultimately have "unat (d_rc x + 1) = length (d_children x) + (ext d + 1)"
    using assms(3,4) by (subst unat_add_no_wrap) simp_all
  from set_rc_inv[OF assms(1) x this] have "vfs_inv (ext(d := ext d + 1)) ?w" by simp
  moreover have "dentry_inc_rc d v = Some ?w" by (simp add: dentry_inc_rc_def upd_dentry_def x)
  moreover have "at_path ?w p cs" if "at_path v p cs" for p cs
    using that
  proof (induction rule: at_path.induct)
    case at_root
    have "vfs.root ?w = vfs.root v" by simp
    then show ?case using at_path.at_root[of ?w] by (simp only:)
  next
    case (at_child p cs e y)
    define y' where "y' = (if e = d then x\<lparr>d_rc := d_rc x + 1\<rparr> else y)"
    have "dentries ?w e = Some y'" "d_parent y' = Some p" "d_component y' = d_component y"
      using at_child.hyps x by (auto simp: y'_def)
    then show ?case using at_path.at_child[OF at_child.IH] by metis
  qed
  moreover have "vfs.root ?w = vfs.root v" by simp
  ultimately show ?thesis by blast
qed

lemma upd_dentry_root: "upd_dentry d f v = Some w \<Longrightarrow> vfs.root w = vfs.root v"
  by (auto simp: upd_dentry_def bind_eq_Some_conv)

lemma dec_rc_root:
  assumes "dentry_dec_rc d v = Some w"
  shows "vfs.root w = vfs.root v"
proof (rule dentry_dec_rc.raw_induct[OF _ assms, where P = "\<lambda>d v w. vfs.root w = vfs.root v"])
  fix dec d v w
  assume ih: "\<And>d v w. dec d v = Some w \<Longrightarrow> vfs.root w = vfs.root v"
    and w: "dentries v d \<bind> (\<lambda>x. ASSERT (d_rc x \<noteq> 0) \<bind> (\<lambda>_. upd_dentry d (\<lambda>x. x\<lparr>d_rc := d_rc x - 1\<rparr>) v \<bind> (\<lambda>v.
       if d_rc x - 1 \<noteq> 0 then Some v
       else ASSERT (d_children x = []) \<bind> (\<lambda>_. inode_dec_rc (d_inode x) (vfs_fs v) \<bind> (\<lambda>fs. let v = v\<lparr>vfs_fs := fs\<rparr> in
         (case d_parent x of None \<Rightarrow> Some v
          | Some p \<Rightarrow> upd_dentry p (\<lambda>y. y\<lparr>d_children := remove1 d (d_children y)\<rparr>) v \<bind> (\<lambda>v. dec p v \<bind> (\<lambda>v.
              if in_hashtable x then ASSERT (dcache_lookup v (p, d_component x) = Some d) \<bind> (\<lambda>_.
                Some (v\<lparr>dcache_lookup := (dcache_lookup v)((p, d_component x) := None)\<rparr>))
              else Some v))) \<bind> (\<lambda>v. Some (v\<lparr>dentries := (dentries v)(d := None)\<rparr>))))))) = Some w"
  from w show "vfs.root w = vfs.root v"
    by (auto simp: bind_eq_Some_conv Let_def split: if_splits option.splits dest!: ih upd_dentry_root)
qed

lemma dec_rc_inv:
  assumes "vfs_inv ext v" "0 < ext d" "d = vfs.root v \<longrightarrow> 1 < ext d"
  shows "\<exists>w. dentry_dec_rc d v = Some w \<and> vfs_inv (ext(d := ext d - 1)) w \<and> vfs.root w = vfs.root v"
  using dec_rc_frame[OF assms] extended_empty dec_rc_root by metis

section \<open>Descriptors\<close>

lemma free_fd_spec:
  "free_fd fs fd = (if None \<in> set fs then Some (fd + of_nat (length (takeWhile (\<lambda>f. f \<noteq> None) fs))) else None)"
  by (induction fs arbitrary: fd) (auto simp: algebra_simps)

lemma takeWhile_None:
  assumes "None \<in> set fs" "n = length (takeWhile (\<lambda>f. f \<noteq> None) fs)"
  shows "n < length fs" "fs ! n = None" "\<forall>i < n. fs ! i \<noteq> None"
proof -
  show l: "n < length fs" using assms(1) unfolding assms(2) by (induction fs) auto
  show "fs ! n = None" using nth_length_takeWhile[of "\<lambda>f. f \<noteq> None" fs] l assms(2) by simp
  show "\<forall>i < n. fs ! i \<noteq> None"
  proof (intro allI impI)
    fix i assume i: "i < n"
    then have "takeWhile (\<lambda>f. f \<noteq> None) fs ! i \<in> set (takeWhile (\<lambda>f. f \<noteq> None) fs)" using assms(2) by simp
    then show "fs ! i \<noteq> None" using set_takeWhileD takeWhile_nth[OF i[unfolded assms(2)]] by fastforce
  qed
qed

text \<open>The new descriptor is the smallest that is not in use.\<close>

lemma get_next_fd_spec:
  assumes "get_next_fd pr = (fd, pr')" "length (p_fds pr) < 2 ^ 31"
  shows "unat fd < length (p_fds pr')" "p_fds pr' ! unat fd = None" "fd_file fd pr = None"
    "\<forall>i < unat fd. p_fds pr ! i \<noteq> None \<and> i < length (p_fds pr)" "refs pr' = refs pr" "p_vmas pr' = p_vmas pr"
    "\<forall>fd'. fd_file fd' pr' = fd_file fd' pr"
proof -
  have "unat fd < length (p_fds pr') \<and> p_fds pr' ! unat fd = None \<and> fd_file fd pr = None \<and>
    (\<forall>i < unat fd. p_fds pr ! i \<noteq> None \<and> i < length (p_fds pr)) \<and> refs pr' = refs pr \<and> p_vmas pr' = p_vmas pr \<and>
    (\<forall>fd'. fd_file fd' pr' = fd_file fd' pr)"
  proof (cases "None \<in> set (p_fds pr)")
    case True
    define n where "n = length (takeWhile (\<lambda>f. f \<noteq> None) (p_fds pr))"
    note t = takeWhile_None[OF True n_def]
    have e: "fd = of_nat n" "pr' = pr" using assms(1) True by (auto simp: get_next_fd_def free_fd_spec n_def)
    have "unat fd = n" using t(1) assms(2) e by (simp add: unat_of_nat_small)
    then show ?thesis using t e by (simp add: fd_file_def)
  next
    case False
    then have e: "fd = of_nat (length (p_fds pr))" "pr' = pr\<lparr>p_fds := p_fds pr @ [None]\<rparr>"
      using assms(1) by (auto simp: get_next_fd_def free_fd_spec)
    have "unat fd = length (p_fds pr)" using assms(2) e by (simp add: unat_of_nat_small)
    moreover have "p_fds pr ! i \<noteq> None" if "i < length (p_fds pr)" for i using False that by (metis nth_mem)
    ultimately show ?thesis using e by (auto simp: fd_file_def refs_def fun_eq_iff nth_append)
  qed
  then show "unat fd < length (p_fds pr')" "p_fds pr' ! unat fd = None" "fd_file fd pr = None"
    "\<forall>i < unat fd. p_fds pr ! i \<noteq> None \<and> i < length (p_fds pr)" "refs pr' = refs pr" "p_vmas pr' = p_vmas pr"
    "\<forall>fd'. fd_file fd' pr' = fd_file fd' pr" by blast+
qed

lemma pathname_spec:
  assumes "vfs_inv ext v" "length path < 2 ^ 31" "fresh_dentry v + length (components path) < 2 ^ 31" "\<forall>d. ext d < 2 ^ 31"
    and "pathname_lookup dev path v Ok = Some (r, w, res)"
  shows "vfs_inv ext w" "fresh_dentry w < 2 ^ 31" "vfs.root w = vfs.root v" "r = None \<Longrightarrow> res = FileNotFound"
    "\<And>d. r = Some d \<Longrightarrow> res = Ok \<and> at_path w d (normalize [] (components path)) \<and> dentries w d \<noteq> None"
proof -
  have "walk dev (components path) (vfs.root v) v Ok = Some (r, w, res)"
    using assms(5) by (simp add: pathname_lookup_def lookup_loop_walk[OF assms(2)])
  note w = walk_spec[OF assms(1) at_root assms(3,4) this]
  then show "vfs_inv ext w" "fresh_dentry w < 2 ^ 31" "vfs.root w = vfs.root v" using assms(3) by linarith+
  then have t: "tree_inv w" by (simp add: vfs_inv_def)
  show "r = None \<Longrightarrow> res = FileNotFound" using w by simp
  show "\<And>d. r = Some d \<Longrightarrow> res = Ok \<and> at_path w d (normalize [] (components path)) \<and> dentries w d \<noteq> None"
    using w at_path_dentry[OF t] by fastforce
qed

lemma open_spec:
  assumes "proc_inv ext s" "s_res s = Ok" "length path < 2 ^ 31" "proc_bounds ext (length (components path)) s"
    and "open_path dev path s = Some (fd, s')"
  shows "proc_inv ext s' \<and> (if s_res s' = Ok
     then (\<exists>d. fd_file fd (s_proc s') = Some \<lparr>f_dentry = d, f_offset = 0, f_fd = 0\<rparr> \<and>
             at_path (s_vfs s') d (normalize [] (components path))) \<and>
          fd_file fd (s_proc s) = None \<and> (\<forall>i < unat fd. i < length (p_fds (s_proc s)) \<and> p_fds (s_proc s) ! i \<noteq> None) \<and>
          (\<forall>fd'. fd' \<noteq> fd \<longrightarrow> fd_file fd' (s_proc s') = fd_file fd' (s_proc s))
     else s_res s' = FileNotFound \<and> fd = InvalidFD \<and> s_proc s' = s_proc s)"
proof -
  let ?e = "\<lambda>d. ext d + refs (s_proc s) d"
  have inv: "vfs_inv ?e (s_vfs s)" "0 < ext (vfs.root (s_vfs s))" "vmas_ok (p_vmas (s_proc s))"
    using assms(1) by (simp_all add: proc_inv_def)
  have b: "fresh_dentry (s_vfs s) + length (components path) < 2 ^ 31" "\<forall>d. ?e d < 2 ^ 31" "length (p_fds (s_proc s)) < 2 ^ 31"
    using assms(4) by (simp_all add: proc_bounds_def)
  obtain r v res where l: "pathname_lookup dev path (s_vfs s) Ok = Some (r, v, res)"
    using assms(2,5) by (auto simp: open_path_def bind_eq_Some_conv)
  note p = pathname_spec[OF inv(1) assms(3) b(1,2) l]
  show ?thesis
  proof (cases r)
    case None
    then have "s' = s\<lparr>s_vfs := v, s_res := res\<rparr>" "fd = InvalidFD" "res = FileNotFound"
      using assms(2,5) l p(4) by (auto simp: open_path_def)
    then show ?thesis using p(1,3) inv by (simp add: proc_inv_def)
  next
    case (Some d)
    note d = p(5)[OF Some]
    obtain w where w: "dentry_inc_rc d v = Some w" "vfs_inv (?e(d := ?e d + 1)) w" "vfs.root w = vfs.root v"
        "\<forall>p cs. at_path v p cs \<longrightarrow> at_path w p cs"
      using inc_rc_inv[OF p(1) _ p(2), of d] d b(2) by blast
    obtain pr' where g: "get_next_fd (s_proc s) = (fd, pr')"
        "s' = \<lparr>s_proc = set_fd fd (Some \<lparr>f_dentry = d, f_offset = 0, f_fd = 0\<rparr>) pr', s_vfs = w, s_res = Ok\<rparr>"
      using assms(2,5) l Some d w(1) by (auto simp: open_path_def new_file_def split: prod.splits)
    note n = get_next_fd_spec[OF g(1) b(3)]
    have "refs (s_proc s') e = refs (s_proc s) e + of_bool (e = d)" for e
      using refs_set_fd[OF n(1), of "Some \<lparr>f_dentry = d, f_offset = 0, f_fd = 0\<rparr>" e] n(2,5) g(2) by auto
    then have "(\<lambda>e. ext e + refs (s_proc s') e) = ?e(d := ?e d + 1)" by auto
    then have "proc_inv ext s'" using w(2,3) p(3) inv(2,3) n(6) g(2) by (simp add: proc_inv_def set_fd_def)
    moreover have "fd_file fd' (s_proc s') = fd_file fd' (s_proc s)" if "fd' \<noteq> fd" for fd'
    proof -
      have "unat fd' \<noteq> unat fd" using that by (simp add: word_unat_eq_iff)
      then have "fd_file fd' (s_proc s') = fd_file fd' pr'" using g(2) by (simp add: fd_file_def set_fd_def)
      then show ?thesis using n(7) by simp
    qed
    moreover have "fd_file fd (s_proc s') = Some \<lparr>f_dentry = d, f_offset = 0, f_fd = 0\<rparr>"
      using n(1) g(2) by (simp add: fd_file_def set_fd_def)
    ultimately show ?thesis using w(4) d n(3,4) g(2) by auto
  qed
qed

lemma close_spec:
  assumes "proc_inv ext s" "fd_file fd (s_proc s) = Some f"
  shows "\<exists>v. close_file fd s = Some (s\<lparr>s_proc := set_fd fd None (s_proc s), s_vfs := v\<rparr>) \<and>
    proc_inv ext (s\<lparr>s_proc := set_fd fd None (s_proc s), s_vfs := v\<rparr>)"
proof -
  let ?e = "\<lambda>d. ext d + refs (s_proc s) d"
  let ?d = "f_dentry f"
  have inv: "vfs_inv ?e (s_vfs s)" "0 < ext (vfs.root (s_vfs s))" "vmas_ok (p_vmas (s_proc s))"
    using assms(1) by (simp_all add: proc_inv_def)
  have r: "0 < refs (s_proc s) ?d" by (rule refs_open_fd[OF assms(2)])
  have "?d = vfs.root (s_vfs s) \<longrightarrow> 1 < ?e ?d"
  proof
    assume a: "?d = vfs.root (s_vfs s)"
    show "1 < ?e ?d" using r inv(2) unfolding a by simp
  qed
  then obtain v where v: "dentry_dec_rc ?d (s_vfs s) = Some v" "vfs_inv (?e(?d := ?e ?d - 1)) v" "vfs.root v = vfs.root (s_vfs s)"
    using dec_rc_inv[OF inv(1), of ?d] r by auto
  have i: "unat fd < length (p_fds (s_proc s))" "p_fds (s_proc s) ! unat fd = Some f"
    using assms(2) by (auto simp: fd_file_def split: if_splits)
  have "refs (set_fd fd None (s_proc s)) d + of_bool (?d = d) = refs (s_proc s) d" for d
    using refs_set_fd[OF i(1), of None d] i(2) by simp
  from this[symmetric] r have "(\<lambda>d. ext d + refs (set_fd fd None (s_proc s)) d) = ?e(?d := ?e ?d - 1)" by auto
  then show ?thesis using v inv(2,3) assms(2)
    by (intro exI[of _ v]) (simp add: close_file_def delete_file_def proc_inv_def set_fd_def)
qed

section \<open>Mapping memory\<close>

definition bad_args :: "u32 \<Rightarrow> u32 \<Rightarrow> vma_flags \<Rightarrow> FileDescriptor \<Rightarrow> u32 \<Rightarrow> bool" where
  "bad_args addr sz flags fd offset \<longleftrightarrow>
     \<not> (PG_ALIGNED addr \<and> PG_ALIGNED offset \<and> sz \<noteq> 0 \<and> (fd = InvalidFD) = map_anon flags)"


lemma mmap_bad:
  assumes "s_res s = Ok" "bad_args addr sz flags fd offset" "\<not> (fd \<noteq> InvalidFD \<and> fd_file fd (s_proc s) = None)"
    and "vma_slot addr sz (p_vmas (s_proc s)) = Some i"
  shows "mmap addr sz prot flags fd offset s =
    (if fd = InvalidFD then Some (0, s\<lparr>s_res := InvalidArgs\<rparr>)
     else dentry_dec_rc (f_dentry (the (fd_file fd (s_proc s)))) (s_vfs s) \<bind>
       (\<lambda>v. Some (0, s\<lparr>s_vfs := v, s_res := InvalidArgs\<rparr>)))"
  using assms by (auto simp: mmap_def new_vma_def delete_vma_def bad_args_def Let_def)

lemma mmap_bad_returns:
  assumes "proc_inv ext s" "s_res s = Ok" "bad_args addr sz flags fd offset" "fd \<noteq> InvalidFD"
    and "fd_file fd (s_proc s) = Some f" "vma_slot addr sz (p_vmas (s_proc s)) = Some i" "d = f_dentry f"
  shows "\<exists>v. mmap addr sz prot flags fd offset s = Some (0, s\<lparr>s_vfs := v, s_res := InvalidArgs\<rparr>) \<and>
    dentry_dec_rc d (s_vfs s) = Some v \<and> vfs_inv ((\<lambda>d. ext d + refs (s_proc s) d)(d := ext d + refs (s_proc s) d - 1)) v"
proof -
  have inv: "vfs_inv (\<lambda>d. ext d + refs (s_proc s) d) (s_vfs s)" "0 < ext (vfs.root (s_vfs s))"
    using assms(1) by (simp_all add: proc_inv_def)
  have r: "0 < refs (s_proc s) d" unfolding assms(7) by (rule refs_open_fd[OF assms(5)])
  have "d = vfs.root (s_vfs s) \<longrightarrow> 1 < ext d + refs (s_proc s) d" using r inv(2) by auto
  then show ?thesis using dec_rc_inv[OF inv(1), of d] r mmap_bad[OF assms(2,3) _ assms(6), of prot] assms(4,5,7) by auto
qed

section \<open>Claims\<close>


definition demo_proc :: process where
  "demo_proc = \<lparr>eip3 = 0, esp3 = 0, p_tid = InvalidTID, p_fds = [Some \<lparr>f_dentry = 1, f_offset = 0, f_fd = 0\<rparr>],
     p_vmas = [\<lparr>vma_addr = 0x8000, vma_len = 0x1000, vma_prot = \<lparr>acc_executable = False, acc_writable = True, acc_readable = True\<rparr>,
       vma_flags = \<lparr>map_anon = True, map_private = True\<rparr>, vma_dentry = None, vma_offset = 0\<rparr>],
     page_directory = 0xC0001000\<rparr>"

definition demo_sys :: sys where "demo_sys = \<lparr>s_proc = demo_proc, s_vfs = demo_vfs, s_res = Ok\<rparr>"

definition demo_rest :: "nat \<Rightarrow> nat" where "demo_rest d = of_bool (d = 0)"

lemma demo_proc_inv: "proc_inv demo_rest demo_sys" "proc_bounds demo_rest 10 demo_sys" "proc_bounds demo_rest 0 demo_sys"
proof -
  have r: "refs demo_proc d = of_bool (d = 1)" for d by (simp add: refs_def demo_proc_def)
  then have "(\<lambda>d. demo_rest d + refs demo_proc d) = demo_ext"
    by (auto simp: demo_rest_def demo_ext_def fun_eq_iff of_bool_def)
  then show "proc_inv demo_rest demo_sys"
    using demo_vfs_inv by (simp add: proc_inv_def demo_sys_def demo_rest_def demo_vfs_def vmas_ok_def vma_ok_def demo_proc_def
        no_wrap_def PG_ALIGNED_def)
  show "proc_bounds demo_rest 10 demo_sys" "proc_bounds demo_rest 0 demo_sys"
    by (auto simp: proc_bounds_def demo_sys_def r demo_rest_def) (simp_all add: demo_vfs_def demo_proc_def)
qed


text \<open>
  C12. Descriptors and references. Opening a path returns the smallest descriptor that is not in use, at the start
  of the file of that path, or \<^verbatim>\<open>FileNotFound\<close>; closing a descriptor never fails an assertion and frees it, and
  \<^verbatim>\<open>BadFD\<close> is the result for one that is not open. The other descriptors stay as they are, and the dentries
  count exactly the references of the process and of the rest of the system.
\<close>

theorem descriptors_keep_references:
  assumes "proc_inv ext s" "s_res s = Ok" "length path < 2 ^ 31" "proc_bounds ext (length (components path)) s"
  shows "(\<forall>fd s'. open_path dev path s = Some (fd, s') \<longrightarrow> proc_inv ext s' \<and>
      (if s_res s' = Ok
       then (\<exists>d. fd_file fd (s_proc s') = Some \<lparr>f_dentry = d, f_offset = 0, f_fd = 0\<rparr> \<and>
               at_path (s_vfs s') d (normalize [] (components path))) \<and>
            fd_file fd (s_proc s) = None \<and> (\<forall>i < unat fd. i < length (p_fds (s_proc s)) \<and> p_fds (s_proc s) ! i \<noteq> None) \<and>
            (\<forall>fd'. fd' \<noteq> fd \<longrightarrow> fd_file fd' (s_proc s') = fd_file fd' (s_proc s))
       else s_res s' = FileNotFound \<and> fd = InvalidFD \<and> s_proc s' = s_proc s)) \<and>
    (\<forall>fd. \<exists>s'. close_file fd s = Some s' \<and> proc_inv ext s' \<and> fd_file fd (s_proc s') = None \<and>
       (\<forall>fd'. fd' \<noteq> fd \<longrightarrow> fd_file fd' (s_proc s') = fd_file fd' (s_proc s)) \<and>
       s_res s' = (if fd_file fd (s_proc s) = None then BadFD else Ok))"
proof (rule conjI, intro allI impI)
  fix fd s' assume "open_path dev path s = Some (fd, s')"
  from open_spec[OF assms this] show "proc_inv ext s' \<and>
      (if s_res s' = Ok
       then (\<exists>d. fd_file fd (s_proc s') = Some \<lparr>f_dentry = d, f_offset = 0, f_fd = 0\<rparr> \<and>
               at_path (s_vfs s') d (normalize [] (components path))) \<and>
            fd_file fd (s_proc s) = None \<and> (\<forall>i < unat fd. i < length (p_fds (s_proc s)) \<and> p_fds (s_proc s) ! i \<noteq> None) \<and>
            (\<forall>fd'. fd' \<noteq> fd \<longrightarrow> fd_file fd' (s_proc s') = fd_file fd' (s_proc s))
       else s_res s' = FileNotFound \<and> fd = InvalidFD \<and> s_proc s' = s_proc s)" .
next
  have "\<exists>s'. close_file fd s = Some s' \<and> proc_inv ext s' \<and> fd_file fd (s_proc s') = None \<and>
       (\<forall>fd'. fd' \<noteq> fd \<longrightarrow> fd_file fd' (s_proc s') = fd_file fd' (s_proc s)) \<and>
       s_res s' = (if fd_file fd (s_proc s) = None then BadFD else Ok)" for fd
  proof (cases "fd_file fd (s_proc s)")
    case None
    then show ?thesis using assms(1) by (simp add: close_file_def proc_inv_def)
  next
    case (Some f)
    have "fd_file fd' (set_fd fd None pr) = (if fd' = fd then None else fd_file fd' pr)" for fd' pr
      by (auto simp: fd_file_def set_fd_def word_unat_eq_iff)
    then show ?thesis using close_spec[OF assms(1) Some] Some assms(2) by auto
  qed
  then show "\<forall>fd. \<exists>s'. close_file fd s = Some s' \<and> proc_inv ext s' \<and> fd_file fd (s_proc s') = None \<and>
       (\<forall>fd'. fd' \<noteq> fd \<longrightarrow> fd_file fd' (s_proc s') = fd_file fd' (s_proc s)) \<and>
       s_res s' = (if fd_file fd (s_proc s) = None then BadFD else Ok)" by blast
qed

theorem descriptors_keep_references_witness:
  "(\<exists>s'. open_path demo_dev [0x2F, 98] demo_sys = Some (1, s') \<and> proc_inv demo_rest s') \<and>
   (\<exists>s'. close_file 0 demo_sys = Some s' \<and> proc_inv demo_rest s' \<and> s_res s' = Ok)"
proof -
  have c: "components [0x2F, 98] = [[], [98]]" by (simp add: components.simps slash_def)
  have b: "proc_bounds demo_rest (length (components [0x2F, 98])) demo_sys"
    using demo_proc_inv(2) by (simp add: proc_bounds_def c)
  have "\<exists>s'. open_path demo_dev [0x2F, 98] demo_sys = Some (1, s')"
    by (simp add: open_path_def demo_sys_def pathname_lookup_def lookup_loop_walk c lookup_step_def demo_vfs_def demo_proc_def
        get_next_fd_def new_file_def dentry_inc_rc_def upd_dentry_def)
  then obtain s' where o: "open_path demo_dev [0x2F, 98] demo_sys = Some (1, s')" by blast
  have f: "fd_file 0 (s_proc demo_sys) \<noteq> None" "s_res demo_sys = Ok" by (simp_all add: demo_sys_def demo_proc_def fd_file_def)
  note d = descriptors_keep_references[OF demo_proc_inv(1) f(2) _ b, of demo_dev]
  have "proc_inv demo_rest s'" using d o by simp
  moreover have "\<exists>s'. close_file 0 demo_sys = Some s' \<and> proc_inv demo_rest s' \<and> s_res s' = Ok"
    using conjunct2[OF d, rule_format, of 0] f(1) by auto
  ultimately show ?thesis using o by blast
qed

text \<open>
  C39. A mapping of an open file that is rejected for its arguments drops a reference that it never took: the
  area is destroyed although its constructor returned before it counted the dentry. The descriptor
  stays open with a reference less on its dentry. If it was the last one the dentry is freed under the open
  descriptor, and closing the descriptor halts the machine or uses freed memory.
\<close>

theorem failed_mmap_drops_reference:
  assumes "proc_inv ext s" "s_res s = Ok" "bad_args addr sz flags fd offset" "fd \<noteq> InvalidFD"
    and "fd_file fd (s_proc s) = Some f" "no_wrap addr sz" "\<forall>x\<in>set (p_vmas (s_proc s)). \<not> areas_overlap addr sz x"
    and "d = f_dentry f" "dentries (s_vfs s) d = Some x"
  shows "\<exists>s'. mmap addr sz prot flags fd offset s = Some (0, s') \<and> s_proc s' = s_proc s \<and>
    vfs_inv ((\<lambda>d. ext d + refs (s_proc s) d)(d := ext d + refs (s_proc s) d - 1)) (s_vfs s') \<and>
    (d_rc x = 1 \<longrightarrow> dentries (s_vfs s') d = None \<and> close_file fd s' = None)"
proof -
  have "vmas_ok (p_vmas (s_proc s))" using assms(1) by (simp add: proc_inv_def)
  then obtain i where "vma_slot addr sz (p_vmas (s_proc s)) = Some i"
    using vma_slot_None[OF _ assms(6)] assms(7) by fastforce
  from mmap_bad_returns[OF assms(1-5) this assms(8)] obtain v where
    v: "mmap addr sz prot flags fd offset s = Some (0, s\<lparr>s_vfs := v, s_res := InvalidArgs\<rparr>)" "dentry_dec_rc d (s_vfs s) = Some v"
      "vfs_inv ((\<lambda>d. ext d + refs (s_proc s) d)(d := ext d + refs (s_proc s) d - 1)) v" by blast
  have "dentries v d = None" if "d_rc x = 1"
    using v(2) assms(9) that by (subst (asm) dentry_dec_rc.simps) (auto simp: upd_dentry_def bind_eq_Some_conv Let_def)
  moreover from this have "close_file fd (s\<lparr>s_vfs := v, s_res := InvalidArgs\<rparr>) = None" if "d_rc x = 1"
    using that assms(5,8) by (subst close_file_def) (simp add: delete_file_def dentry_dec_rc.simps)
  ultimately show ?thesis using v(1,3) by simp
qed

theorem failed_mmap_drops_reference_witness:
  "\<exists>s'. mmap 0x4000 0x2000 \<lparr>acc_executable = False, acc_writable = False, acc_readable = True\<rparr>
       \<lparr>map_anon = True, map_private = True\<rparr> 0 0 demo_sys = Some (0, s') \<and> close_file 0 s' = None"
proof -
  have "no_wrap 0x4000 (0x2000 :: u32)" by (simp add: no_wrap_def)
  moreover have "bad_args 0x4000 0x2000 \<lparr>map_anon = True, map_private = True\<rparr> 0 0" "(0 :: FileDescriptor) \<noteq> InvalidFD"
    by (simp_all add: bad_args_def InvalidFD_def)
  moreover have "fd_file 0 (s_proc demo_sys) = Some \<lparr>f_dentry = 1, f_offset = 0, f_fd = 0\<rparr>"
    "\<forall>x\<in>set (p_vmas (s_proc demo_sys)). \<not> areas_overlap 0x4000 0x2000 x" "s_res demo_sys = Ok"
    by (simp_all add: demo_sys_def demo_proc_def fd_file_def areas_overlap_def)
  moreover have "dentries (s_vfs demo_sys) 1 = Some \<lparr>d_inode = 1, d_parent = Some 0, d_children = [], d_component = [98],
      in_hashtable = True, to_unlink = False, d_rc = 1\<rparr>"
    by (simp add: demo_sys_def demo_vfs_def)
  ultimately show ?thesis
    using failed_mmap_drops_reference[OF demo_proc_inv(1), where addr = "0x4000" and sz = "0x2000" and fd = 0 and offset = 0
        and flags = "\<lparr>map_anon = True, map_private = True\<rparr>" and d = 1]
    by fastforce
qed

end
