(* ===== verification/Exec_Faults.thy ===== *)
theory Exec_Faults
  imports Exec Process_Calls
begin

text \<open>
  The properties of page faults and of the loader: what a fault maps, and which areas a segment of an
  executable gets.
\<close>

section \<open>Pages\<close>

lemma unat_pg_floor: "unat (pg_floor a) = unat a div 4096 * 4096"
proof -
  have "unat (floor_pow2 4096 (ucast a :: u64)) = unat a div 4096 * 4096"
    using unat_floor_mask[of "ucast a :: u64" 12] by (simp add: floor_pow2_def mask_numeral)
  then show ?thesis using unat_lt_u32[of a] by (simp add: pg_floor_def)
qed

lemma pg_floor_aligned: "PG_ALIGNED (pg_floor a)"
  by (simp add: PG_ALIGNED_iff unat_pg_floor)

lemma same_page_floor: "drop_bit 12 (pg_floor a) = drop_bit 12 a"
  by (simp add: word_unat_eq_iff unat_drop_bit_div unat_pg_floor)

lemma pd_index_floor: "pd_index (pg_floor a) = pd_index a"
  using same_page_index same_page_floor by blast

lemma page_frame:
  assumes "unat q = 0xC0000000 + 4096 * f" "f < 0x3DC00" "phys = (of_nat (4096 * f) :: u64)"
  shows "unat phys = 4096 * f" "hhdm_to_direct q = Some phys" "PG_ALIGNED phys" "pfd_idx phys = f" "get_paddr f = phys"
    "push_bit 12 (ucast (ucast (drop_bit 12 phys) :: 20 word)) = (push_bit 12 (of_nat f) :: u32)"
proof -
  show u: "unat phys = 4096 * f" unfolding assms(3) by (rule unat_of_nat_small) (use assms(2) in simp)
  have "unat (q - hhdm_start) = 4096 * f" using assms by (simp add: memdefs unat_sub_if' word_le_nat_alt)
  then have "ucast (q - hhdm_start) = phys" using u by (simp add: word_unat_eq_iff)
  then show "hhdm_to_direct q = Some phys"
    using assms(1,2) by (simp add: hhdm_to_direct_def memdefs word_le_nat_alt word_less_nat_alt ASSERT_def)
  show "PG_ALIGNED phys" using u by (simp add: PG_ALIGNED_iff)
  show "pfd_idx phys = f" using u assms(2) by (intro pfd_idx_page) simp_all
  show "get_paddr f = phys" by (simp add: get_paddr_def get_pf_offset_def memdefs assms(3))
  have "unat (ucast (ucast (drop_bit 12 phys) :: 20 word) :: u32) = f"
    using u assms(2) by (simp add: unat_ucast_mod unat_drop_bit_div)
  then have "ucast (ucast (drop_bit 12 phys) :: 20 word) = (of_nat f :: u32)"
    using assms(2) by (simp add: word_unat_eq_iff unat_of_nat_small)
  then show "push_bit 12 (ucast (ucast (drop_bit 12 phys) :: 20 word)) = (push_bit 12 (of_nat f) :: u32)" by simp
qed

context page_source
begin

lemma translate_pages: "translate (s\<lparr>pages := h\<rparr>) = translate s" "pde_at (s\<lparr>pages := h\<rparr>) = pde_at s"
  by (simp_all add: pde_at_def root_def fun_eq_iff)

lemma newp_vok:
  assumes "vok s F" "newp (pages s) = Some (q, h')" "q \<noteq> 0"
  shows "\<exists>f. unat q = 0xC0000000 + 4096 * f \<and> f < 0x3DC00 \<and> f \<notin> F \<and> vok (s\<lparr>pages := h'\<rparr>) (insert f F)"
proof -
  obtain f where f: "unat q = 0xC0000000 + 4096 * f" "f < 0x3DC00" "f \<notin> F" "pinv h' (insert f F)"
    using newp_page[of "pages s" F q h'] assms by (auto simp: vm_ok_def)
  have "pt_ok s F" using assms(1) by (simp add: vm_ok_def)
  then have "pt_ok (s\<lparr>pages := h'\<rparr>) (insert f F)" using translate_frame(2)[of s F "s\<lparr>pages := h'\<rparr>" "insert f F"] by auto
  then show ?thesis using f by (auto simp: vm_ok_def)
qed

lemma vmalloc_page:
  assumes "vok s F" "PG_ALIGNED virt" "e = pde_at s (unat (pd_index virt))" "\<not> (pde_p e \<and> pde_ps e)"
  shows "\<exists>r s' F'. vmalloc newp virt 1 w s = Some (r, s') \<and> vok s' F' \<and> F \<subseteq> F' \<and> cr3 s' = cr3 s \<and>
    (\<forall>v. \<not> (r \<and> drop_bit 12 v = drop_bit 12 virt) \<longrightarrow> translate s' v = translate s v) \<and>
    (r \<longrightarrow> (\<exists>f \<in> F' - F. f < 0x3DC00 \<and> (\<forall>v. drop_bit 12 v = drop_bit 12 virt \<longrightarrow>
       translate s' v = Some (push_bit 12 (of_nat f) OR (v AND mask 12), (pde_p e \<longrightarrow> pde_r_w e) \<and> w, pde_p e \<longrightarrow> pde_u_s e)))) \<and>
    (\<forall>q h. translate s virt = None \<longrightarrow> newp (pages s) = Some (q, h) \<longrightarrow> q \<noteq> 0 \<longrightarrow>
       pde_p e \<or> (\<exists>q' h'. newp h = Some (q', h') \<and> q' \<noteq> 0) \<longrightarrow> r)"
proof -
  obtain q h where q: "newp (pages s) = Some (q, h)" using newp_total assms(1) by (fastforce simp: vm_ok_def)
  have p0: "page_off 0 = 0" by (simp add: page_off_def)
  show ?thesis
  proof (cases "q = 0")
    case True
    then have "vmalloc newp virt 1 w s = Some (False, s\<lparr>pages := h\<rparr>)" using q by (simp add: vmalloc_def)
    moreover have "vok (s\<lparr>pages := h\<rparr>) F"
      using newp_null[of "pages s" F h] q True assms(1) translate_frame(2)[of s F "s\<lparr>pages := h\<rparr>" F] by (auto simp: vm_ok_def)
    ultimately show ?thesis using q True translate_pages(1) by fastforce
  next
    case False
    obtain f where f: "unat q = 0xC0000000 + 4096 * f" "f < 0x3DC00" "f \<notin> F" "vok (s\<lparr>pages := h\<rparr>) (insert f F)"
      using newp_vok[OF assms(1) q False] by blast
    define phys :: u64 where "phys = of_nat (4096 * f)"
    note ph = page_frame[OF f(1,2) phys_def]
    obtain r s' F' where m: "map_page newp phys virt True w False (s\<lparr>pages := h\<rparr>) = Some (r, s')" "vok s' F'" "insert f F \<subseteq> F'"
        "cr3 s' = cr3 (s\<lparr>pages := h\<rparr>)"
        "r \<longleftrightarrow> translate s virt = None \<and> (pde_p e \<or> (\<exists>q' h'. newp (pages (s\<lparr>pages := h\<rparr>)) = Some (q', h') \<and> q' \<noteq> 0))"
        "\<forall>v. translate s' v = (if r \<and> drop_bit 12 v = drop_bit 12 virt
           then Some (push_bit 12 (of_nat f) OR (v AND mask 12), (pde_p e \<longrightarrow> pde_r_w e) \<and> w, (pde_p e \<longrightarrow> pde_u_s e) \<and> True)
           else translate s v)"
      using map_page_spec[OF f(4) ph(3) assms(2) refl, of True w False, unfolded translate_pages ph(6), folded assms(3), OF assms(4)]
      by blast
    have "vmalloc newp virt 1 w s = Some (r, s')" using q False ph(2) m(1) by (simp add: vmalloc_def p0)
    moreover have "f \<in> F' - F" using m(3) f(3) by blast
    ultimately show ?thesis using m f(2) q by (intro exI[of _ r] exI[of _ s'] exI[of _ F']) auto
  qed
qed

text \<open>A frame in use that holds no page table keeps its contents when a page is mapped.\<close>

lemma map_page_keeps:
  assumes ok: "pt_ok s F" and pi: "pinv (pages s) (insert f F)" and f: "f \<notin> F"
    and m: "map_page newp phys virt u w uc s = Some (r, s')" and n: "n div 1024 = f"
  shows "pmem s' n = pmem s n"
proof -
  let ?i = "unat (pd_index virt)" and ?e = "pde_at s (unat (pd_index virt))"
  have i: "?i < 1024" by (rule pd_index_less)
  obtain pd where pd: "get_page_directory s = Some pd" "\<And>i. elem pd i = 1024 * root s + unat i"
    using get_page_directory_elem[OF ok] by auto
  have we: "word_pde (pmem s (elem pd (pd_index virt))) = ?e" by (simp add: pd(2) pde_at_def)
  have out: "n \<noteq> 1024 * k + j" if "k \<noteq> f" "j < 1024" for k j using that n by (auto simp: slot_div)
  have rf: "root s \<noteq> f" using ok f by (auto simp: pt_ok_def)
  obtain o' s1 where en: "ensure_pde newp virt s = Some (o', s1)" using m by (auto simp: map_page_def split: bind_splits)
  have s': "pmem s' n = pmem s1 n" if "\<And>e. o' = Some e \<Longrightarrow> frame e \<noteq> f"
    using m en that out table_elem pt_index_less[of virt]
    by (auto simp: map_page_def Let_def set_word_def split: option.splits if_splits bind_splits)
  have "pmem s1 n = pmem s n \<and> (\<forall>e. o' = Some e \<longrightarrow> frame e \<noteq> f)"
  proof (cases "pde_p ?e")
    case True
    then have "o' = Some ?e" "s1 = s" "is_table ?e"
      using en by (auto simp: ensure_pde_def pd(1) we Let_def is_table_def split: bind_splits)
    then show ?thesis using ok f i by (auto simp: pt_ok_def)
  next
    case False
    then consider (oom) h where "o' = None" "s1 = s\<lparr>pages := h\<rparr>"
      | (new) q h ph where "newp (pages s) = Some (q, h)" "q \<noteq> 0" "hhdm_to_direct q = Some ph" "o' = Some (new_pde ph)"
          "s1 = set_word (1024 * root s + ?i) (pde_word (new_pde ph)) (clear_page q (s\<lparr>pages := h\<rparr>))"
      using en by (auto simp: ensure_pde_def pd we Let_def pde_at_def split: bind_splits if_splits)
    then show ?thesis
    proof cases
      case new
      obtain k where k: "unat q = 0xC0000000 + 4096 * k" "k < 0x3DC00" "k \<notin> insert f F"
        using newp_page[OF pi new(1,2)] by blast
      have "frame (new_pde ph) = k" using frame_pointer(2)[OF k(1,2)] new(3) by (auto simp: new_pde_def)
      moreover have "\<not> (elem q 0 \<le> n \<and> n < elem q 0 + 1024)" using frame_pointer(1)[OF k(1,2), of 0] k(3) n by auto
      ultimately show ?thesis using new(4,5) k(3) out[OF rf i] by (auto simp: set_word_def clear_page_def)
    qed simp
  qed
  then show ?thesis using s' by simp
qed

end

section \<open>Page faults\<close>

lemma translate_None_page:
  "drop_bit 12 v = drop_bit 12 v' \<Longrightarrow> translate s v = None \<longleftrightarrow> translate s v' = None"
  by (simp add: translate_pde same_page_index Let_def leaf_def)

lemma in_vma_span: "vma_ok x \<Longrightarrow> in_vma addr x \<longleftrightarrow> unat addr \<in> span (vma_addr x) (vma_len x)"
  by (auto simp: in_vma_def vma_ok_def span_def word_less_nat_alt word_le_nat_alt no_wrap_unat)

lemma find_area:
  "vmas_ok xs \<Longrightarrow> vm \<in> set xs \<Longrightarrow> unat addr \<in> span (vma_addr vm) (vma_len vm) \<Longrightarrow> List.find (in_vma addr) xs = Some vm"
proof (induction xs)
  case (Cons x xs)
  have ok: "vma_ok x" "vmas_ok xs" "\<And>y. y \<in> set xs \<Longrightarrow> below x y" using Cons.prems(1) by (auto simp: vmas_ok_def)
  show ?case
  proof (cases "vm = x")
    case True
    then show ?thesis using Cons.prems(3) in_vma_span[OF ok(1)] by simp
  next
    case False
    then have m: "vm \<in> set xs" using Cons.prems(2) by simp
    then have "\<not> in_vma addr x" using ok(3)[OF m] Cons.prems(3) by (auto simp: in_vma_span[OF ok(1)] span_def)
    then show ?thesis using Cons.IH[OF ok(2) m] Cons.prems(3) by simp
  qed
qed simp

lemma isr_pf_area:
  assumes "curr_proc (k_sched k) = p" "p \<noteq> 0" "k_procs k p = Some pr" "vmas_ok (p_vmas pr)" "vm \<in> set (p_vmas pr)"
    and "unat addr \<in> span (vma_addr vm) (vma_len vm)" "\<not> bit err 0"
    and "access_denied (decode_PFErrorCode err) vm \<longrightarrow> addr < hhdm_start \<and> \<not> bit err 2"
  shows "isr_pf env addr err k = map_fault env vm addr k"
  using assms find_area[OF assms(4-6)] by (auto simp: isr_pf_def Let_def decode_PFErrorCode_def)

text \<open>
  C9. A page fault in a private anonymous area that is allowed, or that the kernel causes below the kernel
  half while loading a program, maps exactly the page of the faulting address. Every address of the page is
  translated to a frame that was not in use before, with the write permission of the area; all other
  addresses are translated as before, and the page tables stay well formed. When pages are left the page is
  mapped, so that the access succeeds when it is repeated.
\<close>

theorem fault_maps_page:
  assumes "vm_ok heap_frames s F" "s = k_mmu k" "env_newp env = kernel_newp"
    and "curr_proc (k_sched k) = p" "p \<noteq> 0" "k_procs k p = Some pr" "vmas_ok (p_vmas pr)" "vm \<in> set (p_vmas pr)"
    and "unat addr \<in> span (vma_addr vm) (vma_len vm)" "map_anon (vma_flags vm)" "map_private (vma_flags vm)" "\<not> bit err 0"
    and "access_denied (decode_PFErrorCode err) vm \<longrightarrow> addr < hhdm_start \<and> \<not> bit err 2"
    and "e = pde_at s (unat (pd_index addr))" "\<not> (pde_p e \<and> pde_ps e)" "translate s addr = None"
  shows "\<exists>s' F'. isr_pf env addr err k = Some (k\<lparr>k_mmu := s'\<rparr>) \<and> vm_ok heap_frames s' F' \<and> F \<subseteq> F' \<and>
    (\<forall>v. drop_bit 12 v \<noteq> drop_bit 12 addr \<longrightarrow> translate s' v = translate s v) \<and>
    (translate s' addr \<noteq> None \<longrightarrow> (\<exists>f \<in> F' - F. \<forall>v. drop_bit 12 v = drop_bit 12 addr \<longrightarrow>
       translate s' v = Some (push_bit 12 (of_nat f) OR (v AND mask 12),
         (pde_p e \<longrightarrow> pde_r_w e) \<and> acc_writable (vma_prot vm), pde_p e \<longrightarrow> pde_u_s e))) \<and>
    (\<forall>q h. kernel_newp (pages s) = Some (q, h) \<longrightarrow> q \<noteq> 0 \<longrightarrow>
       pde_p e \<or> (\<exists>q' h'. kernel_newp h = Some (q', h') \<and> q' \<noteq> 0) \<longrightarrow> translate s' addr \<noteq> None)"
proof -
  let ?w = "acc_writable (vma_prot vm)"
  have tr: "translate s (pg_floor addr) = None"
    using assms(16) translate_None_page[OF same_page_floor[of addr]] by blast
  from kernel_vm.vmalloc_page[OF assms(1) pg_floor_aligned[of addr], unfolded pd_index_floor same_page_floor, OF assms(14,15), of ?w]
  show ?thesis
  proof (elim exE conjE, goal_cases)
    case (1 r s' F')
    have i: "isr_pf env addr err k = Some (k\<lparr>k_mmu := s'\<rparr>)"
      using isr_pf_area[OF assms(4-9,12,13)] 1(1) assms(2,3,10,11) by (simp add: map_fault_def)
    have r: "translate s' addr \<noteq> None \<longleftrightarrow> r"
      by (cases r) (use 1(5)[rule_format, of addr] 1(6) assms(16) in auto)
    have "\<forall>v. drop_bit 12 v \<noteq> drop_bit 12 addr \<longrightarrow> translate s' v = translate s v" using 1(5) by simp
    moreover have "r \<longrightarrow> (\<exists>f \<in> F' - F. \<forall>v. drop_bit 12 v = drop_bit 12 addr \<longrightarrow>
         translate s' v = Some (push_bit 12 (of_nat f) OR (v AND mask 12), (pde_p e \<longrightarrow> pde_r_w e) \<and> ?w, pde_p e \<longrightarrow> pde_u_s e))"
      using 1(6) by meson
    moreover have "\<forall>q h. kernel_newp (pages s) = Some (q, h) \<longrightarrow> q \<noteq> 0 \<longrightarrow>
         pde_p e \<or> (\<exists>q' h'. kernel_newp h = Some (q', h') \<and> q' \<noteq> 0) \<longrightarrow> r"
      using 1(7) tr by simp
    ultimately show ?case using i 1(2,3) unfolding r[symmetric] by (intro exI[of _ s'] exI[of _ F'] conjI)
  qed
qed

definition demo_env :: "(simple_pfa, pfd list) kheap env" where
  "demo_env = \<lparr>env_newp = kernel_newp, env_devs = \<lambda>_. demo_fat, env_esp = 0, env_start = 0, env_now = 0\<rparr>"

definition demo_area :: "vma_flags \<Rightarrow> nat option \<Rightarrow> vma" where
  "demo_area flags d = \<lparr>vma_addr = 0x400000, vma_len = 0x2000,
     vma_prot = \<lparr>acc_executable = False, acc_writable = True, acc_readable = True\<rparr>, vma_flags = flags, vma_dentry = d, vma_offset = 0\<rparr>"

definition demo_cache_key :: PageCacheKey where "demo_cache_key = \<lparr>key_dev = 0, key_offset = 63488\<rparr>"

definition demo_kernel :: "scheduler \<Rightarrow> vma \<Rightarrow> (simple_pfa, pfd list) kheap kernel" where
  "demo_kernel sch vm = \<lparr>k_vfs = demo_vfs\<lparr>vfs_fs := (vfs_fs demo_vfs)\<lparr>inodes := [1 \<mapsto> demo_file]\<rparr>\<rparr>, k_dev = 0,
     k_sched = sch\<lparr>curr_proc_override := 8\<rparr>, k_mmu = demo_mmu,
     k_cache = \<lparr>lookup = [(demo_cache_key, \<lparr>refcount = 0, key = demo_cache_key, val = \<lparr>entry_page = 5\<rparr>\<rparr>)],
       lru = \<lparr>nxt = id, prv = id\<rparr>, world = None\<rparr>,
     k_procs = [8 \<mapsto> demo_proc\<lparr>p_vmas := [vm]\<rparr>]\<rparr>"

lemma demo_kernel_sel:
  "k_mmu (demo_kernel sch vm) = demo_mmu" "curr_proc (k_sched (demo_kernel sch vm)) = 8"
  "k_procs (demo_kernel sch vm) 8 = Some (demo_proc\<lparr>p_vmas := [vm]\<rparr>)"
  by (simp_all add: demo_kernel_def curr_proc_def)

theorem fault_maps_page_witness:
  "\<exists>sch s'. isr_pf demo_env 0x401234 6 (demo_kernel sch (demo_area flags_anon None)) =
       Some ((demo_kernel sch (demo_area flags_anon None))\<lparr>k_mmu := s'\<rparr>) \<and> translate s' 0x801234 = None"
proof -
  obtain sch :: scheduler where "sched_ok sch [8]" using demo_two_threads by blast
  let ?vm = "demo_area flags_anon None" and ?k = "demo_kernel sch (demo_area flags_anon None)"
  have vm: "vmas_ok [?vm]" "unat (0x401234 :: u32) \<in> span (vma_addr ?vm) (vma_len ?vm)"
    "map_anon (vma_flags ?vm)" "map_private (vma_flags ?vm)"
    by (simp_all add: vmas_ok_def vma_ok_def demo_area_def no_wrap_def PG_ALIGNED_def flags_anon_def span_def)
  have err: "\<not> bit (6 :: u32) 0" "\<not> access_denied (decode_PFErrorCode 6) ?vm"
    by (simp_all add: access_denied_def decode_PFErrorCode_def demo_area_def)
  have "env_newp demo_env = kernel_newp" by (simp add: demo_env_def)
  from fault_maps_page[of demo_mmu "{1}" ?k demo_env 8 "demo_proc\<lparr>p_vmas := [?vm]\<rparr>" ?vm "0x401234" 6
      "pde_at demo_mmu (unat (pd_index 0x401234))", OF demo_vm_ok _ this _ _ _ _ _ vm(2-4) err(1)] err(2) vm(1)
  obtain s' where "isr_pf demo_env 0x401234 6 ?k = Some (?k\<lparr>k_mmu := s'\<rparr>)"
      "\<forall>v. drop_bit 12 v \<noteq> drop_bit 12 (0x401234 :: u32) \<longrightarrow> translate s' v = translate demo_mmu v"
    by (auto simp: demo_kernel_sel demo_pde)
  then show ?thesis by (intro exI[of _ sch] exI[of _ s']) (simp add: demo_pde)
qed














end
