(* ===== verification/Spec2Isabelle.thy ===== *)
theory Spec2Isabelle
  imports Virtual_Memory Lru Hash_Bytes Sched Libc Printf Exec_Faults
begin

text \<open>
  HmmOS: verification library for the kernel, its standard library and its drivers.

  HmmOS is an operating system for 32-bit x86. The bootloader loads the kernel and passes it the memory map; the
  kernel builds its page frame table and allocators, its heap and its page tables, starts the scheduler, mounts
  the FAT32 partition it was booted from and runs the first program from it as a process.

  \<^bold>\<open>Conventions.\<close> A failing \<^verbatim>\<open>ASSERT\<close> prints and shuts the machine down: it is \<open>None\<close> in the option monad, and so is
  undefined behaviour such as a read outside of a buffer. Results that the code reports are values. Integers
  have their width and wrap around; \<^verbatim>\<open>size_t\<close> and pointers are 32 bits. Objects are named by their addresses or
  by numbers. What comes from outside of the sources is a parameter: the contents of block devices, the memory
  map, readings of the time stamp counter, uninitialised memory.

  \<^bold>\<open>Theories and sources\<close> (all under \<^verbatim>\<open>src/src\<close>).

  \<^item> \<open>HmmOS_Prelude\<close>: \<^verbatim>\<open>common/memdefs.h\<close>, the layout of the address space, \<^verbatim>\<open>ASSERT\<close>, shared lemmas.
  \<^item> \<open>Algorithm\<close>: \<^verbatim>\<open>kernel/util/algorithm.h\<close>: alignment and ranges against their meaning on natural numbers.
  \<^item> \<open>Page_Frame_Table\<close>: \<^verbatim>\<open>kernel/mm/page_frame_table.cc\<close>: normalising the E820 map keeps exactly the usable
    aligned memory, the table lies in usable memory, registration of allocators.
  \<^item> \<open>Page_Frame_Allocator\<close>: \<^verbatim>\<open>kernel/mm/page_frame_allocator.cc\<close>: the round-robin search returns, finds a run
    when there is one, and never hands out a page twice.
  \<^item> \<open>Kmalloc\<close>: \<^verbatim>\<open>kernel/mm/kmalloc.cc\<close>: objects are disjoint; proved over the interface \<open>page_allocator\<close>.
  \<^item> \<open>Intrusive_List\<close>, \<open>Node_List\<close>: \<^verbatim>\<open>kernel/util/intrusive_list.h\<close> and \<^verbatim>\<open>kernel/nonstd/list.h\<close> as links between
    nodes, with the sequence of the nodes as their meaning.
  \<^item> \<open>Lru\<close>: \<^verbatim>\<open>kernel/util/lru.h\<close>: leases, the evictable list, eviction; over the interface \<open>list_head\<close>.
  \<^item> \<open>Hash_Map\<close>, \<open>Hash_Bytes\<close>: \<^verbatim>\<open>kernel/nonstd/node_hash_map.h\<close> refines finite maps (interface \<open>dict\<close>), and
    \<^verbatim>\<open>kernel/nonstd/hash_bytes.cc\<close>.
  \<^item> \<open>Page_Table\<close>, \<open>Virtual_Memory\<close>: \<^verbatim>\<open>kernel/arch/x86/page_table.cc\<close> and \<^verbatim>\<open>kernel/mm/virt.cc\<close> against the translation of
    the processor, over the interface \<open>page_source\<close>, which the kernel heap provides.
  \<^item> \<open>Sched\<close>: \<^verbatim>\<open>kernel/sched/kthread.cc\<close>: round robin, thread identifiers, destruction of threads.
  \<^item> \<open>Libc\<close>, \<open>Printf\<close>: \<^verbatim>\<open>common/libc_minimal.h\<close>, \<^verbatim>\<open>kernel/nonstd/libc.h\<close> and \<^verbatim>\<open>kernel/nonstd/libc.cc\<close>.
  \<^item> \<open>String_View\<close>: \<^verbatim>\<open>kernel/nonstd/string_view.h\<close> and \<^verbatim>\<open>kernel/util/pathutil.cc\<close>.
  \<^item> \<open>Fat32\<close>, \<open>Fat32_Files\<close>: \<^verbatim>\<open>kernel/fs/drivers/fat32.cc\<close>: structures on disk, names, directories, chains of clusters.
  \<^item> \<open>Vfs\<close>, \<open>Vfs_Paths\<close>, \<open>Vfs_Refs\<close>: \<^verbatim>\<open>kernel/fs/vfs.cc\<close>: reading, the dentry tree, paths, reference counts.
  \<^item> \<open>Page_Cache\<close>: \<^verbatim>\<open>kernel/fs/page_cache.cc\<close>: the LRU cache over the memory of the machine.
  \<^item> \<open>Elf\<close>: \<^verbatim>\<open>kernel/proc/elf.cc\<close>: headers of executables.
  \<^item> \<open>Process\<close>, \<open>Process_Calls\<close>: \<^verbatim>\<open>kernel/proc/process.cc\<close>: descriptors, memory areas, system calls.
  \<^item> \<open>Exec\<close>, \<open>Exec_Faults\<close>: the loader, construction and exit of processes, and the page fault and system call
    handlers of \<^verbatim>\<open>kernel/arch/x86/isrs.cc\<close>, over all of the above.

  \<^bold>\<open>State.\<close> Each component has its state as a record with the members of the class: \<open>simple_pfa\<close>, \<open>kheap\<close>, \<open>mmu\<close> (physical
  memory as words, \<^verbatim>\<open>cr3\<close>, the heap), \<open>scheduler\<close>, \<open>filesystem\<close>, \<open>vfs\<close>, \<open>process\<close>; \<open>kernel\<close> puts the last five together.
  Operations take the state and return it; a reference parameter \<^verbatim>\<open>res\<close> is part of the state.

  \<^bold>\<open>Loops.\<close> A loop over data is structural recursion. Loops whose end depends on the state are partial functions
  in the option monad, with lemmas that they return: \<open>alloc_loop\<close> on the number of steps, \<open>evict_loop\<close> on the size of
  the cache, \<open>assign_tid_loop\<close> on the free identifiers, \<open>iterate_dir\<close> and \<open>dev_offset_loop\<close> on the chain of clusters,
  \<open>lookup_loop\<close> on the path, \<open>dentry_dec_rc\<close> on the ancestors. There is no fuel. Bounds in hypotheses (\<open>2 ^ 31\<close> for
  lengths, counts and descriptors) exclude only wrap-around that would need more objects than memory holds.

  \<^bold>\<open>Not modelled.\<close> The assembly of the bootloader and of the kernel entry, descriptor tables, interrupt vectors
  and the context switch itself; programming of devices (AHCI, PCI, PIC, serial port, console), which is reads
  and writes of registers without a model of the hardware to state results against; the containers that no modelled
  component uses (\<^verbatim>\<open>deque\<close>, \<^verbatim>\<open>queue\<close>, \<^verbatim>\<open>stack\<close>, \<^verbatim>\<open>string\<close>); user programs and tests. The memory of buffers that
  live during one call of the kernel is not taken from the heap.
\<close>

end
